(* ===== verification/Prelude.thy ===== *)
theory Prelude
  imports Main "HOL-Library.Word"
begin

text \<open>
  Shared ground of the development: how a C++ statement that may fail is modelled, how
  statements are put in sequence, and the generic facts about lists that the stack of
  executing nodes needs.

  A statement of the detector takes the state of the detector and either returns the new
  state (\<open>Inr\<close>) or stops the program (\<open>Inl\<close>). The ways to stop are the constructors of
  \<open>fault\<close>: a failed \<open>assert\<close>, behaviour that C++ leaves undefined (\<open>back()\<close> or
  \<open>pop_back()\<close> on an empty vector, an index past a fixed array), an exception thrown by
  \<open>at()\<close>, a call of \<open>exit(1)\<close>, and a loop that never ends.
\<close>

named_theorems keeps_callbacks "what a callback needs to keep graph and stacks well formed"

datatype fault =
    Assertion_failed
  | Undefined_behaviour
  | Out_of_range
  | Exit_failure
  | Never_returns

type_synonym 'a result = "fault + 'a"

section \<open>Sequencing\<close>

definition and_then :: "'a result \<Rightarrow> ('a \<Rightarrow> 'b result) \<Rightarrow> 'b result" where
  "and_then m f = (case m of Inl e \<Rightarrow> Inl e | Inr x \<Rightarrow> f x)"

lemma and_then_Inl [simp]: "and_then (Inl e) f = Inl e"
  by (simp add: and_then_def)

lemma and_then_Inr [simp]: "and_then (Inr x) f = f x"
  by (simp add: and_then_def)

lemma and_then_eq_Inr: "and_then m f = Inr y \<longleftrightarrow> (\<exists>x. m = Inr x \<and> f x = Inr y)"
  by (cases m) auto

lemma and_then_InrE [elim!]:
  assumes "and_then m f = Inr y"
  obtains x where "m = Inr x" and "f x = Inr y"
  using assms by (auto simp: and_then_eq_Inr)

lemma and_then_assoc: "and_then (and_then m f) g = and_then m (\<lambda>x. and_then (f x) g)"
  by (cases m) simp_all

text \<open>Evaluating a concrete run: the continuation is left alone until the statement before it
  has been evaluated.\<close>

lemma and_then_weak_cong: "m = m' \<Longrightarrow> and_then m f = and_then m' f"
  by simp

lemma and_then_cong [fundef_cong]:
  assumes "m = m'" and "\<And>x. m' = Inr x \<Longrightarrow> f x = f' x"
  shows "and_then m f = and_then m' f'"
  using assms by (cases m') auto

text \<open>A block of statements that only change the state, run from the first to the last.\<close>

fun block :: "('s \<Rightarrow> 's result) list \<Rightarrow> 's \<Rightarrow> 's result" where
  "block [] s = Inr s"
| "block (st # sts) s = and_then (st s) (block sts)"

lemma block_append: "block (xs @ ys) s = and_then (block xs s) (block ys)"
  by (induction xs arbitrary: s) (auto simp: and_then_def split: sum.splits)

text \<open>Partial correctness of a statement, and its rules for a block.\<close>

definition triple :: "('s \<Rightarrow> bool) \<Rightarrow> ('s \<Rightarrow> 's result) \<Rightarrow> ('s \<Rightarrow> bool) \<Rightarrow> bool" where
  "triple P f Q \<longleftrightarrow> (\<forall>s s'. P s \<longrightarrow> f s = Inr s' \<longrightarrow> Q s')"

lemma tripleI: "(\<And>s s'. P s \<Longrightarrow> f s = Inr s' \<Longrightarrow> Q s') \<Longrightarrow> triple P f Q"
  by (simp add: triple_def)

lemma tripleD: "triple P f Q \<Longrightarrow> P s \<Longrightarrow> f s = Inr s' \<Longrightarrow> Q s'"
  by (simp add: triple_def)

lemma triple_conseq:
  "triple P f Q \<Longrightarrow> (\<And>s. P' s \<Longrightarrow> P s) \<Longrightarrow> (\<And>s. Q s \<Longrightarrow> Q' s) \<Longrightarrow> triple P' f Q'"
  by (auto simp: triple_def)

lemma triple_pre: "triple P f Q \<Longrightarrow> (\<And>s. P' s \<Longrightarrow> P s) \<Longrightarrow> triple P' f Q"
  by (auto simp: triple_def)

lemma triple_block_Nil: "triple P (block []) P"
  by (simp add: triple_def)

lemma triple_block_Cons:
  "triple P f Q \<Longrightarrow> triple Q (block fs) R \<Longrightarrow> triple P (block (f # fs)) R"
  by (auto simp: triple_def)

lemma triple_block_single: "triple P f Q \<Longrightarrow> triple P (block [f]) Q"
  by (auto simp: triple_def)

lemma triple_block_append:
  "triple P (block fs) Q \<Longrightarrow> triple Q (block gs) R \<Longrightarrow> triple P (block (fs @ gs)) R"
  by (auto simp: triple_def block_append)

lemma triple_and_then:
  "f s = Inr t \<Longrightarrow> triple P f Q \<Longrightarrow> P s \<Longrightarrow> Q t"
  by (auto simp: triple_def)

text \<open>A range-based \<open>for\<close> whose body may stop the program.\<close>

fun for_each :: "('x \<Rightarrow> 's \<Rightarrow> 's result) \<Rightarrow> 'x list \<Rightarrow> 's \<Rightarrow> 's result" where
  "for_each body [] s = Inr s"
| "for_each body (x # xs) s = and_then (body x s) (for_each body xs)"

lemma for_each_invariant:
  assumes "for_each body xs s = Inr s'" and "P s"
    and "\<And>x t t'. x \<in> set xs \<Longrightarrow> P t \<Longrightarrow> body x t = Inr t' \<Longrightarrow> P t'"
  shows "P s'"
  using assms
proof (induction xs arbitrary: s)
  case Nil
  then show ?case by simp
next
  case (Cons x xs)
  from Cons.prems(1) obtain t where t: "body x s = Inr t" "for_each body xs t = Inr s'"
    by auto
  have "P t" using Cons.prems(2,3) t(1) by (meson list.set_intros(1))
  then show ?case using Cons.IH [OF t(2)] Cons.prems(3) by (meson list.set_intros(2))
qed

text \<open>
  The result of a loop that is modelled by \<open>partial_function (option)\<close>: \<open>None\<close> is a loop
  that never ends.
\<close>

definition returned :: "'a option \<Rightarrow> 'a result" where
  "returned v = (case v of None \<Rightarrow> Inl Never_returns | Some x \<Rightarrow> Inr x)"

lemma returned_simps [simp]:
  "returned None = Inl Never_returns" "returned (Some x) = Inr x"
  by (simp_all add: returned_def)

lemma returned_eq_Inr [simp]: "returned v = Inr x \<longleftrightarrow> v = Some x"
  by (cases v) auto

section \<open>Vectors used as stacks\<close>

text \<open>\<open>nth_top xs k\<close> is the entry \<open>k\<close> places below the back of the vector \<open>xs\<close>.\<close>

definition nth_top :: "'a list \<Rightarrow> nat \<Rightarrow> 'a" where
  "nth_top xs k = xs ! (length xs - Suc k)"

lemma nth_top_snoc_0 [simp]: "nth_top (xs @ [x]) 0 = x"
  by (simp add: nth_top_def)

lemma nth_top_snoc_Suc [simp]: "k < length xs \<Longrightarrow> nth_top (xs @ [x]) (Suc k) = nth_top xs k"
  by (auto simp: nth_top_def nth_append)

lemma last_nth_top: "xs \<noteq> [] \<Longrightarrow> last xs = nth_top xs 0"
  by (simp add: nth_top_def last_conv_nth)

lemma nth_top_butlast [simp]:
  "Suc k < length xs \<Longrightarrow> nth_top (butlast xs) k = nth_top xs (Suc k)"
  by (simp add: nth_top_def nth_butlast)

lemma set_butlast_subset: "x \<in> set (butlast xs) \<Longrightarrow> x \<in> set xs"
  by (rule in_set_butlastD)

lemma successively_butlast: "successively P xs \<Longrightarrow> successively P (butlast xs)"
  by (cases xs rule: rev_cases) (auto simp: successively_append_iff)

lemma successively_snoc:
  "successively P (xs @ [x]) \<longleftrightarrow> successively P xs \<and> (xs \<noteq> [] \<longrightarrow> P (last xs) x)"
  by (auto simp: successively_append_iff)

lemma successively_last_two:
  assumes "successively P xs" and "butlast xs \<noteq> []"
  shows "P (last (butlast xs)) (last xs)"
  using assms by (cases xs rule: rev_cases) (auto simp: successively_append_iff)

end
