(* ===== verification/Ospg.thy ===== *)
theory Ospg
  imports Prelude
begin

text \<open>
  The OpenMP series-parallel graph (OSPG): the array of nodes of \<open>openmp_dpst.h\<close>, the part
  of the class \<open>OpenmpRaceDetector\<close> that the OMPT callbacks change, and the primitive
  operations that the callbacks are made of (node creation, the stack of executing nodes of
  a thread, the link of a new node to its parent).

  Node indices (\<open>GraphType\<close>, 32 bits) and the counters in a node are natural numbers: the
  assertion in \<open>m_create_node\<close> keeps every index below \<open>2 ^ 27\<close>, and the invariant of
  theory \<open>Graph_Invariant\<close> keeps the depths and child counts below it too, so that no 32-bit
  counter wraps. The array is a total function: the code maps it with \<open>mmap\<close>, which gives
  zeroed nodes.
\<close>

section \<open>Nodes\<close>

datatype NodeType = NO_TYPE | PARALLEL | SERIES | WORK

record Node =
  m_type :: NodeType
  m_parent :: nat
  m_depth :: nat
  m_seqnum :: nat
  m_numchildren :: nat
  m_young_ns_child :: NodeType
  m_task_id :: nat
  st_val :: int
  m_finish_flag :: bool
  dependencies :: "(nat \<rightharpoonup> nat) option"

definition zero_node :: Node where
  "zero_node = \<lparr>m_type = NO_TYPE, m_parent = 0, m_depth = 0, m_seqnum = 0, m_numchildren = 0,
     m_young_ns_child = NO_TYPE, m_task_id = 0, st_val = 0, m_finish_flag = False,
     dependencies = None\<rparr>"

text \<open>\<open>ompt_dependence_type_t\<close>, with the values of \<open>omp-tools.h\<close> quoted in
  \<open>TaskDependency.h\<close>, and a recorded dependence.\<close>

datatype dependence_type =
    dep_in | dep_out | dep_inout | dep_mutexinoutset | dep_source | dep_sink

fun dependence_code :: "dependence_type \<Rightarrow> nat" where
  "dependence_code dep_in = 1"
| "dependence_code dep_out = 2"
| "dependence_code dep_inout = 3"
| "dependence_code dep_mutexinoutset = 4"
| "dependence_code dep_source = 5"
| "dependence_code dep_sink = 6"

record TaskDependence =
  addr :: nat
  dep_type :: dependence_type

section \<open>Violations\<close>

record violation =
  m_task1 :: nat
  m_task2 :: nat
  m_addr :: "64 word"
  m_access1 :: bool
  m_access2 :: bool
  valid :: bool
  loc :: string

definition no_violation :: violation where
  "no_violation = \<lparr>m_task1 = 0, m_task2 = 0, m_addr = 0, m_access1 = False, m_access2 = False,
     valid = False, loc = ''N/A''\<rparr>"

definition OMP_RACER_MAX_VIOLATIONS :: int where
  "OMP_RACER_MAX_VIOLATIONS = 10"

section \<open>The detector\<close>

definition NUM_THREADS :: nat where
  "NUM_THREADS = 16"

definition OMP_RACER_NUM_GRAPH_NODES :: nat where
  "OMP_RACER_NUM_GRAPH_NODES = 134217728"

text \<open>
  The two directories \<open>omprace_precise\<close> and \<open>omprace_fast\<close> build the same class in two
  modes. The graph callbacks are the same text but for \<open>m_create_node\<close>,
  \<open>m_cleanup_finish_node\<close> and \<open>m_capture_taskwait_end\<close>; the field \<open>mode\<close> says which
  build runs, and \<open>nested_check\<close> is the macro \<open>__OMP_RACER_NESTED\<close> of the precise build.
\<close>

datatype mode = Precise | Fast

record detector =
  mode :: mode
  nested_check :: bool
  omprace_in_parallel :: bool
  m_tgraph_nodes :: "nat \<Rightarrow> Node"
  m_last_allocated_node :: nat
  m_last_nodes :: "nat \<Rightarrow> nat list"
  m_par_finish_index :: "nat list"
  m_task_map :: "nat \<rightharpoonup> nat"
  m_task_dependencies :: "nat \<rightharpoonup> TaskDependence list"
  m_num_threads :: nat
  m_impl_end_count :: nat
  m_barrier_count :: "nat \<Rightarrow> nat"
  m_pending_finish :: "nat list"
  m_first_dispatch :: "nat \<Rightarrow> nat"
  taskwaits_nested :: bool
  m_violations :: "nat \<Rightarrow> violation"
  m_violations_count :: "32 word"

text \<open>The constructor: the tables are empty, the next free node is 1, and the implicit tasks
  of a region that never ran count as ended.\<close>

definition OpenmpRaceDetector :: "mode \<Rightarrow> bool \<Rightarrow> detector" where
  "OpenmpRaceDetector md nc =
     (let num_procs = NUM_THREADS in
      \<lparr>mode = md, nested_check = nc, omprace_in_parallel = False,
       m_tgraph_nodes = (\<lambda>_. zero_node), m_last_allocated_node = 1,
       m_last_nodes = (\<lambda>_. []), m_par_finish_index = [], m_task_map = Map.empty,
       m_task_dependencies = Map.empty, m_num_threads = num_procs,
       m_impl_end_count = num_procs, m_barrier_count = (\<lambda>_. 0), m_pending_finish = [],
       m_first_dispatch = (\<lambda>_. 0), taskwaits_nested = True,
       m_violations = (\<lambda>_. no_violation), m_violations_count = 0\<rparr>)"

section \<open>The stack of a thread\<close>

text \<open>\<open>m_last_nodes[tid]\<close> with \<open>back()\<close>, \<open>pop_back()\<close> and \<open>push_back()\<close>.\<close>

definition stack_back :: "nat \<Rightarrow> 'a detector_scheme \<Rightarrow> nat result" where
  "stack_back tid s =
     (if tid < NUM_THREADS \<and> m_last_nodes s tid \<noteq> [] then Inr (last (m_last_nodes s tid))
      else Inl Undefined_behaviour)"

definition pop_back :: "nat \<Rightarrow> 'a detector_scheme \<Rightarrow> 'a detector_scheme result" where
  "pop_back tid s =
     (if tid < NUM_THREADS \<and> m_last_nodes s tid \<noteq> []
      then Inr (s\<lparr>m_last_nodes := (m_last_nodes s)(tid := butlast (m_last_nodes s tid))\<rparr>)
      else Inl Undefined_behaviour)"

definition push_back :: "nat \<Rightarrow> nat \<Rightarrow> 'a detector_scheme \<Rightarrow> 'a detector_scheme result" where
  "push_back x tid s =
     (if tid < NUM_THREADS
      then Inr (s\<lparr>m_last_nodes := (m_last_nodes s)(tid := m_last_nodes s tid @ [x])\<rparr>)
      else Inl Undefined_behaviour)"

section \<open>Nodes and their parents\<close>

definition update_node ::
  "nat \<Rightarrow> (Node \<Rightarrow> Node) \<Rightarrow> 'a detector_scheme \<Rightarrow> 'a detector_scheme" where
  "update_node i f s = s\<lparr>m_tgraph_nodes := (m_tgraph_nodes s)(i := f (m_tgraph_nodes s i))\<rparr>"

text \<open>The fields \<open>m_create_node\<close> writes in the precise and in the fast build.\<close>

definition init_node_precise :: "NodeType \<Rightarrow> Node \<Rightarrow> Node" where
  "init_node_precise node_type nd =
     nd\<lparr>m_type := node_type, m_young_ns_child := NO_TYPE, m_finish_flag := False,
        m_numchildren := 0, st_val := (if node_type = PARALLEL then 1 else 0)\<rparr>"

definition init_node_fast :: "NodeType \<Rightarrow> Node \<Rightarrow> Node" where
  "init_node_fast node_type nd =
     nd\<lparr>m_type := node_type, m_young_ns_child := NO_TYPE, m_finish_flag := False,
        m_numchildren := 0\<rparr>"

definition m_create_node ::
  "NodeType \<Rightarrow> nat \<Rightarrow> 'a detector_scheme \<Rightarrow> (nat \<times> 'a detector_scheme) result" where
  "m_create_node node_type tid s =
     (let index = m_last_allocated_node s;
          s = s\<lparr>m_last_allocated_node := Suc index\<rparr>
      in if m_last_allocated_node s < OMP_RACER_NUM_GRAPH_NODES
         then Inr (index, update_node index
                (case mode s of Precise \<Rightarrow> init_node_precise node_type
                              | Fast \<Rightarrow> init_node_fast node_type) s)
         else Inl Assertion_failed)"

definition m_set_nodeparent_info ::
  "nat \<Rightarrow> nat \<Rightarrow> 'a detector_scheme \<Rightarrow> 'a detector_scheme result" where
  "m_set_nodeparent_info node_index tid s =
     and_then (stack_back tid s) (\<lambda>parent.
       let s = update_node node_index (\<lambda>nd. nd\<lparr>m_parent := parent\<rparr>) s;
           s = update_node node_index
                 (\<lambda>nd. nd\<lparr>m_seqnum := m_numchildren (m_tgraph_nodes s parent)\<rparr>) s;
           s = update_node node_index
                 (\<lambda>nd. nd\<lparr>m_depth := m_depth (m_tgraph_nodes s parent) + 1\<rparr>) s
       in Inr (update_node parent (\<lambda>nd. nd\<lparr>m_numchildren := m_numchildren nd + 1\<rparr>) s))"

text \<open>The three lines every callback repeats: create a node, link it under the back of the
  thread's stack, push it.\<close>

definition new_child ::
  "NodeType \<Rightarrow> nat \<Rightarrow> 'a detector_scheme \<Rightarrow> (nat \<times> 'a detector_scheme) result" where
  "new_child node_type tid s =
     and_then (m_create_node node_type tid s) (\<lambda>(index, s).
     and_then (m_set_nodeparent_info index tid s) (\<lambda>s. Inr (index, s)))"

definition push_new_node ::
  "NodeType \<Rightarrow> nat \<Rightarrow> 'a detector_scheme \<Rightarrow> 'a detector_scheme result" where
  "push_new_node node_type tid s =
     and_then (new_child node_type tid s) (\<lambda>(index, s). push_back index tid s)"

definition m_pop_step_node :: "nat \<Rightarrow> 'a detector_scheme \<Rightarrow> 'a detector_scheme result" where
  "m_pop_step_node tid s = and_then (stack_back tid s) (\<lambda>step_index. pop_back tid s)"

definition m_add_step_node :: "nat \<Rightarrow> 'a detector_scheme \<Rightarrow> 'a detector_scheme result" where
  "m_add_step_node tid s =
     and_then (m_create_node WORK tid s) (\<lambda>(step_index, s).
     and_then (m_set_nodeparent_info step_index tid s) (\<lambda>s. push_back step_index tid s))"

lemma m_add_step_node_eq: "m_add_step_node tid s = push_new_node WORK tid s"
  by (auto simp: m_add_step_node_def push_new_node_def new_child_def and_then_def
      split: sum.splits)

definition m_cleanup_finish_node :: "nat \<Rightarrow> 'a detector_scheme \<Rightarrow> 'a detector_scheme result" where
  "m_cleanup_finish_node tid s =
     and_then (stack_back tid s) (\<lambda>leaf_node_index.
       if m_finish_flag (m_tgraph_nodes s leaf_node_index)
       then pop_back tid
              (if mode s = Precise \<and> nested_check s \<and>
                  st_val (m_tgraph_nodes s leaf_node_index) \<noteq> -1
               then s\<lparr>taskwaits_nested := False\<rparr> else s)
       else Inr s)"

definition m_get_curr_step :: "nat \<Rightarrow> 'a detector_scheme \<Rightarrow> nat result" where
  "m_get_curr_step omp_thread_num s = stack_back omp_thread_num s"

end
