(* ===== verification/Capture.thy ===== *)
theory Capture
  imports Ospg
begin

text \<open>
  The graph callbacks of \<open>OpenmpRaceDetector\<close>: one definition per \<open>m_capture_*\<close> member of
  \<open>openmp_dpst.cpp\<close>, in the order of the file. Each is one atomic step. Parameters the code
  only logs (parallel ids, source locations, the function pointer of a task) are dropped.
\<close>

section \<open>Start, threads and parallel regions\<close>

definition m_init_racer :: "nat \<Rightarrow> 'a detector_scheme \<Rightarrow> 'a detector_scheme result" where
  "m_init_racer serial_thread_id s =
     and_then (m_create_node SERIES serial_thread_id s) (\<lambda>(index, s).
       block [push_back index serial_thread_id, m_add_step_node serial_thread_id]
         (update_node index (\<lambda>nd. nd\<lparr>m_seqnum := 0, m_parent := 0, m_depth := 0\<rparr>) s))"

definition m_capture_thread_begin :: "nat \<Rightarrow> 'a detector_scheme \<Rightarrow> 'a detector_scheme result" where
  "m_capture_thread_begin tid s = Inr s"

definition m_capture_thread_end :: "nat \<Rightarrow> 'a detector_scheme \<Rightarrow> 'a detector_scheme result" where
  "m_capture_thread_end tid s = Inr s"

text \<open>\<open>num_procs\<close> is what \<open>omp_get_num_procs\<close> of the OpenMP runtime returns.\<close>

definition m_capture_parallel_begin ::
  "nat \<Rightarrow> nat \<Rightarrow> nat \<Rightarrow> 'a detector_scheme \<Rightarrow> 'a detector_scheme result" where
  "m_capture_parallel_begin num_procs tid requested_team_size s =
     and_then (m_pop_step_node tid s) (\<lambda>s.
     let s = s\<lparr>m_num_threads :=
                 (if requested_team_size > 0 then requested_team_size else num_procs)\<rparr> in
     and_then (new_child SERIES tid s) (\<lambda>(finish_index, s).
     and_then (push_back finish_index tid s) (\<lambda>s.
     and_then (new_child SERIES tid s) (\<lambda>(new_finish, s).
     and_then (push_back new_finish tid s) (\<lambda>s.
       Inr (s\<lparr>m_par_finish_index := [finish_index, new_finish],
              omprace_in_parallel := True\<rparr>))))))"

definition m_capture_parallel_end :: "nat \<Rightarrow> 'a detector_scheme \<Rightarrow> 'a detector_scheme result" where
  "m_capture_parallel_end tid s =
     and_then (block [pop_back tid, m_add_step_node tid] s)
       (\<lambda>s. Inr (s\<lparr>omprace_in_parallel := False\<rparr>))"

section \<open>Work sharing\<close>

definition m_capture_master_begin :: "nat \<Rightarrow> 'a detector_scheme \<Rightarrow> 'a detector_scheme result" where
  "m_capture_master_begin tid = block [m_pop_step_node tid, m_add_step_node tid]"

definition m_capture_master_end :: "nat \<Rightarrow> 'a detector_scheme \<Rightarrow> 'a detector_scheme result" where
  "m_capture_master_end tid = block [m_pop_step_node tid, m_add_step_node tid]"

text \<open>The bodies of the two \<open>single\<close> callbacks are commented out.\<close>

definition m_capture_single_begin :: "nat \<Rightarrow> 'a detector_scheme \<Rightarrow> 'a detector_scheme result" where
  "m_capture_single_begin tid s = Inr s"

definition m_capture_single_end :: "nat \<Rightarrow> 'a detector_scheme \<Rightarrow> 'a detector_scheme result" where
  "m_capture_single_end tid s = Inr s"

definition set_first_dispatch ::
  "nat \<Rightarrow> nat \<Rightarrow> 'a detector_scheme \<Rightarrow> 'a detector_scheme result" where
  "set_first_dispatch v tid s =
     (if tid < NUM_THREADS
      then Inr (s\<lparr>m_first_dispatch := (m_first_dispatch s)(tid := v)\<rparr>)
      else Inl Undefined_behaviour)"

definition m_capture_loop_begin :: "nat \<Rightarrow> 'a detector_scheme \<Rightarrow> 'a detector_scheme result" where
  "m_capture_loop_begin tid s = set_first_dispatch 1 tid s"

definition m_capture_loop_end :: "nat \<Rightarrow> 'a detector_scheme \<Rightarrow> 'a detector_scheme result" where
  "m_capture_loop_end tid s =
     (if tid \<ge> NUM_THREADS then Inl Undefined_behaviour
      else if m_first_dispatch s tid = 1 then Inr s
      else block [m_pop_step_node tid, pop_back tid, m_add_step_node tid] s)"

definition m_capture_loop_chunk :: "nat \<Rightarrow> 'a detector_scheme \<Rightarrow> 'a detector_scheme result" where
  "m_capture_loop_chunk tid s =
     (if tid \<ge> NUM_THREADS then Inl Undefined_behaviour
      else and_then
        (if m_first_dispatch s tid = 1
         then block [set_first_dispatch 0 tid, m_pop_step_node tid] s
         else block [m_pop_step_node tid, pop_back tid] s)
        (block [push_new_node PARALLEL tid, m_add_step_node tid]))"

definition m_capture_section_begin :: "nat \<Rightarrow> 'a detector_scheme \<Rightarrow> 'a detector_scheme result" where
  "m_capture_section_begin tid =
     block [m_pop_step_node tid, push_new_node PARALLEL tid, m_add_step_node tid]"

definition m_capture_section_end :: "nat \<Rightarrow> 'a detector_scheme \<Rightarrow> 'a detector_scheme result" where
  "m_capture_section_end tid = block [m_pop_step_node tid, pop_back tid, m_add_step_node tid]"

section \<open>Explicit tasks\<close>

text \<open>
  \<open>insert\<close> of an \<open>unordered_map\<close> keeps the entry that is there. \<open>m_task_map[task_id]\<close>
  inserts 0 for a key that is missing. The node is copied into the local \<open>async_node\<close>, so
  the assignment to its field \<open>dependencies\<close> does not reach the array.
\<close>

fun dependence_map :: "TaskDependence list \<Rightarrow> (nat \<rightharpoonup> nat) \<Rightarrow> (nat \<rightharpoonup> nat)" where
  "dependence_map [] m = m"
| "dependence_map (d # ds) m =
     dependence_map ds
       (if m (addr d) = None then m(addr d \<mapsto> dependence_code (dep_type d)) else m)"

definition m_capture_task_dependences ::
  "nat \<Rightarrow> nat \<Rightarrow> TaskDependence list \<Rightarrow> 'a detector_scheme \<Rightarrow> 'a detector_scheme result" where
  "m_capture_task_dependences tid task_id deps s =
     (let new_map = dependence_map deps Map.empty;
          dependence_v = map (\<lambda>d. \<lparr>addr = addr d, dep_type = dep_type d\<rparr>) deps;
          s = (if m_task_map s task_id = None
               then s\<lparr>m_task_map := (m_task_map s)(task_id \<mapsto> 0)\<rparr> else s);
          async_node_index = the (m_task_map s task_id);
          async_node = m_tgraph_nodes s async_node_index
      in if dependencies async_node = None
         then let async_node = async_node\<lparr>dependencies := Some new_map\<rparr>
              in Inr (if m_task_dependencies s task_id = None
                      then s\<lparr>m_task_dependencies :=
                               (m_task_dependencies s)(task_id \<mapsto> dependence_v)\<rparr>
                      else s)
         else Inl Assertion_failed)"

definition m_capture_task_begin ::
  "nat \<Rightarrow> nat \<Rightarrow> 'a detector_scheme \<Rightarrow> 'a detector_scheme result" where
  "m_capture_task_begin tid new_task_id s =
     (let async_node_index = (case m_task_map s new_task_id of None \<Rightarrow> 0 | Some i \<Rightarrow> i);
          s = s\<lparr>m_task_map := (m_task_map s)(new_task_id := None)\<rparr>
      in block [push_back async_node_index tid, m_add_step_node tid] s)"

definition m_capture_task_end :: "nat \<Rightarrow> 'a detector_scheme \<Rightarrow> 'a detector_scheme result" where
  "m_capture_task_end tid = block [m_pop_step_node tid, m_cleanup_finish_node tid, pop_back tid]"

section \<open>Implicit tasks and barriers\<close>

text \<open>
  Thread 0 spins until the implicit tasks of the previous region have ended: while they have
  not, the callback does not return. The other threads push the two finish nodes of the
  region; \<open>at\<close> throws when they are not there.
\<close>

definition at :: "'b list \<Rightarrow> nat \<Rightarrow> 'b result" where
  "at xs i = (if i < length xs then Inr (xs ! i) else Inl Out_of_range)"

definition m_capture_implicit_task_begin ::
  "nat \<Rightarrow> 'a detector_scheme \<Rightarrow> 'a detector_scheme result" where
  "m_capture_implicit_task_begin tid s =
     and_then
       (if tid = 0
        then (if m_impl_end_count s < m_num_threads s then Inl Never_returns
              else Inr (s\<lparr>m_impl_end_count := 0\<rparr>))
        else and_then (at (m_par_finish_index s) 0) (\<lambda>grand_parent_index.
             and_then (push_back grand_parent_index tid s) (\<lambda>s.
             and_then (at (m_par_finish_index s) 1) (\<lambda>parent_index.
               push_back parent_index tid s))))
       (block [push_new_node PARALLEL tid, m_add_step_node tid])"

definition m_capture_implicit_task_end ::
  "nat \<Rightarrow> 'a detector_scheme \<Rightarrow> 'a detector_scheme result" where
  "m_capture_implicit_task_end tid s =
     and_then
       (block ([m_pop_step_node tid, pop_back tid, pop_back tid] @
               (if tid \<noteq> 0 then [pop_back tid] else [])) s)
       (\<lambda>s. Inr (s\<lparr>m_impl_end_count := m_impl_end_count s + 1\<rparr>))"

text \<open>The largest barrier count of the other threads of the team.\<close>

definition max_barrier_count :: "nat \<Rightarrow> 'a detector_scheme \<Rightarrow> nat" where
  "max_barrier_count tid s =
     fold (\<lambda>i max_count.
             if i = tid then max_count
             else if m_barrier_count s i > max_count then m_barrier_count s i
             else max_count)
       [0..<m_num_threads s] 0"

text \<open>The first thread of the team at this barrier makes the finish node of the next phase, the
  others find it.\<close>

definition barrier_finish_node ::
  "nat \<Rightarrow> 'a detector_scheme \<Rightarrow> 'a detector_scheme result" where
  "barrier_finish_node tid s =
     (if m_barrier_count s tid > max_barrier_count tid s
      then and_then (new_child SERIES tid s) (\<lambda>(finish_index, s).
           and_then (push_back finish_index tid s) (\<lambda>s.
             Inr (s\<lparr>m_pending_finish := m_pending_finish s @ [finish_index]\<rparr>)))
      else and_then (at (m_pending_finish s) (m_barrier_count s tid - 1)) (\<lambda>pend_fini_node.
             push_back pend_fini_node tid s))"

definition m_capture_barrier_begin ::
  "nat \<Rightarrow> 'a detector_scheme \<Rightarrow> 'a detector_scheme result" where
  "m_capture_barrier_begin tid s =
     and_then (block [m_pop_step_node tid, m_cleanup_finish_node tid, pop_back tid, pop_back tid] s)
       (\<lambda>s. if m_num_threads s > NUM_THREADS then Inl Undefined_behaviour
            else block [barrier_finish_node tid, push_new_node PARALLEL tid]
                   (s\<lparr>m_barrier_count := (m_barrier_count s)(tid := m_barrier_count s tid + 1)\<rparr>))"

definition m_capture_barrier_end :: "nat \<Rightarrow> 'a detector_scheme \<Rightarrow> 'a detector_scheme result" where
  "m_capture_barrier_end tid = m_add_step_node tid"

section \<open>Task waits, task creation and task groups\<close>

definition m_capture_taskwait_begin ::
  "nat \<Rightarrow> 'a detector_scheme \<Rightarrow> 'a detector_scheme result" where
  "m_capture_taskwait_begin tid = m_pop_step_node tid"

definition m_capture_taskwait_end_precise ::
  "nat \<Rightarrow> 'a detector_scheme \<Rightarrow> 'a detector_scheme result" where
  "m_capture_taskwait_end_precise tid s =
     and_then (stack_back tid s) (\<lambda>top.
       and_then
         (if m_finish_flag (m_tgraph_nodes s top)
          then m_cleanup_finish_node tid (update_node top (\<lambda>nd. nd\<lparr>st_val := -1\<rparr>) s)
          else Inr s)
         (m_add_step_node tid))"

definition m_capture_taskwait_end_fast ::
  "nat \<Rightarrow> 'a detector_scheme \<Rightarrow> 'a detector_scheme result" where
  "m_capture_taskwait_end_fast tid = block [m_cleanup_finish_node tid, m_add_step_node tid]"

definition m_capture_taskwait_end ::
  "nat \<Rightarrow> 'a detector_scheme \<Rightarrow> 'a detector_scheme result" where
  "m_capture_taskwait_end tid s =
     (case mode s of Precise \<Rightarrow> m_capture_taskwait_end_precise tid s
                   | Fast \<Rightarrow> m_capture_taskwait_end_fast tid s)"

definition set_task_id :: "bool \<Rightarrow> nat \<Rightarrow> nat \<Rightarrow> 'a detector_scheme \<Rightarrow> 'a detector_scheme" where
  "set_task_id has_dependences new_task_id i s =
     (if has_dependences then update_node i (\<lambda>nd. nd\<lparr>m_task_id := new_task_id\<rparr>) s else s)"

definition m_capture_task_alloc ::
  "nat \<Rightarrow> nat \<Rightarrow> bool \<Rightarrow> 'a detector_scheme \<Rightarrow> 'a detector_scheme result" where
  "m_capture_task_alloc tid new_task_id has_dependences s =
     and_then (m_pop_step_node tid s) (\<lambda>s.
     and_then (stack_back tid s) (\<lambda>top.
     and_then
       (if m_young_ns_child (m_tgraph_nodes s top) = PARALLEL
        then and_then (m_create_node PARALLEL tid s) (\<lambda>(async_index, s).
             and_then (m_set_nodeparent_info async_index tid s) (\<lambda>s.
             let s = set_task_id has_dependences new_task_id async_index s in
               Inr (s\<lparr>m_task_map := (m_task_map s)(new_task_id \<mapsto> async_index)\<rparr>)))
        else and_then (m_create_node SERIES tid s) (\<lambda>(new_finish, s).
             and_then (m_set_nodeparent_info new_finish tid s) (\<lambda>s.
             let s = update_node new_finish
                       (\<lambda>nd. nd\<lparr>m_young_ns_child := PARALLEL, m_finish_flag := True\<rparr>) s in
             and_then (push_back new_finish tid s) (\<lambda>s.
             and_then (m_create_node PARALLEL tid s) (\<lambda>(new_async, s).
             let s = set_task_id has_dependences new_task_id new_async s in
             and_then (m_set_nodeparent_info new_async tid s) (\<lambda>s.
               Inr (s\<lparr>m_task_map := (m_task_map s)(new_task_id \<mapsto> new_async)\<rparr>)))))))
       (m_add_step_node tid)))"

definition m_capture_taskgroup_begin ::
  "nat \<Rightarrow> 'a detector_scheme \<Rightarrow> 'a detector_scheme result" where
  "m_capture_taskgroup_begin tid =
     block [m_pop_step_node tid, m_cleanup_finish_node tid, push_new_node SERIES tid,
            m_add_step_node tid]"

definition m_capture_taskgroup_end ::
  "nat \<Rightarrow> 'a detector_scheme \<Rightarrow> 'a detector_scheme result" where
  "m_capture_taskgroup_end tid =
     block [m_pop_step_node tid, m_cleanup_finish_node tid,
            \<lambda>s. and_then (stack_back tid s) (\<lambda>logged. Inr s), pop_back tid, m_add_step_node tid]"

section \<open>Printing the graph\<close>

text \<open>
  \<open>m_print_dpst\<close>: the rows of the two CSV files and the nodes it complains about. A row of
  the first file is the index, the type and the parent, one of the second the index and the
  parent.
\<close>

definition allocated_nodes :: "'a detector_scheme \<Rightarrow> nat list" where
  "allocated_nodes s = [1..<m_last_allocated_node s]"

definition m_print_dpst ::
  "'a detector_scheme \<Rightarrow> (nat \<times> NodeType \<times> nat) list \<times> (nat \<times> nat) list \<times> nat list" where
  "m_print_dpst s =
     (let ty = (\<lambda>i. m_type (m_tgraph_nodes s i)); par = (\<lambda>i. m_parent (m_tgraph_nodes s i)) in
      (map (\<lambda>i. (i, ty i, par i))
         (filter (\<lambda>i. ty i = PARALLEL \<or> ty i = SERIES) (allocated_nodes s)),
       map (\<lambda>i. (i, par i)) (filter (\<lambda>i. ty i = WORK) (allocated_nodes s)),
       filter (\<lambda>i. ty i = NO_TYPE) (allocated_nodes s)))"

section \<open>Callbacks as events\<close>

text \<open>
  The calls the OMPT handlers make, as data, so that a run of the program is a list of them;
  \<open>procs\<close> in \<open>Parallel_begin\<close> is the result of \<open>omp_get_num_procs\<close> at that call.
\<close>

datatype callback =
    Thread_begin nat
  | Thread_end nat
  | Parallel_begin nat nat nat
  | Parallel_end nat
  | Master_begin nat
  | Master_end nat
  | Single_begin nat
  | Single_end nat
  | Loop_begin nat
  | Loop_end nat
  | Loop_chunk nat
  | Section_begin nat
  | Section_end nat
  | Task_dependences nat nat "TaskDependence list"
  | Task_begin nat nat
  | Task_end nat
  | Implicit_task_begin nat
  | Implicit_task_end nat
  | Barrier_begin nat
  | Barrier_end nat
  | Taskwait_begin nat
  | Taskwait_end nat
  | Task_alloc nat nat bool
  | Taskgroup_begin nat
  | Taskgroup_end nat

fun capture :: "callback \<Rightarrow> 'a detector_scheme \<Rightarrow> 'a detector_scheme result" where
  "capture (Thread_begin t) = m_capture_thread_begin t"
| "capture (Thread_end t) = m_capture_thread_end t"
| "capture (Parallel_begin procs t n) = m_capture_parallel_begin procs t n"
| "capture (Parallel_end t) = m_capture_parallel_end t"
| "capture (Master_begin t) = m_capture_master_begin t"
| "capture (Master_end t) = m_capture_master_end t"
| "capture (Single_begin t) = m_capture_single_begin t"
| "capture (Single_end t) = m_capture_single_end t"
| "capture (Loop_begin t) = m_capture_loop_begin t"
| "capture (Loop_end t) = m_capture_loop_end t"
| "capture (Loop_chunk t) = m_capture_loop_chunk t"
| "capture (Section_begin t) = m_capture_section_begin t"
| "capture (Section_end t) = m_capture_section_end t"
| "capture (Task_dependences t i ds) = m_capture_task_dependences t i ds"
| "capture (Task_begin t i) = m_capture_task_begin t i"
| "capture (Task_end t) = m_capture_task_end t"
| "capture (Implicit_task_begin t) = m_capture_implicit_task_begin t"
| "capture (Implicit_task_end t) = m_capture_implicit_task_end t"
| "capture (Barrier_begin t) = m_capture_barrier_begin t"
| "capture (Barrier_end t) = m_capture_barrier_end t"
| "capture (Taskwait_begin t) = m_capture_taskwait_begin t"
| "capture (Taskwait_end t) = m_capture_taskwait_end t"
| "capture (Task_alloc t i d) = m_capture_task_alloc t i d"
| "capture (Taskgroup_begin t) = m_capture_taskgroup_begin t"
| "capture (Taskgroup_end t) = m_capture_taskgroup_end t"

definition run_callbacks :: "callback list \<Rightarrow> 'a detector_scheme \<Rightarrow> 'a detector_scheme result" where
  "run_callbacks cs = block (map capture cs)"

end
