(* ===== verification/Violations.thy ===== *)
theory Violations
  imports Ospg
begin

text \<open>
  Recording and reporting races: \<open>m_add_violations\<close>, \<open>m_report_race\<close>,
  \<open>m_print_violations\<close> and \<open>m_fini_race_detector\<close>. The counter is an atomic 32-bit \<open>int\<close>,
  incremented at every race and compared as a signed number; the array has ten entries. A
  report is the data that the code writes to \<open>violations.out\<close>, in order.
\<close>

section \<open>Recording\<close>

definition m_add_violations ::
  "64 word \<Rightarrow> nat \<Rightarrow> bool \<Rightarrow> nat \<Rightarrow> bool \<Rightarrow> string \<Rightarrow> 'a detector_scheme \<Rightarrow>
     'a detector_scheme result" where
  "m_add_violations a node1 type1 node2 type2 location s =
     (let cur_violation = sint (m_violations_count s);
          s = s\<lparr>m_violations_count := m_violations_count s + 1\<rparr>
      in if cur_violation \<ge> OMP_RACER_MAX_VIOLATIONS then Inr s
         else if cur_violation < 0 then Inl Undefined_behaviour
         else let i = nat cur_violation;
                  v = (m_violations s i)\<lparr>m_addr := a, m_task1 := node1, m_task2 := node2,
                        m_access1 := type1, m_access2 := type2, valid := True\<rparr>;
                  v = (if location \<noteq> '''' then v\<lparr>loc := location\<rparr> else v)
              in Inr (s\<lparr>m_violations := (m_violations s)(i := v)\<rparr>))"

section \<open>Reporting\<close>

record race_report =
  at_addr :: "64 word"
  location :: string
  step1 :: nat
  kind1 :: string
  step2 :: nat
  kind2 :: string

definition access_name :: "bool \<Rightarrow> string" where
  "access_name is_write = (if is_write then '' Write'' else '' Read'')"

definition m_report_race :: "violation \<Rightarrow> race_report" where
  "m_report_race viol =
     \<lparr>at_addr = m_addr viol, location = loc viol, step1 = m_task1 viol,
      kind1 = access_name (m_access1 viol), step2 = m_task2 viol,
      kind2 = access_name (m_access2 viol)\<rparr>"

text \<open>The loop over the array stops at the first entry that is not valid.\<close>

fun report_loop :: "violation list \<Rightarrow> race_report list" where
  "report_loop [] = []"
| "report_loop (v # vs) = (if \<not> valid v then [] else m_report_race v # report_loop vs)"

lemma report_loop_valid: "r \<in> set (report_loop vs) \<Longrightarrow> \<exists>v \<in> set vs. valid v \<and> r = m_report_race v"
  by (induction vs) (auto split: if_split_asm)

text \<open>The reports, and the number printed at the end.\<close>

definition m_print_violations :: "'a detector_scheme \<Rightarrow> race_report list \<times> int" where
  "m_print_violations s =
     (report_loop (map (m_violations s) [0..<nat OMP_RACER_MAX_VIOLATIONS]),
      sint (m_violations_count s))"

definition m_fini_race_detector ::
  "'a detector_scheme \<Rightarrow> (race_report list \<times> int) \<times> string option" where
  "m_fini_race_detector s =
     (m_print_violations s,
      if mode s = Precise \<and> nested_check s
      then Some (if taskwaits_nested s then ''All taskwaits nested = True''
                 else ''All taskwaits nested = False'')
      else None)"

section \<open>The records of a sequence of races\<close>

text \<open>A race as its arguments, and the record of it.\<close>

type_synonym race = "64 word \<times> nat \<times> bool \<times> nat \<times> bool"

definition record_of :: "race \<Rightarrow> violation" where
  "record_of r = (case r of (a, n1, t1, n2, t2) \<Rightarrow>
     \<lparr>m_task1 = n1, m_task2 = n2, m_addr = a, m_access1 = t1, m_access2 = t2, valid = True,
      loc = ''N/A''\<rparr>)"

definition add_race :: "race \<Rightarrow> 'a detector_scheme \<Rightarrow> 'a detector_scheme result" where
  "add_race r = (case r of (a, n1, t1, n2, t2) \<Rightarrow> m_add_violations a n1 t1 n2 t2 '''')"

text \<open>The races \<open>rs\<close> are those recorded so far: the first ten are in the array.\<close>

definition records :: "race list \<Rightarrow> 'a detector_scheme \<Rightarrow> bool" where
  "records rs s \<longleftrightarrow>
     length rs < 2 ^ 31 \<and> m_violations_count s = of_nat (length rs) \<and>
     (\<forall>i < 10. m_violations s i = (if i < length rs then record_of (rs ! i) else no_violation))"

lemma records_sint: "records rs s \<Longrightarrow> sint (m_violations_count s) = int (length rs)"
  by (simp add: records_def signed_of_nat signed_take_bit_int_eq_self)

lemma records_init: "records [] (OpenmpRaceDetector md nc)"
  by (simp add: records_def OpenmpRaceDetector_def Let_def)

lemma records_cong:
  "m_violations s' = m_violations s \<Longrightarrow> m_violations_count s' = m_violations_count s \<Longrightarrow>
     records rs s' = records rs s"
  by (simp add: records_def)

lemma add_race_records:
  assumes "records rs s" and "length rs + 1 < 2 ^ 31"
  shows "\<exists>s'. add_race r s = Inr s' \<and> records (rs @ [r]) s' \<and>
    (\<exists>vs n. s' = s\<lparr>m_violations_count := n, m_violations := vs\<rparr>)"
proof -
  obtain a n1 t1 n2 t2 where r: "r = (a, n1, t1, n2, t2)" by (cases r) auto
  note c = records_sint [OF assms(1)]
  have v: "m_violations s i = (if i < length rs then record_of (rs ! i) else no_violation)"
    if "i < 10" for i using assms(1) that by (simp add: records_def)
  have n: "m_violations_count s + 1 = of_nat (length (rs @ [r]))"
    using assms(1) by (simp add: records_def)
  let ?n = "m_violations_count s + 1"
  show ?thesis
  proof (cases "length rs < 10")
    case False
    let ?s = "s\<lparr>m_violations_count := ?n, m_violations := m_violations s\<rparr>"
    have "add_race r s = Inr ?s"
      using False c by (simp add: add_race_def r m_add_violations_def OMP_RACER_MAX_VIOLATIONS_def)
    moreover have "records (rs @ [r]) ?s"
      using False v n assms(2) by (auto simp: records_def nth_append)
    ultimately show ?thesis by blast
  next
    case True
    let ?s = "s\<lparr>m_violations_count := ?n,
      m_violations := (m_violations s)(length rs := record_of r)\<rparr>"
    have "m_violations s (length rs) = no_violation" using v [of "length rs"] True by simp
    then have "add_race r s = Inr ?s"
      using True c by (simp add: add_race_def r m_add_violations_def OMP_RACER_MAX_VIOLATIONS_def
          record_of_def no_violation_def)
    moreover have "records (rs @ [r]) ?s"
      using v n assms(2) by (auto simp: records_def nth_append)
    ultimately show ?thesis by blast
  qed
qed

lemma add_races_records:
  "records xs s \<Longrightarrow> length (xs @ ys) < 2 ^ 31 \<Longrightarrow>
     \<exists>s'. block (map add_race ys) s = Inr s' \<and> records (xs @ ys) s'"
proof (induction ys arbitrary: xs s)
  case Nil
  then show ?case by simp
next
  case (Cons y ys)
  have "length xs + 1 < 2 ^ 31" using Cons.prems(2) by simp
  then obtain u where u: "add_race y s = Inr u" "records (xs @ [y]) u"
    using add_race_records [OF Cons.prems(1)] by blast
  show ?case using Cons.IH [OF u(2)] Cons.prems(2) u(1) by simp
qed

lemma report_loop_records:
  assumes "\<forall>i < n. xs ! i = (if i < k then record_of (rs ! i) else no_violation)"
    and "length xs = n" "k = length rs"
  shows "report_loop xs = map (m_report_race \<circ> record_of) (take n rs)"
  using assms
proof (induction xs arbitrary: n k rs)
  case Nil
  then show ?case by simp
next
  case (Cons x xs)
  have x: "x = (if 0 < k then record_of (rs ! 0) else no_violation)" using Cons.prems by force
  show ?case
  proof (cases rs)
    case Nil
    then show ?thesis using x Cons.prems by (simp add: no_violation_def)
  next
    case (Cons q qs)
    have "\<forall>i < length xs. xs ! i = (if i < length qs then record_of (qs ! i) else no_violation)"
      using Cons.prems(1,2,3) Cons by fastforce
    then have "report_loop xs = map (m_report_race \<circ> record_of) (take (length xs) qs)"
      using Cons.IH by blast
    moreover have "valid (record_of q)" by (cases q) (simp add: record_of_def)
    ultimately show ?thesis using x Cons Cons.prems(2,3) by auto
  qed
qed

lemma m_print_violations_records:
  assumes "records rs s"
  shows "m_print_violations s =
    (map (m_report_race \<circ> record_of) (take 10 rs), int (length rs))"
proof -
  have "report_loop (map (m_violations s) [0..<10]) = map (m_report_race \<circ> record_of) (take 10 rs)"
    by (rule report_loop_records [where k = "length rs"])
      (use assms in \<open>auto simp: records_def\<close>)
  then show ?thesis
    using records_sint [OF assms] by (simp add: m_print_violations_def OMP_RACER_MAX_VIOLATIONS_def)
qed

section \<open>Properties\<close>

text \<open>C25: After fewer than 2^31 races the detector prints how many there were, and its report is
  the first ten of them (all, when there were fewer), in the order they were found, with the
  address, the two steps and the two kinds of access they were recorded with.\<close>

theorem report_is_first_ten:
  assumes "length rs < 2 ^ 31"
  shows "\<exists>s. block (map add_race rs) (OpenmpRaceDetector md nc) = Inr s \<and>
    m_print_violations s = (map (m_report_race \<circ> record_of) (take 10 rs), int (length rs))"
proof -
  obtain s where "block (map add_race rs) (OpenmpRaceDetector md nc) = Inr s" "records rs s"
    using add_races_records [OF records_init, of rs] assms by auto
  then show ?thesis using m_print_violations_records by blast
qed

theorem report_is_first_ten_witness:
  "\<exists>s. block (map add_race (replicate 12 (64, 5, True, 4, False))) (OpenmpRaceDetector Fast False) = Inr s \<and>
    m_print_violations s =
      (map (m_report_race \<circ> record_of) (replicate 10 (64, 5, True, 4, False)), 12)"
  using report_is_first_ten [of "replicate 12 (64, 5, True, 4, False)" Fast False] by simp

text \<open>The counter is not stopped at ten: at race number 2^31 + 1 it has wrapped to the most
  negative number, which passes the test against ten and indexes before the array.\<close>

lemma violation_counter_overflows:
  "block (replicate (2 ^ 31 + 1) (add_race r)) (OpenmpRaceDetector md nc) = Inl Undefined_behaviour"
proof -
  let ?rs = "replicate (2 ^ 31 - 1) r"
  obtain s where s: "block (map add_race ?rs) (OpenmpRaceDetector md nc) = Inr s" "records ?rs s"
    using add_races_records [OF records_init, of ?rs] by auto
  have c: "m_violations_count s = 0x7fffffff" using s(2) by (simp add: records_def)
  then have "sint (m_violations_count s) = 2 ^ 31 - 1" by simp
  then have 1: "add_race r s = Inr (s\<lparr>m_violations_count := 0x80000000\<rparr>)"
    using c by (cases r) (simp add: add_race_def m_add_violations_def Let_def
        OMP_RACER_MAX_VIOLATIONS_def)
  have "sint (0x80000000 :: 32 word) = - (2 ^ 31)" by simp
  then have 2: "add_race r (s\<lparr>m_violations_count := 0x80000000\<rparr>) = Inl Undefined_behaviour"
    by (cases r) (simp add: add_race_def m_add_violations_def Let_def OMP_RACER_MAX_VIOLATIONS_def)
  have "(2 ^ 31 + 1 :: nat) = (2 ^ 31 - 1) + Suc (Suc 0)" by simp
  then have rep: "replicate (2 ^ 31 + 1) (add_race r :: detector \<Rightarrow> detector result) = map add_race ?rs @ [add_race r, add_race r]"
    by (simp only: replicate_add map_replicate) simp
  show ?thesis unfolding rep block_append using s(1) 1 2 by simp
qed

end
