(* ===== verification/Ompt_Tool.thy ===== *)
theory Ompt_Tool
  imports Capture Violations
begin

unbundle bit_operations_syntax

text \<open>
  The OMPT tool (\<open>ompt_handlers.cpp\<close>, the same code in both builds): the data it hangs on the
  threads, tasks and regions of the OpenMP runtime, its callbacks, and the entry points the
  instrumented program calls.

  The runtime is outside the model. A thread, task or region of it is a number, standing for its
  \<open>ompt_data_t\<close>; what a runtime query answers at a call (\<open>omp_get_thread_num\<close>, the parallel
  region, the memory of a task, the exit frame) is an argument of the handler that asks. A null
  pointer is \<open>None\<close>, and reading through one is the fault \<open>Undefined_behaviour\<close>. The detector
  is a parameter \<open>'d\<close>: \<open>clear\<close> and \<open>check\<close> are its \<open>clear_metadata\<close> and
  \<open>m_instrument_access\<close>. Only what the code prints is left out.
\<close>

section \<open>The data of the tool\<close>

record omprace_thread_data =
  tid :: nat
  stack_base_addr :: "64 word"
  stack_top_addr :: "64 word"
  active_task_exit_frame :: "64 word"
  lowest_accessed_addr :: "64 word"

definition no_accessed_addr :: "64 word" where
  "no_accessed_addr = 0x7fffffffffff"

definition new_thread_data :: "nat \<Rightarrow> 64 word \<Rightarrow> 64 word \<Rightarrow> omprace_thread_data" where
  "new_thread_data new_tid stack_addr stack_size =
     \<lparr>tid = new_tid, stack_base_addr = stack_addr, stack_top_addr = stack_addr + stack_size,
      active_task_exit_frame = 0, lowest_accessed_addr = no_accessed_addr\<rparr>"

definition set_lowest_accessed_addr :: "64 word \<Rightarrow> omprace_thread_data \<Rightarrow> omprace_thread_data" where
  "set_lowest_accessed_addr a d =
     (if a < lowest_accessed_addr d then d\<lparr>lowest_accessed_addr := a\<rparr> else d)"

definition reset_lowest_accessed_addr :: "omprace_thread_data \<Rightarrow> omprace_thread_data" where
  "reset_lowest_accessed_addr d = d\<lparr>lowest_accessed_addr := no_accessed_addr\<rparr>"

record omprace_task_data =
  task_id :: "64 word"

text \<open>\<open>thread_ptr\<close>, \<open>task_ptr\<close> and \<open>parallel_value\<close> are the words that the runtime keeps for the
  tool with each of its threads, tasks and regions.\<close>

record 'd tool =
  omp_racer :: 'd
  omprace_init_flag :: bool
  OMPRACE_PARALLEL_ID :: "64 word"
  OMPRACE_TASK_ID :: "64 word"
  thread_ptr :: "nat \<rightharpoonup> omprace_thread_data"
  task_ptr :: "nat \<rightharpoonup> omprace_task_data"
  parallel_value :: "nat \<Rightarrow> 64 word"

text \<open>Reading through a pointer.\<close>

definition deref :: "'p option \<Rightarrow> 'p result" where
  "deref p = (case p of None \<Rightarrow> Inl Undefined_behaviour | Some x \<Rightarrow> Inr x)"

lemma deref_simps [simp]: "deref None = Inl Undefined_behaviour" "deref (Some x) = Inr x"
  by (simp_all add: deref_def)

lemma deref_Inr [simp]: "deref p = Inr x \<longleftrightarrow> p = Some x"
  by (cases p) auto

text \<open>A statement of the detector, run on the one the tool holds.\<close>

definition detect :: "('d \<Rightarrow> 'd result) \<Rightarrow> 'd tool \<Rightarrow> 'd tool result" where
  "detect f t = and_then (f (omp_racer t)) (\<lambda>d. Inr (t\<lparr>omp_racer := d\<rparr>))"

section \<open>Ids and tool data\<close>

definition omw_next_parallel_id :: "'d tool \<Rightarrow> 64 word \<times> 'd tool" where
  "omw_next_parallel_id t =
     (OMPRACE_PARALLEL_ID t, t\<lparr>OMPRACE_PARALLEL_ID := OMPRACE_PARALLEL_ID t + 1\<rparr>)"

definition omw_next_task_id :: "'d tool \<Rightarrow> 64 word \<times> 'd tool" where
  "omw_next_task_id t = (OMPRACE_TASK_ID t, t\<lparr>OMPRACE_TASK_ID := OMPRACE_TASK_ID t + 1\<rparr>)"

definition allocate_and_set_thread_data ::
  "nat \<Rightarrow> nat \<Rightarrow> 64 word \<Rightarrow> 64 word \<Rightarrow> 'd tool \<Rightarrow> nat \<times> 'd tool" where
  "allocate_and_set_thread_data thread thread_num stack_addr stack_size t =
     (let data = new_thread_data thread_num stack_addr stack_size
      in (tid data, t\<lparr>thread_ptr := (thread_ptr t)(thread \<mapsto> data)\<rparr>))"

definition delete_thread_data :: "nat \<Rightarrow> 'd tool \<Rightarrow> 'd tool" where
  "delete_thread_data thread t = t\<lparr>thread_ptr := (thread_ptr t)(thread := None)\<rparr>"

definition allocate_and_set_task_data :: "nat \<Rightarrow> 'd tool \<Rightarrow> 64 word \<times> 'd tool" where
  "allocate_and_set_task_data task t =
     (let (i, t) = omw_next_task_id t
      in (i, t\<lparr>task_ptr := (task_ptr t)(task \<mapsto> \<lparr>task_id = i\<rparr>)\<rparr>))"

definition delete_task_data :: "nat \<Rightarrow> 'd tool \<Rightarrow> 'd tool" where
  "delete_task_data task t = t\<lparr>task_ptr := (task_ptr t)(task := None)\<rparr>"

section \<open>The constants of the OMPT interface the tool tests\<close>

datatype scope_endpoint = Scope_begin | Scope_end

datatype sync_region_kind =
    Barrier | Barrier_implicit | Barrier_explicit | Barrier_implementation
  | Taskwait | Taskgroup | Reduction

datatype work_kind =
    Work_loop | Work_sections | Work_single_executor | Work_single_other
  | Work_workshare | Work_distribute | Work_taskloop

datatype task_status =
    Task_complete | Task_yield | Task_cancel | Task_detach
  | Task_early_fulfill | Task_late_fulfill | Task_switch

definition ompt_task_initial :: "32 word" where "ompt_task_initial = 0x1"
definition ompt_task_implicit :: "32 word" where "ompt_task_implicit = 0x2"
definition ompt_task_explicit :: "32 word" where "ompt_task_explicit = 0x4"

lemmas task_flags = ompt_task_initial_def ompt_task_implicit_def ompt_task_explicit_def


section \<open>Synchronisation, worksharing and master\<close>

text \<open>The ids in the arguments are read from \<open>parallel_data\<close> and \<open>task_data\<close> although the
  detector does not use them, so both must not be null where they are read unconditionally.\<close>

definition with_ids ::
  "nat option \<Rightarrow> nat \<Rightarrow> ('d tool \<Rightarrow> 'd tool result) \<Rightarrow> 'd tool \<Rightarrow> 'd tool result" where
  "with_ids parallel_data task f t =
     and_then (deref parallel_data) (\<lambda>_. and_then (deref (task_ptr t task)) (\<lambda>_. f t))"

definition with_task_id :: "nat \<Rightarrow> ('d tool \<Rightarrow> 'd tool result) \<Rightarrow> 'd tool \<Rightarrow> 'd tool result" where
  "with_task_id task f t = and_then (deref (task_ptr t task)) (\<lambda>_. f t)"

definition on_ompt_callback_sync_region ::
  "nat \<Rightarrow> sync_region_kind \<Rightarrow> scope_endpoint \<Rightarrow> nat option \<Rightarrow> nat \<Rightarrow>
     'a detector_scheme tool \<Rightarrow> 'a detector_scheme tool result" where
  "on_ompt_callback_sync_region thread kind endpoint parallel_data task t =
     and_then (deref (thread_ptr t thread)) (\<lambda>thread_data.
     let current_tid = tid thread_data in
     case endpoint of
       Scope_begin \<Rightarrow>
         (case kind of
            Taskwait \<Rightarrow> with_ids parallel_data task (detect (m_capture_taskwait_begin current_tid)) t
          | Taskgroup \<Rightarrow> with_ids parallel_data task (detect (m_capture_taskgroup_begin current_tid)) t
          | Reduction \<Rightarrow> Inl Exit_failure
          | _ \<Rightarrow> with_ids parallel_data task (detect (m_capture_barrier_begin current_tid)) t)
     | Scope_end \<Rightarrow>
         (case kind of
            Taskwait \<Rightarrow> with_task_id task (detect (m_capture_taskwait_end current_tid)) t
          | Taskgroup \<Rightarrow> with_task_id task (detect (m_capture_taskgroup_end current_tid)) t
          | Reduction \<Rightarrow> Inl Exit_failure
          | _ \<Rightarrow> with_task_id task (detect (m_capture_barrier_end current_tid)) t))"

definition on_ompt_callback_work ::
  "nat \<Rightarrow> work_kind \<Rightarrow> scope_endpoint \<Rightarrow> nat option \<Rightarrow> nat \<Rightarrow>
     'a detector_scheme tool \<Rightarrow> 'a detector_scheme tool result" where
  "on_ompt_callback_work thread wstype endpoint parallel_data task t =
     and_then (deref (thread_ptr t thread)) (\<lambda>thread_data.
     let current_tid = tid thread_data in
     case endpoint of
       Scope_begin \<Rightarrow>
         (case wstype of
            Work_loop \<Rightarrow> with_ids parallel_data task (detect (m_capture_loop_begin current_tid)) t
          | Work_single_executor \<Rightarrow>
              with_ids parallel_data task (detect (m_capture_single_begin current_tid)) t
          | _ \<Rightarrow> Inr t)
     | Scope_end \<Rightarrow>
         (case wstype of
            Work_loop \<Rightarrow> with_ids parallel_data task (detect (m_capture_loop_end current_tid)) t
          | Work_single_executor \<Rightarrow>
              with_ids parallel_data task (detect (m_capture_single_end current_tid)) t
          | _ \<Rightarrow> Inr t))"

definition on_ompt_callback_master ::
  "nat \<Rightarrow> scope_endpoint \<Rightarrow> nat option \<Rightarrow> nat \<Rightarrow>
     'a detector_scheme tool \<Rightarrow> 'a detector_scheme tool result" where
  "on_ompt_callback_master thread endpoint parallel_data task t =
     and_then (deref (thread_ptr t thread)) (\<lambda>thread_data.
     let current_tid = tid thread_data in
     case endpoint of
       Scope_begin \<Rightarrow> with_ids parallel_data task (detect (m_capture_master_begin current_tid)) t
     | Scope_end \<Rightarrow> with_ids parallel_data task (detect (m_capture_master_end current_tid)) t)"

text \<open>A chunk of a loop, and the calls the compiler adds around a section.\<close>

definition on_ompt_callback_dispatch ::
  "nat \<Rightarrow> 'a detector_scheme tool \<Rightarrow> 'a detector_scheme tool result" where
  "on_ompt_callback_dispatch thread t =
     and_then (deref (thread_ptr t thread)) (\<lambda>thread_data.
       detect (m_capture_loop_chunk (tid thread_data)) t)"

definition omprace_section_dispatch_begin ::
  "nat \<Rightarrow> 'a detector_scheme tool \<Rightarrow> 'a detector_scheme tool result" where
  "omprace_section_dispatch_begin thread t =
     and_then (deref (thread_ptr t thread)) (\<lambda>thread_data.
       detect (m_capture_section_begin (tid thread_data)) t)"

definition omprace_section_dispatch_end ::
  "nat \<Rightarrow> 'a detector_scheme tool \<Rightarrow> 'a detector_scheme tool result" where
  "omprace_section_dispatch_end thread t =
     and_then (deref (thread_ptr t thread)) (\<lambda>thread_data.
       detect (m_capture_section_end (tid thread_data)) t)"

section \<open>Regions and implicit tasks\<close>

text \<open>\<open>num_procs\<close> is the answer of \<open>omp_get_num_procs\<close> that \<open>m_capture_parallel_begin\<close> asks for.\<close>

definition on_ompt_callback_parallel_begin ::
  "nat \<Rightarrow> nat \<Rightarrow> nat \<Rightarrow> nat \<Rightarrow> nat \<Rightarrow>
     'a detector_scheme tool \<Rightarrow> 'a detector_scheme tool result" where
  "on_ompt_callback_parallel_begin num_procs thread encountering_task parallel_data
       requested_team_size t =
     (let (i, t) = omw_next_parallel_id t;
          t = t\<lparr>parallel_value := (parallel_value t)(parallel_data := i)\<rparr>
      in and_then (deref (thread_ptr t thread)) (\<lambda>thread_data.
         with_task_id encountering_task
           (detect (m_capture_parallel_begin num_procs (tid thread_data) requested_team_size)) t))"

text \<open>The id of a task without data is passed as 0 here.\<close>

definition on_ompt_callback_parallel_end ::
  "nat \<Rightarrow> 'a detector_scheme tool \<Rightarrow> 'a detector_scheme tool result" where
  "on_ompt_callback_parallel_end thread t =
     and_then (deref (thread_ptr t thread)) (\<lambda>thread_data.
       detect (m_capture_parallel_end (tid thread_data)) t)"

definition on_ompt_callback_implicit_task ::
  "nat \<Rightarrow> scope_endpoint \<Rightarrow> nat option \<Rightarrow> nat \<Rightarrow> 32 word \<Rightarrow>
     'a detector_scheme tool \<Rightarrow> 'a detector_scheme tool result" where
  "on_ompt_callback_implicit_task thread endpoint parallel_data task flags t =
     and_then (deref (thread_ptr t thread)) (\<lambda>thread_data.
     let current_tid = tid thread_data in
     case endpoint of
       Scope_begin \<Rightarrow>
         if flags AND ompt_task_initial \<noteq> 0
         then and_then (deref parallel_data) (\<lambda>par.
              let (i, t) = omw_next_parallel_id t;
                  t = t\<lparr>parallel_value := (parallel_value t)(par := i)\<rparr>;
                  (new_task_id, t) = allocate_and_set_task_data task t
              in Inr t)
         else let (new_task_id, t) = allocate_and_set_task_data task t
              in and_then (deref parallel_data) (\<lambda>par.
                   detect (m_capture_implicit_task_begin current_tid) t)
     | Scope_end \<Rightarrow>
         if flags AND ompt_task_initial \<noteq> 0
         then Inr (delete_task_data task t)
         else and_then (with_task_id task (detect (m_capture_implicit_task_end current_tid)) t)
                (\<lambda>t. Inr (delete_task_data task t)))"

section \<open>Explicit tasks\<close>

text \<open>\<open>parallel_info\<close> is the region that \<open>ompt_get_parallel_info\<close> gives. The case of an initial
  task starts with \<open>assert(false)\<close>.\<close>

definition on_ompt_callback_task_create ::
  "nat \<Rightarrow> nat option \<Rightarrow> nat \<Rightarrow> 32 word \<Rightarrow> bool \<Rightarrow> nat option \<Rightarrow>
     'a detector_scheme tool \<Rightarrow> 'a detector_scheme tool result" where
  "on_ompt_callback_task_create thread encountering_task new_task type has_dependences
       parallel_info t =
     and_then (deref (thread_ptr t thread)) (\<lambda>thread_data.
     let current_tid = tid thread_data in
     if type AND ompt_task_initial \<noteq> 0 then Inl Assertion_failed
     else if type AND ompt_task_explicit \<noteq> 0
     then let (new_task_id, t) = allocate_and_set_task_data new_task t
          in and_then (deref parallel_info) (\<lambda>par.
               detect (m_capture_task_alloc current_tid (unat new_task_id) has_dependences) t)
     else Inr t)"

definition on_ompt_callback_dependences ::
  "nat \<Rightarrow> nat \<Rightarrow> TaskDependence list \<Rightarrow>
     'a detector_scheme tool \<Rightarrow> 'a detector_scheme tool result" where
  "on_ompt_callback_dependences thread task deps t =
     and_then (deref (thread_ptr t thread)) (\<lambda>thread_data.
     and_then (deref (task_ptr t task)) (\<lambda>t_data.
       detect (m_capture_task_dependences (tid thread_data) (unat (task_id t_data)) deps) t))"

text \<open>The memory of the finished task (\<open>ompt_get_task_memory\<close>: result, address, size) and the
  exit frame of the task that goes on (\<open>ompt_get_task_info\<close>) are answers of the runtime. A
  finished task gives up the part of the stack it used, from the lowest address accessed since the
  last switch to its exit frame, and its own memory.\<close>

definition on_ompt_callback_task_schedule ::
  "(64 word \<Rightarrow> 64 word \<Rightarrow> 'a detector_scheme \<Rightarrow> 'a detector_scheme result) \<Rightarrow>
     nat \<Rightarrow> nat \<Rightarrow> task_status \<Rightarrow> nat \<Rightarrow> bool \<times> 64 word \<times> 64 word \<Rightarrow> 64 word option \<Rightarrow>
     'a detector_scheme tool \<Rightarrow> 'a detector_scheme tool result" where
  "on_ompt_callback_task_schedule clear thread first_task prior_task_status second_task
       task_memory exit_frame t =
     and_then (deref (thread_ptr t thread)) (\<lambda>thread_data.
     let current_tid = tid thread_data in
     and_then
       (if prior_task_status \<noteq> Task_complete
        then and_then (deref (task_ptr t first_task)) (\<lambda>first_t_data.
             and_then (deref (task_ptr t second_task)) (\<lambda>second_t_data.
               detect (m_capture_task_begin current_tid (unat (task_id second_t_data))) t))
        else let (ok, addr, sz) = task_memory;
                 stack_high = active_task_exit_frame thread_data;
                 stack_low = lowest_accessed_addr thread_data
             in if \<not> ok then Inl Assertion_failed
                else and_then (detect (clear stack_low stack_high) t) (\<lambda>t.
                     and_then (detect (clear addr (addr + sz)) t) (\<lambda>t.
                     and_then (with_task_id first_task (detect (m_capture_task_end current_tid)) t)
                       (\<lambda>t. Inr (delete_task_data first_task t)))))
       (\<lambda>t. case exit_frame of
              None \<Rightarrow> Inl Assertion_failed
            | Some frame \<Rightarrow>
                Inr (t\<lparr>thread_ptr := (thread_ptr t)(thread \<mapsto>
                  thread_data\<lparr>active_task_exit_frame := frame, lowest_accessed_addr := frame\<rparr>)\<rparr>)))"

section \<open>Threads, initialisation and accesses\<close>

definition on_ompt_callback_thread_begin ::
  "nat \<Rightarrow> nat \<Rightarrow> 64 word \<Rightarrow> 64 word \<Rightarrow>
     'a detector_scheme tool \<Rightarrow> 'a detector_scheme tool result" where
  "on_ompt_callback_thread_begin thread thread_num stack_addr stack_size t =
     (let (new_tid, t) = allocate_and_set_thread_data thread thread_num stack_addr stack_size t
      in detect (m_capture_thread_begin new_tid) t)"

definition on_ompt_callback_thread_end :: "nat \<Rightarrow> 'd tool \<Rightarrow> 'd tool result" where
  "on_ompt_callback_thread_end thread t =
     and_then (deref (thread_ptr t thread)) (\<lambda>t_data. Inr (delete_thread_data thread t))"

text \<open>Loading the tool creates the detector; \<open>main\<close> of the instrumented program calls
  \<open>omprace_init\<close>, with \<open>task\<close> the current task that \<open>ompt_get_task_info\<close> gives.\<close>

definition ompt_initialize :: "'d \<Rightarrow> 'd tool" where
  "ompt_initialize d =
     \<lparr>omp_racer = d, omprace_init_flag = False, OMPRACE_PARALLEL_ID = 1, OMPRACE_TASK_ID = 1,
      thread_ptr = Map.empty, task_ptr = Map.empty, parallel_value = (\<lambda>_. 0)\<rparr>"

definition omprace_init ::
  "nat \<Rightarrow> nat \<Rightarrow> 'a detector_scheme tool \<Rightarrow> 'a detector_scheme tool result" where
  "omprace_init thread task t =
     and_then (deref (thread_ptr t thread)) (\<lambda>thread_data.
     let (serial_parallel_id, t) = omw_next_parallel_id t
     in and_then (with_task_id task (detect (m_init_racer (tid thread_data))) t)
          (\<lambda>t. Inr (t\<lparr>omprace_init_flag := True\<rparr>)))"

text \<open>The end of the program: the report of the detector.\<close>

definition ompt_finalize ::
  "'a detector_scheme tool \<Rightarrow> (race_report list \<times> int) \<times> string option" where
  "ompt_finalize t = m_fini_race_detector (omp_racer t)"

definition omprace_instrument_access ::
  "(nat \<Rightarrow> 64 word \<Rightarrow> bool \<Rightarrow> 'd \<Rightarrow> 'd result) \<Rightarrow> nat \<Rightarrow> 64 word \<Rightarrow> 32 word \<Rightarrow>
     'd tool \<Rightarrow> 'd tool result" where
  "omprace_instrument_access check thread a type t =
     (if \<not> omprace_init_flag t then Inr t
      else and_then (deref (thread_ptr t thread)) (\<lambda>thread_data.
        let t = (if stack_base_addr thread_data \<le> a \<and> a \<le> stack_top_addr thread_data
                 then t\<lparr>thread_ptr := (thread_ptr t)(thread \<mapsto>
                        set_lowest_accessed_addr a thread_data)\<rparr>
                 else t)
        in if type = 0 then detect (check (tid thread_data) a False) t
           else if type = 1 then detect (check (tid thread_data) a True) t
           else Inl Exit_failure))"


section \<open>Events\<close>

text \<open>The callbacks of the OMPT interface, and the ones that \<open>ompt_initialize\<close> registers. The
  registrations of the mutex callbacks are commented out.\<close>

datatype callback_name =
    CB_mutex_acquire | CB_mutex_acquired | CB_mutex_released | CB_nest_lock
  | CB_sync_region | CB_sync_region_wait | CB_reduction | CB_control_tool | CB_flush | CB_cancel
  | CB_implicit_task | CB_lock_init | CB_lock_destroy | CB_work | CB_master | CB_parallel_begin
  | CB_parallel_end | CB_task_create | CB_task_schedule | CB_dependences | CB_task_dependence
  | CB_thread_begin | CB_thread_end | CB_dispatch

definition registered :: "callback_name list" where
  "registered =
     [CB_sync_region, CB_reduction, CB_implicit_task, CB_work, CB_master, CB_parallel_begin,
      CB_parallel_end, CB_task_create, CB_task_schedule, CB_dependences, CB_thread_begin,
      CB_thread_end, CB_dispatch]"

text \<open>What happens to the tool, with the thread it happens on first: a callback of the runtime, or
  a call the instrumented program makes (the last four). \<open>Mutex\<close> is any event on a lock.\<close>

datatype ompt_event =
    Sync_region nat sync_region_kind scope_endpoint "nat option" nat
  | Reduction_region nat scope_endpoint
  | Mutex nat callback_name "64 word"
  | Implicit_task nat scope_endpoint "nat option" nat "32 word"
  | Work nat work_kind scope_endpoint "nat option" nat
  | Master nat scope_endpoint "nat option" nat
  | Region_begin nat nat nat nat nat
  | Region_end nat
  | Task_create nat "nat option" nat "32 word" bool "nat option"
  | Task_schedule nat nat task_status nat "bool \<times> 64 word \<times> 64 word" "64 word option"
  | Dependences nat nat "TaskDependence list"
  | Thread_start nat nat "64 word" "64 word"
  | Thread_stop nat
  | Dispatch nat
  | Tool_init nat nat
  | Instrumented nat "64 word" "32 word"
  | Section_start nat
  | Section_stop nat

fun needs :: "ompt_event \<Rightarrow> callback_name option" where
  "needs (Sync_region _ _ _ _ _) = Some CB_sync_region"
| "needs (Reduction_region _ _) = Some CB_reduction"
| "needs (Mutex _ c _) = Some c"
| "needs (Implicit_task _ _ _ _ _) = Some CB_implicit_task"
| "needs (Work _ _ _ _ _) = Some CB_work"
| "needs (Master _ _ _ _) = Some CB_master"
| "needs (Region_begin _ _ _ _ _) = Some CB_parallel_begin"
| "needs (Region_end _) = Some CB_parallel_end"
| "needs (Task_create _ _ _ _ _ _) = Some CB_task_create"
| "needs (Task_schedule _ _ _ _ _ _) = Some CB_task_schedule"
| "needs (Dependences _ _ _) = Some CB_dependences"
| "needs (Thread_start _ _ _ _) = Some CB_thread_begin"
| "needs (Thread_stop _) = Some CB_thread_end"
| "needs (Dispatch _) = Some CB_dispatch"
| "needs _ = None"

text \<open>The handler of an event. The reduction callback, and those on locks, only print.\<close>

fun handle_event ::
  "(nat \<Rightarrow> 64 word \<Rightarrow> bool \<Rightarrow> 'a detector_scheme \<Rightarrow> 'a detector_scheme result) \<Rightarrow>
   (64 word \<Rightarrow> 64 word \<Rightarrow> 'a detector_scheme \<Rightarrow> 'a detector_scheme result) \<Rightarrow>
   ompt_event \<Rightarrow> 'a detector_scheme tool \<Rightarrow> 'a detector_scheme tool result" where
  "handle_event check clear (Sync_region th k e r i) t = on_ompt_callback_sync_region th k e r i t"
| "handle_event check clear (Reduction_region th e) t = Inr t"
| "handle_event check clear (Mutex th c w) t = Inr t"
| "handle_event check clear (Implicit_task th e r i f) t = on_ompt_callback_implicit_task th e r i f t"
| "handle_event check clear (Work th k e r i) t = on_ompt_callback_work th k e r i t"
| "handle_event check clear (Master th e r i) t = on_ompt_callback_master th e r i t"
| "handle_event check clear (Region_begin procs th i r n) t =
     on_ompt_callback_parallel_begin procs th i r n t"
| "handle_event check clear (Region_end th) t = on_ompt_callback_parallel_end th t"
| "handle_event check clear (Task_create th i j ty d r) t =
     on_ompt_callback_task_create th i j ty d r t"
| "handle_event check clear (Task_schedule th i st j m f) t =
     on_ompt_callback_task_schedule clear th i st j m f t"
| "handle_event check clear (Dependences th i ds) t = on_ompt_callback_dependences th i ds t"
| "handle_event check clear (Thread_start th n a sz) t = on_ompt_callback_thread_begin th n a sz t"
| "handle_event check clear (Thread_stop th) t = on_ompt_callback_thread_end th t"
| "handle_event check clear (Dispatch th) t = on_ompt_callback_dispatch th t"
| "handle_event check clear (Tool_init th i) t = omprace_init th i t"
| "handle_event check clear (Instrumented th a ty) t = omprace_instrument_access check th a ty t"
| "handle_event check clear (Section_start th) t = omprace_section_dispatch_begin th t"
| "handle_event check clear (Section_stop th) t = omprace_section_dispatch_end th t"

text \<open>The runtime calls only what is registered.\<close>

definition deliver ::
  "(nat \<Rightarrow> 64 word \<Rightarrow> bool \<Rightarrow> 'a detector_scheme \<Rightarrow> 'a detector_scheme result) \<Rightarrow>
   (64 word \<Rightarrow> 64 word \<Rightarrow> 'a detector_scheme \<Rightarrow> 'a detector_scheme result) \<Rightarrow>
   ompt_event \<Rightarrow> 'a detector_scheme tool \<Rightarrow> 'a detector_scheme tool result" where
  "deliver check clear ev t =
     (case needs ev of
        Some c \<Rightarrow> if c \<in> set registered then handle_event check clear ev t else Inr t
      | None \<Rightarrow> handle_event check clear ev t)"

end
