(* ===== verification/Graph_Invariant.thy ===== *)
theory Graph_Invariant
  imports Capture
begin

text \<open>
  The well-formedness of the graph and of the stacks, and its preservation by the primitive
  operations: popping, pushing a node that is there, and adding a child.
\<close>

section \<open>Well-formed graphs\<close>

definition wf_child :: "(nat \<Rightarrow> Node) \<Rightarrow> nat \<Rightarrow> bool" where
  "wf_child g i \<longleftrightarrow>
     1 \<le> m_parent (g i) \<and> m_parent (g i) < i \<and> m_type (g (m_parent (g i))) \<noteq> WORK \<and>
     m_type (g i) \<noteq> NO_TYPE \<and>
     m_depth (g i) = Suc (m_depth (g (m_parent (g i)))) \<and>
     m_seqnum (g i) < m_numchildren (g (m_parent (g i)))"

definition wf_root :: "(nat \<Rightarrow> Node) \<Rightarrow> bool" where
  "wf_root g \<longleftrightarrow> g 0 = zero_node \<and> m_type (g 1) = SERIES \<and> m_parent (g 1) = 0 \<and>
     m_depth (g 1) = 0 \<and> \<not> m_finish_flag (g 1)"

text \<open>\<open>n\<close> is the next free index. Siblings are numbered in the order of their creation.\<close>

definition wf_graph :: "(nat \<Rightarrow> Node) \<Rightarrow> nat \<Rightarrow> bool" where
  "wf_graph g n \<longleftrightarrow>
     1 < n \<and> wf_root g \<and>
     (\<forall>i. 1 < i \<and> i < n \<longrightarrow> wf_child g i) \<and>
     (\<forall>i j. 1 < i \<and> i < j \<and> j < n \<and> m_parent (g i) = m_parent (g j) \<longrightarrow>
        m_seqnum (g i) < m_seqnum (g j)) \<and>
     (\<forall>i. n \<le> i \<longrightarrow> g i = zero_node) \<and>
     (\<forall>i. m_numchildren (g i) < n) \<and>
     (\<forall>i. m_depth (g i) < n) \<and>
     (\<forall>i. m_task_id (g i) \<noteq> 0 \<longrightarrow> m_type (g i) = PARALLEL) \<and>
     (\<forall>i. m_finish_flag (g i) \<longrightarrow> m_type (g i) = SERIES) \<and>
     (\<forall>i. dependencies (g i) = None)"

lemma wf_graphD:
  assumes "wf_graph g n"
  shows "1 < n" and "wf_root g"
    and "\<And>i. 1 < i \<Longrightarrow> i < n \<Longrightarrow> wf_child g i"
    and "\<And>i j. 1 < i \<Longrightarrow> i < j \<Longrightarrow> j < n \<Longrightarrow> m_parent (g i) = m_parent (g j) \<Longrightarrow>
           m_seqnum (g i) < m_seqnum (g j)"
    and "\<And>i. n \<le> i \<Longrightarrow> g i = zero_node"
    and "\<And>i. m_numchildren (g i) < n" and "\<And>i. m_depth (g i) < n"
    and "\<And>i. m_task_id (g i) \<noteq> 0 \<Longrightarrow> m_type (g i) = PARALLEL"
    and "\<And>i. m_finish_flag (g i) \<Longrightarrow> m_type (g i) = SERIES"
    and "\<And>i. dependencies (g i) = None"
  using assms by (auto simp: wf_graph_def)

lemma wf_graph_seqnum_inj:
  assumes "wf_graph g n" and "1 < i" "i < n" "1 < j" "j < n"
    and "m_parent (g i) = m_parent (g j)" and "m_seqnum (g i) = m_seqnum (g j)"
  shows "i = j"
  using assms wf_graphD(4) [OF assms(1), of i j] wf_graphD(4) [OF assms(1), of j i]
  by (metis less_irrefl linorder_neqE_nat)

text \<open>A change of the fields the tree does not consist of keeps it well formed.\<close>

definition same_tree :: "Node \<Rightarrow> Node \<Rightarrow> bool" where
  "same_tree a b \<longleftrightarrow> m_type a = m_type b \<and> m_parent a = m_parent b \<and> m_depth a = m_depth b \<and>
     m_seqnum a = m_seqnum b \<and> m_numchildren a = m_numchildren b"

lemma wf_graph_same_tree:
  assumes wf: "wf_graph g n" and i: "1 \<le> i" "i < n" and st: "same_tree nd (g i)"
    and "m_task_id nd \<noteq> 0 \<Longrightarrow> m_type nd = PARALLEL"
    and "m_finish_flag nd \<Longrightarrow> m_type nd = SERIES" and "i = 1 \<Longrightarrow> \<not> m_finish_flag nd"
    and "dependencies nd = None"
  shows "wf_graph (g(i := nd)) n"
proof -
  let ?g = "g(i := nd)"
  have f: "m_type (?g j) = m_type (g j)" "m_parent (?g j) = m_parent (g j)"
    "m_depth (?g j) = m_depth (g j)" "m_seqnum (?g j) = m_seqnum (g j)"
    "m_numchildren (?g j) = m_numchildren (g j)" for j
    using st by (auto simp: same_tree_def)
  have "\<not> m_finish_flag (?g 1)" and "?g 0 = zero_node"
    using wf_graphD(2) [OF wf] i(1) assms(7) by (cases "i = 1"; simp add: wf_root_def)+
  then have root: "wf_root ?g"
    using wf_graphD(2) [OF wf] unfolding wf_root_def f by simp
  have child: "wf_child ?g j \<longleftrightarrow> wf_child g j" for j
    by (simp only: wf_child_def f)
  have rest: "n \<le> j \<longrightarrow> ?g j = zero_node" "m_task_id (?g j) \<noteq> 0 \<longrightarrow> m_type (g j) = PARALLEL"
    "m_finish_flag (?g j) \<longrightarrow> m_type (g j) = SERIES" "dependencies (?g j) = None" for j
    using wf_graphD(5,8-10) [OF wf, of j] i(2) assms(5,6,8) f(1) [of j] by auto
  show ?thesis
    unfolding wf_graph_def f child using wf_graphD [OF wf] root rest by blast
qed

text \<open>Adding a child under an inner node.\<close>

definition child_node :: "mode \<Rightarrow> NodeType \<Rightarrow> nat \<Rightarrow> (nat \<Rightarrow> Node) \<Rightarrow> Node" where
  "child_node md ty p g =
     ((case md of Precise \<Rightarrow> init_node_precise ty zero_node | Fast \<Rightarrow> init_node_fast ty zero_node)
        \<lparr>m_parent := p, m_seqnum := m_numchildren (g p), m_depth := Suc (m_depth (g p))\<rparr>)"

definition add_child :: "mode \<Rightarrow> NodeType \<Rightarrow> nat \<Rightarrow> nat \<Rightarrow> (nat \<Rightarrow> Node) \<Rightarrow> (nat \<Rightarrow> Node)" where
  "add_child md ty p n g =
     g(n := child_node md ty p g, p := (g p)\<lparr>m_numchildren := Suc (m_numchildren (g p))\<rparr>)"

lemma child_node_simps [simp]:
  "m_type (child_node md ty p g) = ty" "m_parent (child_node md ty p g) = p"
  "m_depth (child_node md ty p g) = Suc (m_depth (g p))"
  "m_seqnum (child_node md ty p g) = m_numchildren (g p)"
  "m_numchildren (child_node md ty p g) = 0" "m_task_id (child_node md ty p g) = 0"
  "m_finish_flag (child_node md ty p g) = False"
  "m_young_ns_child (child_node md ty p g) = NO_TYPE"
  "dependencies (child_node md ty p g) = None"
  by (cases md; simp add: child_node_def init_node_precise_def init_node_fast_def zero_node_def)+

lemma add_child_fields:
  assumes "p \<noteq> n"
  shows "add_child md ty p n g n = child_node md ty p g"
    and "m_numchildren (add_child md ty p n g p) = Suc (m_numchildren (g p))"
    and "i \<noteq> n \<Longrightarrow> m_type (add_child md ty p n g i) = m_type (g i)"
    and "i \<noteq> n \<Longrightarrow> m_parent (add_child md ty p n g i) = m_parent (g i)"
    and "i \<noteq> n \<Longrightarrow> m_depth (add_child md ty p n g i) = m_depth (g i)"
    and "i \<noteq> n \<Longrightarrow> m_seqnum (add_child md ty p n g i) = m_seqnum (g i)"
    and "i \<noteq> n \<Longrightarrow> m_finish_flag (add_child md ty p n g i) = m_finish_flag (g i)"
    and "i \<noteq> n \<Longrightarrow> m_task_id (add_child md ty p n g i) = m_task_id (g i)"
    and "i \<noteq> n \<Longrightarrow> m_young_ns_child (add_child md ty p n g i) = m_young_ns_child (g i)"
    and "i \<noteq> n \<Longrightarrow> dependencies (add_child md ty p n g i) = dependencies (g i)"
    and "i \<noteq> n \<Longrightarrow> i \<noteq> p \<Longrightarrow> add_child md ty p n g i = g i"
    and "i \<noteq> n \<Longrightarrow> m_numchildren (g i) \<le> m_numchildren (add_child md ty p n g i)"
  using assms by (auto simp: add_child_def)

lemma wf_graph_add_child:
  assumes wf: "wf_graph g n" and p: "1 \<le> p" "p < n" "m_type (g p) \<noteq> WORK" and ty: "ty \<noteq> NO_TYPE"
  shows "wf_graph (add_child md ty p n g) (Suc n)"
proof -
  let ?g = "add_child md ty p n g"
  have pn: "p \<noteq> n" and n1: "1 < n" using p wf_graphD(1) [OF wf] by auto
  note f = add_child_fields [OF pn, where md = md and ty = ty and g = g]
  have old: "wf_child ?g i" if "1 < i" "i < n" for i
  proof -
    have c: "wf_child g i" using wf_graphD(3) [OF wf that] .
    then have "m_parent (g i) \<noteq> n" using that by (auto simp: wf_child_def)
    with c that show ?thesis
      using f(12) [of "m_parent (g i)"] by (auto simp: wf_child_def f(3-6))
  qed
  have new: "wf_child ?g n"
    using p ty pn by (auto simp: wf_child_def f)
  have root: "wf_root ?g"
    using wf_graphD(2) [OF wf] p n1 pn by (auto simp: wf_root_def f add_child_def)
  have sib: "m_seqnum (?g i) < m_seqnum (?g j)"
    if ij: "1 < i" "i < j" "j < Suc n" and par: "m_parent (?g i) = m_parent (?g j)" for i j
  proof (cases "j = n")
    case True
    then have "m_parent (g i) = p" using ij par by (simp add: f)
    then have "m_seqnum (g i) < m_numchildren (g p)"
      using wf_graphD(3) [OF wf, of i] ij True by (auto simp: wf_child_def)
    then show ?thesis using True ij by (simp add: f)
  next
    case False
    then show ?thesis using ij par wf_graphD(4) [OF wf, of i j] by (simp add: f)
  qed
  have tail: "?g i = zero_node" if "Suc n \<le> i" for i
    using that p wf_graphD(5) [OF wf, of i] by (simp add: f)
  have cnt: "m_numchildren (?g i) < Suc n" for i
    using wf_graphD(6) [OF wf, of i] by (auto simp: add_child_def)
  have dep: "m_depth (?g i) < Suc n" for i
    using wf_graphD(7) [OF wf, of i] wf_graphD(7) [OF wf, of p] by (auto simp: add_child_def)
  have flags: "m_task_id (?g i) \<noteq> 0 \<longrightarrow> m_type (?g i) = PARALLEL"
      "m_finish_flag (?g i) \<longrightarrow> m_type (?g i) = SERIES" "dependencies (?g i) = None" for i
    using wf_graphD(8-10) [OF wf, of i] by (cases "i = n"; simp add: f)+
  show ?thesis
    unfolding wf_graph_def
    using n1 root old new sib tail cnt dep flags by (auto simp: less_Suc_eq)
qed

section \<open>Well-formed states\<close>

definition is_node :: "'a detector_scheme \<Rightarrow> nat \<Rightarrow> bool" where
  "is_node s i \<longleftrightarrow> 1 \<le> i \<and> i < m_last_allocated_node s"

abbreviation type_of :: "'a detector_scheme \<Rightarrow> nat \<Rightarrow> NodeType" where
  "type_of s i \<equiv> m_type (m_tgraph_nodes s i)"

text \<open>
  Two entries of a stack, the second above the first: they are not both steps, and a \<open>SERIES\<close>
  node lies on its parent. The finish nodes of the phases of a region are excepted: a thread
  takes them from \<open>m_pending_finish\<close>.
\<close>

definition stacked :: "'a detector_scheme \<Rightarrow> nat \<Rightarrow> nat \<Rightarrow> bool" where
  "stacked s a b \<longleftrightarrow> \<not> (type_of s a = WORK \<and> type_of s b = WORK) \<and>
     (type_of s b = SERIES \<and> b \<notin> set (m_pending_finish s) \<longrightarrow> m_parent (m_tgraph_nodes s b) = a)"

definition wf_stack :: "'a detector_scheme \<Rightarrow> nat list \<Rightarrow> bool" where
  "wf_stack s xs \<longleftrightarrow> (\<forall>x\<in>set xs. is_node s x) \<and> successively (stacked s) xs"

text \<open>The nodes the detector keeps outside the stacks.\<close>

definition wf_handles :: "'a detector_scheme \<Rightarrow> bool" where
  "wf_handles s \<longleftrightarrow>
     (m_par_finish_index s = [] \<or>
      (\<exists>f f'. m_par_finish_index s = [f, f'] \<and> m_parent (m_tgraph_nodes s f') = f)) \<and>
     (\<forall>x\<in>set (m_par_finish_index s). is_node s x \<and> type_of s x = SERIES) \<and>
     (\<forall>x\<in>set (m_pending_finish s). is_node s x \<and> type_of s x = SERIES \<and>
        \<not> m_finish_flag (m_tgraph_nodes s x)) \<and>
     (\<forall>t x. m_task_map s t = Some x \<longrightarrow> is_node s x \<and> type_of s x = PARALLEL)"

definition wf_state :: "'a detector_scheme \<Rightarrow> bool" where
  "wf_state s \<longleftrightarrow>
     wf_graph (m_tgraph_nodes s) (m_last_allocated_node s) \<and>
     m_last_allocated_node s < OMP_RACER_NUM_GRAPH_NODES \<and>
     (\<forall>t. wf_stack s (m_last_nodes s t)) \<and> wf_handles s"

lemma wf_stateD:
  assumes "wf_state s"
  shows "wf_graph (m_tgraph_nodes s) (m_last_allocated_node s)"
    and "m_last_allocated_node s < OMP_RACER_NUM_GRAPH_NODES"
    and "wf_stack s (m_last_nodes s t)" and "wf_handles s"
  using assms by (auto simp: wf_state_def)

text \<open>The back of the stack can take a child.\<close>

definition attachable :: "nat \<Rightarrow> 'a detector_scheme \<Rightarrow> bool" where
  "attachable tid s \<longleftrightarrow> m_last_nodes s tid \<noteq> [] \<longrightarrow> type_of s (last (m_last_nodes s tid)) \<noteq> WORK"

text \<open>What a statement may do to the nodes that are there: everything the tree is made of
  stays, but for the child counts.\<close>

definition extends :: "'a detector_scheme \<Rightarrow> 'a detector_scheme \<Rightarrow> bool" where
  "extends s s' \<longleftrightarrow>
     m_last_allocated_node s \<le> m_last_allocated_node s' \<and> mode s' = mode s \<and>
     set (m_pending_finish s) \<subseteq> set (m_pending_finish s') \<and>
     (\<forall>i. is_node s i \<longrightarrow>
        m_type (m_tgraph_nodes s' i) = m_type (m_tgraph_nodes s i) \<and>
        m_parent (m_tgraph_nodes s' i) = m_parent (m_tgraph_nodes s i) \<and>
        m_depth (m_tgraph_nodes s' i) = m_depth (m_tgraph_nodes s i) \<and>
        m_seqnum (m_tgraph_nodes s' i) = m_seqnum (m_tgraph_nodes s i) \<and>
        m_finish_flag (m_tgraph_nodes s' i) = m_finish_flag (m_tgraph_nodes s i))"

lemma extends_refl [simp, intro]: "extends s s"
  by (simp add: extends_def)

lemma extends_trans [trans]: "extends s t \<Longrightarrow> extends t u \<Longrightarrow> extends s u"
  by (auto simp: extends_def is_node_def)

lemma extends_is_node: "extends s s' \<Longrightarrow> is_node s i \<Longrightarrow> is_node s' i"
  by (auto simp: extends_def is_node_def)

lemma extends_type: "extends s s' \<Longrightarrow> is_node s i \<Longrightarrow> type_of s' i = type_of s i"
  by (auto simp: extends_def)

lemma extends_parent: "extends s s' \<Longrightarrow> is_node s i \<Longrightarrow>
    m_parent (m_tgraph_nodes s' i) = m_parent (m_tgraph_nodes s i)"
  by (auto simp: extends_def)

lemma wf_stack_extends:
  assumes "wf_stack s xs" and "extends s s'"
  shows "wf_stack s' xs"
proof -
  have "stacked s' a b" if "a \<in> set xs" "b \<in> set xs" "stacked s a b" for a b
    using that assms extends_type [OF assms(2)] extends_parent [OF assms(2)]
    by (auto simp: stacked_def wf_stack_def extends_def)
  then have "successively (stacked s') xs"
    using assms(1) by (auto simp: wf_stack_def intro: successively_mono)
  then show ?thesis using assms by (auto simp: wf_stack_def intro: extends_is_node)
qed

lemma wf_handles_extends:
  assumes "wf_handles s" and "extends s s'"
    and "m_par_finish_index s' = m_par_finish_index s"
    and "set (m_pending_finish s') \<subseteq> set (m_pending_finish s)"
    and "\<And>t x. m_task_map s' t = Some x \<Longrightarrow> m_task_map s t = Some x"
  shows "wf_handles s'"
proof -
  have keep: "is_node s x \<and> type_of s x = ty \<Longrightarrow> is_node s' x \<and> type_of s' x = ty" for x ty
    using extends_is_node [OF assms(2)] extends_type [OF assms(2)] by metis
  have "m_parent (m_tgraph_nodes s' x) = m_parent (m_tgraph_nodes s x)"
    if "x \<in> set (m_par_finish_index s)" for x
    using that assms(1) extends_parent [OF assms(2), of x] by (auto simp: wf_handles_def)
  then have links: "m_par_finish_index s' = [] \<or>
      (\<exists>f f'. m_par_finish_index s' = [f, f'] \<and> m_parent (m_tgraph_nodes s' f') = f)"
    using assms(1,3) by (auto simp: wf_handles_def)
  moreover have "\<forall>x\<in>set (m_par_finish_index s'). is_node s' x \<and> type_of s' x = SERIES"
    using assms(1,3) keep unfolding wf_handles_def by simp
  moreover have "\<forall>x\<in>set (m_pending_finish s'). is_node s' x \<and> type_of s' x = SERIES \<and>
      \<not> m_finish_flag (m_tgraph_nodes s' x)"
    using assms(1,2,4) keep unfolding wf_handles_def extends_def by blast
  moreover have "\<forall>t x. m_task_map s' t = Some x \<longrightarrow> is_node s' x \<and> type_of s' x = PARALLEL"
    using assms(1,5) keep unfolding wf_handles_def by blast
  ultimately show ?thesis unfolding wf_handles_def by (intro conjI)
qed

end
