(* ===== verification/Capture_Invariant.thy ===== *)
theory Capture_Invariant
  imports Graph_Invariant
begin

text \<open>
  Every callback keeps the graph and the stacks well formed, when it is called in a state
  that the OMPT protocol allows. The protocol is the function \<open>allowed\<close>: it collects the
  assertions of the debug build of the callbacks (a step node on top of the stack in
  \<open>m_pop_step_node\<close>, a registered task in \<open>m_capture_task_begin\<close>, an empty stack of a
  worker in \<open>m_capture_implicit_task_begin\<close>) and the condition that a construct that ends
  was begun in the same frame, so that the node below it is not a step.
\<close>

section \<open>The primitive operations\<close>

lemma stack_back_Inr:
  "stack_back tid s = Inr x \<longleftrightarrow>
     tid < NUM_THREADS \<and> m_last_nodes s tid \<noteq> [] \<and> x = last (m_last_nodes s tid)"
  by (auto simp: stack_back_def)

lemma pop_back_Inr:
  "pop_back tid s = Inr s' \<longleftrightarrow> tid < NUM_THREADS \<and> m_last_nodes s tid \<noteq> [] \<and>
     s' = s\<lparr>m_last_nodes := (m_last_nodes s)(tid := butlast (m_last_nodes s tid))\<rparr>"
  by (auto simp: pop_back_def)

lemma push_back_Inr:
  "push_back x tid s = Inr s' \<longleftrightarrow> tid < NUM_THREADS \<and>
     s' = s\<lparr>m_last_nodes := (m_last_nodes s)(tid := m_last_nodes s tid @ [x])\<rparr>"
  by (auto simp: push_back_def)

lemma m_pop_step_node_eq: "m_pop_step_node tid s = pop_back tid s"
  by (simp add: m_pop_step_node_def stack_back_def pop_back_def)

lemma new_child_Inr:
  assumes wf: "wf_state s" and run: "new_child ty tid s = Inr (i, s')"
  defines "n \<equiv> m_last_allocated_node s" and "p \<equiv> last (m_last_nodes s tid)"
  shows "tid < NUM_THREADS" and "m_last_nodes s tid \<noteq> []" and "i = n"
    and "Suc n < OMP_RACER_NUM_GRAPH_NODES" and "is_node s p"
    and "s' = s\<lparr>m_last_allocated_node := Suc n,
                m_tgraph_nodes := add_child (mode s) ty p n (m_tgraph_nodes s)\<rparr>"
proof -
  have fresh: "m_tgraph_nodes s n = zero_node"
    using wf_graphD(5) [OF wf_stateD(1) [OF wf]] by (simp add: n_def)
  from run have a: "tid < NUM_THREADS" "m_last_nodes s tid \<noteq> []" "i = n"
      "Suc n < OMP_RACER_NUM_GRAPH_NODES"
    by (auto simp: new_child_def m_create_node_def m_set_nodeparent_info_def stack_back_Inr
        n_def Let_def update_node_def split: if_splits)
  show "tid < NUM_THREADS" "m_last_nodes s tid \<noteq> []" "i = n"
    "Suc n < OMP_RACER_NUM_GRAPH_NODES" by (fact a)+
  show node: "is_node s p"
    using wf_stateD(3) [OF wf, of tid] a(2) by (auto simp: wf_stack_def p_def)
  then have pn: "p \<noteq> n" by (simp add: is_node_def n_def)
  from run show "s' = s\<lparr>m_last_allocated_node := Suc n,
                m_tgraph_nodes := add_child (mode s) ty p n (m_tgraph_nodes s)\<rparr>"
    using fresh pn
    by (cases "mode s")
      (auto simp: new_child_def m_create_node_def m_set_nodeparent_info_def stack_back_def
        n_def p_def Let_def update_node_def add_child_def child_node_def fun_eq_iff
        init_node_precise_def init_node_fast_def zero_node_def split: if_splits)
qed

text \<open>\<open>ready k\<close>: after \<open>k\<close> more pops the back of the stack can take a child.\<close>

definition ready :: "nat \<Rightarrow> nat \<Rightarrow> 'a detector_scheme \<Rightarrow> bool" where
  "ready tid k s \<longleftrightarrow> k < length (m_last_nodes s tid) \<longrightarrow> type_of s (nth_top (m_last_nodes s tid) k) \<noteq> WORK"

definition step_on_top :: "nat \<Rightarrow> 'a detector_scheme \<Rightarrow> bool" where
  "step_on_top tid s \<longleftrightarrow> m_last_nodes s tid \<noteq> [] \<and> type_of s (last (m_last_nodes s tid)) = WORK"

lemma ready_0: "ready tid 0 s = attachable tid s"
  by (auto simp: ready_def attachable_def last_nth_top)

lemma step_on_top_ready:
  assumes "wf_state s" and "step_on_top tid s"
  shows "ready tid 1 s"
proof -
  let ?xs = "m_last_nodes s tid"
  have "type_of s (nth_top ?xs 1) \<noteq> WORK" if "1 < length ?xs"
  proof -
    have bl: "butlast ?xs \<noteq> []" using that by (cases ?xs rule: rev_cases) auto
    have "stacked s (last (butlast ?xs)) (last ?xs)"
      using successively_last_two [OF _ bl] wf_stateD(3) [OF assms(1), of tid]
      by (auto simp: wf_stack_def)
    then have "type_of s (last (butlast ?xs)) \<noteq> WORK"
      using assms(2) by (auto simp: stacked_def step_on_top_def)
    moreover have "last (butlast ?xs) = nth_top ?xs 1"
      using that bl by (simp add: last_nth_top)
    ultimately show ?thesis by simp
  qed
  then show ?thesis by (simp add: ready_def)
qed

text \<open>The assertion the preservation proofs carry along.\<close>

definition evolves :: "'a detector_scheme \<Rightarrow> 'a detector_scheme \<Rightarrow> bool" where
  "evolves s0 s \<longleftrightarrow> wf_state s \<and> extends s0 s"

lemma evolves_refl: "wf_state s \<Longrightarrow> evolves s s"
  by (simp add: evolves_def)

lemma evolvesI:
  "evolves s0 s \<Longrightarrow> wf_state s' \<Longrightarrow> extends s s' \<Longrightarrow> evolves s0 s'"
  by (auto simp: evolves_def intro: extends_trans)

lemma wf_state_same_graph:
  assumes "wf_state s" and "m_tgraph_nodes s' = m_tgraph_nodes s"
    and "m_last_allocated_node s' = m_last_allocated_node s" and "mode s' = mode s"
    and "set (m_pending_finish s) \<subseteq> set (m_pending_finish s')"
    and "\<And>t. wf_stack s (m_last_nodes s' t)" and "wf_handles s'"
  shows "wf_state s' \<and> extends s s'"
proof -
  have e: "extends s s'" using assms(2-5) by (simp add: extends_def)
  then show ?thesis
    using assms wf_stack_extends [OF assms(6) e] by (simp add: wf_state_def)
qed

lemma wf_handles_cong:
  assumes "wf_handles s" and "m_tgraph_nodes s' = m_tgraph_nodes s"
    and "m_last_allocated_node s' = m_last_allocated_node s"
    and "m_par_finish_index s' = m_par_finish_index s"
    and "m_pending_finish s' = m_pending_finish s" and "m_task_map s' = m_task_map s"
  shows "wf_handles s'"
  using assms by (simp add: wf_handles_def is_node_def)

lemma wf_pop_back:
  assumes "wf_state s" and "pop_back tid s = Inr s'"
  shows "wf_state s' \<and> extends s s'"
proof (rule wf_state_same_graph [OF assms(1)])
  fix t
  show "wf_stack s (m_last_nodes s' t)"
    using wf_stateD(3) [OF assms(1), of t] assms(2)
    by (auto simp: pop_back_Inr wf_stack_def successively_butlast dest: in_set_butlastD)
  show "wf_handles s'"
    by (rule wf_handles_cong [OF wf_stateD(4) [OF assms(1)]])
      (use assms(2) in \<open>auto simp: pop_back_Inr\<close>)
qed (use assms(2) in \<open>auto simp: pop_back_Inr\<close>)

text \<open>A \<open>SERIES\<close> node is pushed on its parent, or it is the finish node of a phase.\<close>

definition linked :: "nat \<Rightarrow> nat \<Rightarrow> 'a detector_scheme \<Rightarrow> bool" where
  "linked x tid s \<longleftrightarrow> type_of s x = SERIES \<and> m_last_nodes s tid \<noteq> [] \<longrightarrow>
     x \<in> set (m_pending_finish s) \<or> m_parent (m_tgraph_nodes s x) = last (m_last_nodes s tid)"

lemma linked_not_series: "type_of s x \<noteq> SERIES \<Longrightarrow> linked x tid s"
  by (simp add: linked_def)

lemma wf_push_back:
  assumes "wf_state s" and "is_node s x" and "type_of s x = WORK \<Longrightarrow> attachable tid s"
    and "linked x tid s" and "push_back x tid s = Inr s'"
  shows "wf_state s' \<and> extends s s'"
proof (rule wf_state_same_graph [OF assms(1)])
  fix t
  show "wf_stack s (m_last_nodes s' t)"
    using wf_stateD(3) [OF assms(1), of t] assms(2-5)
    by (auto simp: push_back_Inr wf_stack_def successively_snoc attachable_def stacked_def linked_def)
  show "wf_handles s'"
    by (rule wf_handles_cong [OF wf_stateD(4) [OF assms(1)]])
      (use assms(5) in \<open>auto simp: push_back_Inr\<close>)
qed (use assms(5) in \<open>auto simp: push_back_Inr\<close>)

lemma wf_new_child:
  assumes wf: "wf_state s" and att: "attachable tid s" and ty: "ty \<noteq> NO_TYPE"
    and run: "new_child ty tid s = Inr (i, s')"
  shows "wf_state s'" and "extends s s'" and "is_node s' i" and "type_of s' i = ty"
    and "m_last_nodes s' = m_last_nodes s" and "linked i tid s'"
    and "\<not> m_finish_flag (m_tgraph_nodes s' i)"
proof -
  let ?n = "m_last_allocated_node s" and ?p = "last (m_last_nodes s tid)"
  let ?g = "m_tgraph_nodes s"
  note r = new_child_Inr [OF wf run]
  have p: "1 \<le> ?p" "?p < ?n" "?p \<noteq> ?n" using r(5) by (auto simp: is_node_def)
  have pw: "m_type (?g ?p) \<noteq> WORK" using att r(2) by (simp add: attachable_def)
  have "wf_graph (add_child (mode s) ty ?p ?n ?g) (Suc ?n)"
    by (rule wf_graph_add_child [OF wf_stateD(1) [OF wf] p(1,2) pw ty])
  then have g: "wf_graph (m_tgraph_nodes s') (m_last_allocated_node s')" using r(6) by simp
  note f = add_child_fields [OF p(3), where md = "mode s" and ty = ty and g = ?g]
  have e: "extends s s'"
    unfolding extends_def using r(6) by (auto simp: is_node_def f(3-7))
  show "extends s s'" by (fact e)
  show "is_node s' i" using r(3,6) p by (simp add: is_node_def)
  show "type_of s' i = ty" using r(3,6) p by (simp add: f(1))
  show ls: "m_last_nodes s' = m_last_nodes s" using r(6) by simp
  show "linked i tid s'" using r(3,6) p by (simp add: linked_def f(1) add_child_def)
  show "\<not> m_finish_flag (m_tgraph_nodes s' i)" using r(3,6) p by (simp add: f(1))
  have "wf_handles s'"
    by (rule wf_handles_extends [OF wf_stateD(4) [OF wf] e]) (use r(6) in auto)
  moreover have "wf_stack s' (m_last_nodes s' t)" for t
    using wf_stack_extends [OF wf_stateD(3) [OF wf] e] ls by simp
  ultimately show "wf_state s'"
    using g r(4,6) by (simp add: wf_state_def)
qed

section \<open>Triples for the primitive operations\<close>

lemma ready_pop_back:
  assumes "pop_back tid s = Inr s'" and "ready tid (Suc k) s"
  shows "ready tid k s'"
  using assms by (auto simp: pop_back_Inr ready_def)

lemma triple_pop_back: "triple (evolves s0) (pop_back tid) (evolves s0)"
  by (rule tripleI) (meson evolves_def evolvesI wf_pop_back)

lemma triple_pop_back_ready:
  "triple (\<lambda>s. evolves s0 s \<and> ready tid (Suc k) s) (pop_back tid)
     (\<lambda>s. evolves s0 s \<and> ready tid k s)"
  by (rule tripleI) (meson ready_pop_back tripleD triple_pop_back)

lemma triple_pop_step: "triple (evolves s0) (m_pop_step_node tid) (evolves s0)"
  using triple_pop_back by (simp add: triple_def m_pop_step_node_eq)

lemma triple_pop_step_ready:
  "triple (\<lambda>s. evolves s0 s \<and> ready tid (Suc k) s) (m_pop_step_node tid)
     (\<lambda>s. evolves s0 s \<and> ready tid k s)"
  using triple_pop_back_ready by (simp add: triple_def m_pop_step_node_eq)

lemma triple_pop_step_top:
  "triple (\<lambda>s. evolves s0 s \<and> step_on_top tid s) (m_pop_step_node tid)
     (\<lambda>s. evolves s0 s \<and> ready tid 0 s)"
  by (rule triple_conseq [OF triple_pop_step_ready])
    (auto simp: evolves_def dest: step_on_top_ready)

lemma evolves_new_child:
  assumes "evolves s0 s" and "ready tid 0 s" and "ty \<noteq> NO_TYPE"
    and "new_child ty tid s = Inr (i, s')"
  shows "evolves s0 s'" and "is_node s' i" and "type_of s' i = ty" and "ready tid 0 s'"
    and "linked i tid s'" and "\<not> m_finish_flag (m_tgraph_nodes s' i)"
proof -
  have wf: "wf_state s" using assms(1) by (simp add: evolves_def)
  note n = wf_new_child [OF wf assms(2) [unfolded ready_0] assms(3,4)]
  show "evolves s0 s'" "is_node s' i" "type_of s' i = ty" "linked i tid s'"
    "\<not> m_finish_flag (m_tgraph_nodes s' i)"
    using evolvesI [OF assms(1) n(1,2)] n(3,4,6,7) by simp_all
  have "is_node s (last (m_last_nodes s tid))" and "m_last_nodes s tid \<noteq> []"
    using new_child_Inr(2,5) [OF wf assms(4)] by simp_all
  then show "ready tid 0 s'"
    using assms(2) n(5) extends_type [OF n(2)] by (simp add: ready_0 attachable_def)
qed

lemma new_child_parent:
  assumes "wf_state s" and "new_child ty tid s = Inr (i, s')"
  shows "m_parent (m_tgraph_nodes s' i) = last (m_last_nodes s tid)" and "i \<notin> set (m_pending_finish s)"
proof -
  note r = new_child_Inr [OF assms]
  show "m_parent (m_tgraph_nodes s' i) = last (m_last_nodes s tid)"
    using r(3,5,6) by (simp add: add_child_def is_node_def)
  show "i \<notin> set (m_pending_finish s)"
    using r(3) wf_stateD(4) [OF assms(1)] by (auto simp: wf_handles_def is_node_def)
qed

lemma evolves_push_back:
  assumes "evolves s0 s" and "is_node s x" and "type_of s x = WORK \<Longrightarrow> ready tid 0 s"
    and "linked x tid s" and "push_back x tid s = Inr s'"
  shows "evolves s0 s'" and "type_of s x \<noteq> WORK \<Longrightarrow> ready tid 0 s'"
proof -
  show "evolves s0 s'"
    using assms wf_push_back [of s x tid s'] evolvesI by (auto simp: evolves_def ready_0)
  show "type_of s x \<noteq> WORK \<Longrightarrow> ready tid 0 s'"
    using assms(5) by (auto simp: push_back_Inr ready_0 attachable_def)
qed

lemma triple_push_new_node:
  assumes "ty \<noteq> NO_TYPE" "ty \<noteq> WORK"
  shows "triple (\<lambda>s. evolves s0 s \<and> ready tid 0 s) (push_new_node ty tid)
     (\<lambda>s. evolves s0 s \<and> ready tid 0 s)"
proof (rule tripleI)
  fix s s' assume pre: "evolves s0 s \<and> ready tid 0 s" and "push_new_node ty tid s = Inr s'"
  then obtain i t where i: "new_child ty tid s = Inr (i, t)" and p: "push_back i tid t = Inr s'"
    by (auto simp: push_new_node_def)
  note n = evolves_new_child [OF conjunct1 [OF pre] conjunct2 [OF pre] assms(1) i]
  show "evolves s0 s' \<and> ready tid 0 s'"
    using evolves_push_back [OF n(1,2) _ n(5) p] n(3) assms(2) by simp
qed

lemma triple_add_step:
  "triple (\<lambda>s. evolves s0 s \<and> ready tid 0 s) (m_add_step_node tid) (evolves s0)"
proof (rule tripleI)
  fix s s' assume pre: "evolves s0 s \<and> ready tid 0 s" and "m_add_step_node tid s = Inr s'"
  then obtain i t where i: "new_child WORK tid s = Inr (i, t)" and p: "push_back i tid t = Inr s'"
    by (auto simp: m_add_step_node_eq push_new_node_def)
  note n = evolves_new_child [OF conjunct1 [OF pre] conjunct2 [OF pre] _ i]
  show "evolves s0 s'"
    using evolves_push_back(1) [OF n(1,2) _ n(5) p] n(4) by simp
qed

lemma m_cleanup_finish_node_Inr:
  assumes "m_cleanup_finish_node tid s = Inr s'"
  shows "m_last_nodes s tid \<noteq> []" and
    "m_finish_flag (m_tgraph_nodes s (last (m_last_nodes s tid))) \<Longrightarrow>
       \<exists>b. pop_back tid (s\<lparr>taskwaits_nested := b\<rparr>) = Inr s'" and
    "\<not> m_finish_flag (m_tgraph_nodes s (last (m_last_nodes s tid))) \<Longrightarrow> s' = s"
proof -
  let ?i = "last (m_last_nodes s tid)"
  let ?clear = "mode s = Precise \<and> nested_check s \<and> st_val (m_tgraph_nodes s ?i) \<noteq> -1"
  show "m_last_nodes s tid \<noteq> []" and "\<not> m_finish_flag (m_tgraph_nodes s ?i) \<Longrightarrow> s' = s"
    using assms by (auto simp: m_cleanup_finish_node_def stack_back_Inr split: if_splits)
  assume "m_finish_flag (m_tgraph_nodes s ?i)"
  then have "pop_back tid (if ?clear then s\<lparr>taskwaits_nested := False\<rparr> else s) = Inr s'"
    using assms by (auto simp: m_cleanup_finish_node_def stack_back_Inr)
  then have "pop_back tid (s\<lparr>taskwaits_nested := (if ?clear then False else taskwaits_nested s)\<rparr>)
      = Inr s'"
    by (auto split: if_splits)
  then show "\<exists>b. pop_back tid (s\<lparr>taskwaits_nested := b\<rparr>) = Inr s'" by blast
qed

lemma evolves_taskwaits_nested: "evolves s0 s \<Longrightarrow> evolves s0 (s\<lparr>taskwaits_nested := b\<rparr>)"
  by (auto simp: evolves_def extends_def is_node_def wf_state_def wf_stack_def wf_handles_def
      stacked_def cong: successively_cong)

text \<open>\<open>top_flag\<close> is 1 when the node \<open>k\<close> places below the back is an ST-node, which
  \<open>m_cleanup_finish_node\<close> pops.\<close>

definition st_node_at :: "nat \<Rightarrow> nat \<Rightarrow> 'a detector_scheme \<Rightarrow> nat" where
  "st_node_at tid k s =
     (if k < length (m_last_nodes s tid) \<and>
         m_finish_flag (m_tgraph_nodes s (nth_top (m_last_nodes s tid) k)) then 1 else 0)"

lemma triple_cleanup:
  "triple (\<lambda>s. evolves s0 s \<and> ready tid (k + st_node_at tid 0 s) s) (m_cleanup_finish_node tid)
     (\<lambda>s. evolves s0 s \<and> ready tid k s)"
proof (rule tripleI)
  fix s s'
  assume pre: "evolves s0 s \<and> ready tid (k + st_node_at tid 0 s) s"
    and run: "m_cleanup_finish_node tid s = Inr s'"
  note c = m_cleanup_finish_node_Inr [OF run]
  show "evolves s0 s' \<and> ready tid k s'"
  proof (cases "m_finish_flag (m_tgraph_nodes s (last (m_last_nodes s tid)))")
    case True
    then obtain b where b: "pop_back tid (s\<lparr>taskwaits_nested := b\<rparr>) = Inr s'" using c(2) by blast
    have "ready tid (Suc k) (s\<lparr>taskwaits_nested := b\<rparr>)"
      using pre c(1) True by (auto simp: ready_def st_node_at_def last_nth_top)
    then show ?thesis
      using tripleD [OF triple_pop_back_ready _ b] pre evolves_taskwaits_nested by blast
  next
    case False
    then show ?thesis using pre c(1,3) by (auto simp: st_node_at_def last_nth_top)
  qed
qed

lemma triple_pop_step_cleanup:
  "triple (\<lambda>s. evolves s0 s \<and> ready tid (Suc k + st_node_at tid 1 s) s)
     (block [m_pop_step_node tid, m_cleanup_finish_node tid])
     (\<lambda>s. evolves s0 s \<and> ready tid k s)"
proof (rule triple_block_Cons [OF tripleI triple_block_single [OF triple_cleanup]])
  fix s s'
  assume pre: "evolves s0 s \<and> ready tid (Suc k + st_node_at tid 1 s) s"
    and run: "m_pop_step_node tid s = Inr s'"
  have "st_node_at tid 0 s' = st_node_at tid 1 s"
    using run by (auto simp: m_pop_step_node_eq pop_back_Inr st_node_at_def)
  then show "evolves s0 s' \<and> ready tid (k + st_node_at tid 0 s') s'"
    using pre tripleD [OF triple_pop_step_ready _ run, of s0 "k + st_node_at tid 1 s"] by simp
qed

lemma triple_cleanup_any: "triple (evolves s0) (m_cleanup_finish_node tid) (evolves s0)"
proof (rule tripleI)
  fix s s' assume pre: "evolves s0 s" and run: "m_cleanup_finish_node tid s = Inr s'"
  note c = m_cleanup_finish_node_Inr [OF run]
  show "evolves s0 s'"
    using c(2,3) pre evolves_taskwaits_nested tripleD [OF triple_pop_back] by blast
qed

lemma evolves_update_node:
  assumes "evolves s0 s" and "is_node s i" and "same_tree (f (m_tgraph_nodes s i)) (m_tgraph_nodes s i)"
    and "m_task_id (f (m_tgraph_nodes s i)) = m_task_id (m_tgraph_nodes s i) \<or> type_of s i = PARALLEL"
    and "m_finish_flag (f (m_tgraph_nodes s i)) = m_finish_flag (m_tgraph_nodes s i)"
    and "dependencies (f (m_tgraph_nodes s i)) = dependencies (m_tgraph_nodes s i)"
  shows "evolves s0 (update_node i f s)"
proof -
  let ?s = "update_node i f s"
  have wf: "wf_state s" and g: "wf_graph (m_tgraph_nodes s) (m_last_allocated_node s)"
    using assms(1) by (auto simp: evolves_def wf_state_def)
  have ty: "m_type (f (m_tgraph_nodes s i)) = type_of s i"
    using assms(3) by (simp add: same_tree_def)
  have "wf_graph ((m_tgraph_nodes s)(i := f (m_tgraph_nodes s i))) (m_last_allocated_node s)"
  proof (rule wf_graph_same_tree [OF g _ _ assms(3)])
    show "m_finish_flag (f (m_tgraph_nodes s i)) \<Longrightarrow> m_type (f (m_tgraph_nodes s i)) = SERIES"
      using assms(5) wf_graphD(9) [OF g, of i] ty by auto
    show "i = 1 \<Longrightarrow> \<not> m_finish_flag (f (m_tgraph_nodes s i))"
      using assms(5) wf_graphD(2) [OF g] by (auto simp: wf_root_def)
    show "m_task_id (f (m_tgraph_nodes s i)) \<noteq> 0 \<Longrightarrow> m_type (f (m_tgraph_nodes s i)) = PARALLEL"
      using assms(4) wf_graphD(8) [OF g, of i] ty by auto
  qed (use assms(2,6) wf_graphD(10) [OF g] in \<open>auto simp: is_node_def\<close>)
  then have "wf_graph (m_tgraph_nodes ?s) (m_last_allocated_node ?s)"
    by (simp add: update_node_def)
  moreover have e: "extends s ?s"
    using assms(3,5) by (auto simp: extends_def update_node_def same_tree_def)
  moreover have "wf_handles ?s"
    by (rule wf_handles_extends [OF wf_stateD(4) [OF wf] e]) (auto simp: update_node_def)
  moreover have "wf_stack ?s (m_last_nodes ?s t)" for t
    using wf_stack_extends [OF wf_stateD(3) [OF wf] e] by (simp add: update_node_def)
  ultimately show ?thesis
    using wf_stateD(2) [OF wf] evolvesI [OF assms(1)] by (simp add: wf_state_def update_node_def)
qed

section \<open>The protocol\<close>

fun allowed :: "callback \<Rightarrow> 'a detector_scheme \<Rightarrow> bool" where
  "allowed (Thread_begin t) s = True"
| "allowed (Thread_end t) s = True"
| "allowed (Parallel_begin procs t n) s = step_on_top t s"
| "allowed (Parallel_end t) s = ready t 1 s"
| "allowed (Master_begin t) s = step_on_top t s"
| "allowed (Master_end t) s = step_on_top t s"
| "allowed (Single_begin t) s = True"
| "allowed (Single_end t) s = True"
| "allowed (Loop_begin t) s = True"
| "allowed (Loop_end t) s = (m_first_dispatch s t = 1 \<or> ready t 2 s)"
| "allowed (Loop_chunk t) s = (step_on_top t s \<and> (m_first_dispatch s t = 1 \<or> ready t 2 s))"
| "allowed (Section_begin t) s = step_on_top t s"
| "allowed (Section_end t) s = ready t 2 s"
| "allowed (Task_dependences t i ds) s = (m_task_map s i \<noteq> None)"
| "allowed (Task_begin t i) s = (m_task_map s i \<noteq> None)"
| "allowed (Task_end t) s = step_on_top t s"
| "allowed (Implicit_task_begin t) s = (if t = 0 then ready t 0 s else m_last_nodes s t = [])"
| "allowed (Implicit_task_end t) s = step_on_top t s"
| "allowed (Barrier_begin t) s = (step_on_top t s \<and> ready t (3 + st_node_at t 1 s) s)"
| "allowed (Barrier_end t) s = ready t 0 s"
| "allowed (Taskwait_begin t) s = step_on_top t s"
| "allowed (Taskwait_end t) s = ready t (st_node_at t 0 s) s"
| "allowed (Task_alloc t i d) s = step_on_top t s"
| "allowed (Taskgroup_begin t) s = (step_on_top t s \<and> ready t (1 + st_node_at t 1 s) s)"
| "allowed (Taskgroup_end t) s = ready t (2 + st_node_at t 1 s) s"

abbreviation keeps :: "('a detector_scheme \<Rightarrow> bool) \<Rightarrow> ('a detector_scheme \<Rightarrow> 'a detector_scheme result) \<Rightarrow> bool"
  where "keeps guard f \<equiv> (\<forall>s0. triple (\<lambda>s. evolves s0 s \<and> guard s) f (evolves s0))"

text \<open>Changing a field the invariant does not speak of.\<close>

lemma evolves_same_graph:
  assumes "evolves s0 s" and "m_tgraph_nodes s' = m_tgraph_nodes s"
    and "m_last_allocated_node s' = m_last_allocated_node s" and "mode s' = mode s"
    and "m_last_nodes s' = m_last_nodes s"
    and "set (m_pending_finish s) \<subseteq> set (m_pending_finish s')" and "wf_handles s'"
  shows "evolves s0 s'"
  by (rule evolvesI [OF assms(1)])
    (use assms wf_state_same_graph [of s s'] in \<open>auto simp: evolves_def wf_stateD\<close>)

lemma evolves_wf_handles: "evolves s0 s \<Longrightarrow> wf_handles s"
  by (simp add: evolves_def wf_state_def)

lemma evolves_cong:
  assumes "evolves s0 s" and "m_tgraph_nodes s' = m_tgraph_nodes s"
    and "m_last_allocated_node s' = m_last_allocated_node s" and "mode s' = mode s"
    and "m_last_nodes s' = m_last_nodes s"
    and "m_par_finish_index s' = m_par_finish_index s"
    and "m_pending_finish s' = m_pending_finish s" and "m_task_map s' = m_task_map s"
  shows "evolves s0 s'"
  by (rule evolves_same_graph [OF assms(1-5)])
    (use wf_handles_cong [OF evolves_wf_handles [OF assms(1)] assms(2,3,6-8)] assms(7) in simp_all)

lemma keeps_master_begin [keeps_callbacks]: "keeps (step_on_top t) (m_capture_master_begin t)"
  unfolding m_capture_master_begin_def
  by (intro allI triple_block_Cons [OF triple_pop_step_top] triple_block_single [OF triple_add_step])

lemma keeps_master_end [keeps_callbacks]: "keeps (step_on_top t) (m_capture_master_end t)"
  unfolding m_capture_master_end_def
  by (intro allI triple_block_Cons [OF triple_pop_step_top] triple_block_single [OF triple_add_step])

lemma triple_pop_frame:
  "triple (\<lambda>s. evolves s0 s \<and> ready t 2 s)
     (block [m_pop_step_node t, pop_back t, m_add_step_node t]) (evolves s0)"
  unfolding numeral_2_eq_2
  by (intro triple_block_Cons [OF triple_pop_step_ready] triple_block_Cons [OF triple_pop_back_ready]
      triple_block_single [OF triple_add_step])

lemma triple_open_frame:
  "triple (\<lambda>s. evolves s0 s \<and> ready t 0 s)
     (block [push_new_node PARALLEL t, m_add_step_node t]) (evolves s0)"
  by (intro triple_block_Cons [OF triple_push_new_node] triple_block_single [OF triple_add_step])
    simp_all

lemma keeps_section_begin [keeps_callbacks]: "keeps (step_on_top t) (m_capture_section_begin t)"
  unfolding m_capture_section_begin_def
  by (intro allI triple_block_Cons [OF triple_pop_step_top] triple_open_frame)

lemma keeps_section_end [keeps_callbacks]: "keeps (ready t 2) (m_capture_section_end t)"
  unfolding m_capture_section_end_def by (intro allI triple_pop_frame)

lemma keeps_loop_begin [keeps_callbacks]: "keeps (\<lambda>s. True) (m_capture_loop_begin t)"
  by (auto simp: m_capture_loop_begin_def set_first_dispatch_def triple_def
      intro: evolves_cong split: if_splits)

lemma keeps_loop_end [keeps_callbacks]: "keeps (\<lambda>s. m_first_dispatch s t = 1 \<or> ready t 2 s) (m_capture_loop_end t)"
proof (intro allI tripleI)
  fix s0 s s'
  assume pre: "evolves s0 s \<and> (m_first_dispatch s t = 1 \<or> ready t 2 s)"
    and run: "m_capture_loop_end t s = Inr s'"
  show "evolves s0 s'"
  proof (cases "m_first_dispatch s t = 1")
    case True
    then show ?thesis using pre run by (auto simp: m_capture_loop_end_def split: if_splits)
  next
    case False
    then have "block [m_pop_step_node t, pop_back t, m_add_step_node t] s = Inr s'"
      using run unfolding m_capture_loop_end_def by (simp split: if_splits)
    then show ?thesis using pre False tripleD [OF triple_pop_frame] by blast
  qed
qed

lemma keeps_loop_chunk [keeps_callbacks]:
  "keeps (\<lambda>s. step_on_top t s \<and> (m_first_dispatch s t = 1 \<or> ready t 2 s)) (m_capture_loop_chunk t)"
proof (intro allI tripleI)
  fix s0 s s'
  assume pre: "evolves s0 s \<and> step_on_top t s \<and> (m_first_dispatch s t = 1 \<or> ready t 2 s)"
    and run: "m_capture_loop_chunk t s = Inr s'"
  let ?first = "block [set_first_dispatch 0 t, m_pop_step_node t] s"
  let ?later = "block [m_pop_step_node t, pop_back t] s"
  have "and_then (if m_first_dispatch s t = 1 then ?first else ?later)
      (block [push_new_node PARALLEL t, m_add_step_node t]) = Inr s'"
    using run by (cases "t \<ge> NUM_THREADS")
      (simp_all only: m_capture_loop_chunk_def if_True if_False sum.distinct)
  then obtain u where
    u: "(if m_first_dispatch s t = 1 then ?first else ?later) = Inr u"
    and rest: "block [push_new_node PARALLEL t, m_add_step_node t] u = Inr s'"
    by (rule and_then_InrE)
  have "evolves s0 u \<and> ready t 0 u"
  proof (cases "m_first_dispatch s t = 1")
    case True
    then obtain v where v: "set_first_dispatch 0 t s = Inr v" and "m_pop_step_node t v = Inr u"
      using u by auto
    moreover have "evolves s0 v" "step_on_top t v"
      using v pre by (auto simp: set_first_dispatch_def step_on_top_def intro: evolves_cong
          split: if_splits)
    ultimately show ?thesis using tripleD [OF triple_pop_step_top] by blast
  next
    case False
    moreover have "triple (\<lambda>s. evolves s0 s \<and> ready t 2 s) (block [m_pop_step_node t, pop_back t])
        (\<lambda>s. evolves s0 s \<and> ready t 0 s)"
      unfolding numeral_2_eq_2
      by (intro triple_block_Cons [OF triple_pop_step_ready] triple_block_single
          [OF triple_pop_back_ready])
    ultimately show ?thesis using u pre unfolding triple_def by metis
  qed
  then show "evolves s0 s'" using rest tripleD [OF triple_open_frame] by blast
qed

lemma keeps_parallel_begin [keeps_callbacks]: "keeps (step_on_top t) (m_capture_parallel_begin procs t n)"
proof (intro allI tripleI)
  fix s0 s s'
  assume pre: "evolves s0 s \<and> step_on_top t s"
    and run: "m_capture_parallel_begin procs t n s = Inr s'"
  from run obtain u f v v' f' w w' where
    u: "m_pop_step_node t s = Inr u" and
    f: "new_child SERIES t (u\<lparr>m_num_threads := (if n > 0 then n else procs)\<rparr>) = Inr (f, v)" and
    v: "push_back f t v = Inr v'" and
    f': "new_child SERIES t v' = Inr (f', w)" and
    w: "push_back f' t w = Inr w'" and
    s': "s' = w'\<lparr>m_par_finish_index := [f, f'], omprace_in_parallel := True\<rparr>"
    unfolding m_capture_parallel_begin_def Let_def by (auto split: prod.splits)
  have 0: "evolves s0 u" "ready t 0 u"
    using tripleD [OF triple_pop_step_top _ u] pre by blast+
  have 1: "evolves s0 (u\<lparr>m_num_threads := (if n > 0 then n else procs)\<rparr>)"
      "ready t 0 (u\<lparr>m_num_threads := (if n > 0 then n else procs)\<rparr>)"
    using 0 by (auto simp: ready_def intro: evolves_cong)
  note 2 = evolves_new_child [OF 1 _ f, simplified]
  note 3 = evolves_push_back [OF 2(1,2) 2(4) 2(5) v]
  have r3: "ready t 0 v'" using 3(2) 2(3) by simp
  note 4 = evolves_new_child [OF 3(1) r3 _ f', simplified]
  note 5 = evolves_push_back [OF 4(1,2) 4(4) 4(5) w]
  have "extends v w'" "wf_state v" "wf_state w'"
    using 2(1) 3(1) 4(1) 5(1) v w wf_push_back [of v f t v']
      wf_new_child(2) [OF _ r3 [unfolded ready_0] _ f'] wf_push_back [of w f' t w'] 2 3 4
    by (auto simp: evolves_def ready_0 intro: extends_trans)
  moreover have "is_node w' f'" "type_of w' f' = SERIES"
    using 4(2,3) w by (auto simp: push_back_Inr is_node_def)
  moreover have "m_parent (m_tgraph_nodes w' f') = f"
    using new_child_parent [OF _ f'] 3(1) v w by (auto simp: push_back_Inr evolves_def)
  ultimately have "is_node w' f" "type_of w' f = SERIES" "wf_handles w'"
      "m_parent (m_tgraph_nodes w' f') = f" "is_node w' f'" "type_of w' f' = SERIES"
    using 2(2,3) extends_is_node [of v w'] extends_type [of v w'] wf_stateD(4) [of w'] by simp_all
  then have "wf_handles s'"
    unfolding s' wf_handles_def by (auto simp: is_node_def)
  then show "evolves s0 s'"
    using evolves_same_graph [OF 5(1), of s'] s' by simp
qed

lemma keeps_parallel_end [keeps_callbacks]: "keeps (ready t 1) (m_capture_parallel_end t)"
proof (intro allI tripleI)
  fix s0 s s'
  assume pre: "evolves s0 s \<and> ready t 1 s" and run: "m_capture_parallel_end t s = Inr s'"
  from run obtain u where u: "block [pop_back t, m_add_step_node t] s = Inr u"
    and s': "s' = u\<lparr>omprace_in_parallel := False\<rparr>"
    unfolding m_capture_parallel_end_def by (elim and_then_InrE) simp
  have "triple (\<lambda>s. evolves s0 s \<and> ready t 1 s) (block [pop_back t, m_add_step_node t]) (evolves s0)"
    unfolding One_nat_def
    by (intro triple_block_Cons [OF triple_pop_back_ready] triple_block_single [OF triple_add_step])
  then have "evolves s0 u" using u pre unfolding triple_def by blast
  then show "evolves s0 s'" by (rule evolves_cong) (simp_all add: s')
qed

lemma evolves_task_map:
  assumes "evolves s0 s" and "\<And>t x. m t = Some x \<Longrightarrow> is_node s x \<and> type_of s x = PARALLEL"
  shows "evolves s0 (s\<lparr>m_task_map := m\<rparr>)"
  by (rule evolves_same_graph [OF assms(1)])
    (use assms(2) evolves_wf_handles [OF assms(1)] in \<open>auto simp: wf_handles_def is_node_def\<close>)

lemma keeps_task_dependences [keeps_callbacks]:
  "keeps (\<lambda>s. m_task_map s i \<noteq> None) (m_capture_task_dependences t i ds)"
proof (intro allI tripleI)
  fix s0 s s'
  assume pre: "evolves s0 s \<and> m_task_map s i \<noteq> None"
    and run: "m_capture_task_dependences t i ds s = Inr s'"
  have "s' = s \<or> (\<exists>m. s' = s\<lparr>m_task_dependencies := m\<rparr>)"
    using pre run by (auto simp: m_capture_task_dependences_def Let_def split: if_splits)
  then show "evolves s0 s'" using pre by (auto intro: evolves_cong)
qed

lemma keeps_task_begin [keeps_callbacks]: "keeps (\<lambda>s. m_task_map s i \<noteq> None) (m_capture_task_begin t i)"
proof (intro allI tripleI)
  fix s0 s s'
  assume pre: "evolves s0 s \<and> m_task_map s i \<noteq> None"
    and run: "m_capture_task_begin t i s = Inr s'"
  then obtain a where a: "m_task_map s i = Some a" by blast
  let ?s = "s\<lparr>m_task_map := (m_task_map s)(i := None)\<rparr>"
  have h: "is_node s a" "type_of s a = PARALLEL"
    using a evolves_wf_handles [OF conjunct1 [OF pre]] by (auto simp: wf_handles_def)
  obtain u where u: "push_back a t ?s = Inr u" "m_add_step_node t u = Inr s'"
    using run a by (auto simp: m_capture_task_begin_def)
  have e: "evolves s0 ?s"
    by (rule evolves_task_map) (use pre evolves_wf_handles [of s0 s] in
        \<open>auto simp: wf_handles_def split: if_splits\<close>)
  have "is_node ?s a" "type_of ?s a = PARALLEL" "type_of ?s a \<noteq> WORK"
    using h by (simp_all add: is_node_def)
  then have "evolves s0 u" "ready t 0 u" using evolves_push_back [OF e _ _ linked_not_series u(1)] by simp_all
  then show "evolves s0 s'" using tripleD [OF triple_add_step _ u(2)] by blast
qed

lemma keeps_task_end [keeps_callbacks]: "keeps (step_on_top t) (m_capture_task_end t)"
proof
  fix s0 :: "'a detector_scheme"
  have "triple (evolves s0) (m_capture_task_end t) (evolves s0)"
    unfolding m_capture_task_end_def
    by (rule triple_block_Cons [OF triple_pop_step triple_block_Cons
          [OF triple_cleanup_any triple_block_single [OF triple_pop_back]]])
  then show "triple (\<lambda>s. evolves s0 s \<and> step_on_top t s) (m_capture_task_end t) (evolves s0)"
    by (rule triple_pre) simp
qed

lemma keeps_taskwait_begin [keeps_callbacks]: "keeps (step_on_top t) (m_capture_taskwait_begin t)"
proof
  fix s0 :: "'a detector_scheme"
  show "triple (\<lambda>s. evolves s0 s \<and> step_on_top t s) (m_capture_taskwait_begin t) (evolves s0)"
    unfolding m_capture_taskwait_begin_def by (rule triple_pre [OF triple_pop_step]) simp
qed

lemma keeps_barrier_end [keeps_callbacks]: "keeps (ready t 0) (m_capture_barrier_end t)"
  unfolding m_capture_barrier_end_def by (intro allI triple_add_step)

lemma keeps_taskgroup_begin [keeps_callbacks]:
  "keeps (\<lambda>s. step_on_top t s \<and> ready t (1 + st_node_at t 1 s) s) (m_capture_taskgroup_begin t)"
proof -
  have "triple (\<lambda>s. evolves s0 s \<and> ready t (Suc 0 + st_node_at t 1 s) s)
      (block ([m_pop_step_node t, m_cleanup_finish_node t] @
              [push_new_node SERIES t, m_add_step_node t])) (evolves s0)" for s0
    by (intro triple_block_append [OF triple_pop_step_cleanup]
        triple_block_Cons [OF triple_push_new_node] triple_block_single [OF triple_add_step])
      simp_all
  then have "triple (\<lambda>s. evolves s0 s \<and> step_on_top t s \<and> ready t (1 + st_node_at t 1 s) s)
      (m_capture_taskgroup_begin t) (evolves s0)" for s0 :: "'a detector_scheme"
    unfolding m_capture_taskgroup_begin_def append.simps by (rule triple_pre) simp
  then show ?thesis by blast
qed

lemma keeps_taskgroup_end [keeps_callbacks]:
  "keeps (\<lambda>s. ready t (2 + st_node_at t 1 s) s) (m_capture_taskgroup_end t)"
proof -
  have look: "triple P (\<lambda>s. and_then (stack_back t s) (\<lambda>logged. Inr s)) P" for P
    by (auto simp: triple_def)
  have "triple (\<lambda>s. evolves s0 s \<and> ready t (Suc (Suc 0) + st_node_at t 1 s) s)
      (block ([m_pop_step_node t, m_cleanup_finish_node t] @
              [\<lambda>s. and_then (stack_back t s) (\<lambda>logged. Inr s), pop_back t, m_add_step_node t]))
      (evolves s0)" for s0
    by (intro triple_block_append [OF triple_pop_step_cleanup] triple_block_Cons [OF look]
        triple_block_Cons [OF triple_pop_back_ready] triple_block_single [OF triple_add_step])
  then have "triple (\<lambda>s. evolves s0 s \<and> ready t (2 + st_node_at t 1 s) s)
      (m_capture_taskgroup_end t) (evolves s0)" for s0 :: "'a detector_scheme"
    unfolding m_capture_taskgroup_end_def append.simps by (rule triple_pre) simp
  then show ?thesis by blast
qed

lemma evolves_st_val: "evolves s0 s \<Longrightarrow> is_node s i \<Longrightarrow>
    evolves s0 (update_node i (\<lambda>nd. nd\<lparr>st_val := v\<rparr>) s)"
  by (rule evolves_update_node) (auto simp: same_tree_def)

lemma keeps_taskwait_end [keeps_callbacks]: "keeps (\<lambda>s. ready t (st_node_at t 0 s) s) (m_capture_taskwait_end t)"
proof (intro allI tripleI)
  fix s0 s s'
  assume pre: "evolves s0 s \<and> ready t (st_node_at t 0 s) s"
    and run: "m_capture_taskwait_end t s = Inr s'"
  let ?top = "last (m_last_nodes s t)"
  let ?s = "update_node ?top (\<lambda>nd. nd\<lparr>st_val := -1\<rparr>) s"
  have cl: "triple (\<lambda>s. evolves s0 s \<and> ready t (0 + st_node_at t 0 s) s)
      (block [m_cleanup_finish_node t, m_add_step_node t]) (evolves s0)"
    by (intro triple_block_Cons [OF triple_cleanup] triple_block_single [OF triple_add_step])
  show "evolves s0 s'"
  proof (cases "mode s = Precise \<and> m_finish_flag (m_tgraph_nodes s ?top)")
    case True
    then have st: "m_last_nodes s t \<noteq> []"
      and blk: "block [m_cleanup_finish_node t, m_add_step_node t] ?s = Inr s'"
      using run by (auto simp: m_capture_taskwait_end_def m_capture_taskwait_end_precise_def
          stack_back_Inr)
    have "is_node s ?top"
      using st pre wf_stateD(3) [of s t] by (auto simp: evolves_def wf_stack_def)
    then have "evolves s0 ?s" using pre evolves_st_val by blast
    moreover have "ready t (0 + st_node_at t 0 ?s) ?s"
      using pre by (auto simp: ready_def st_node_at_def update_node_def)
    ultimately show ?thesis using tripleD [OF cl _ blk] by blast
  next
    case False
    then have "block [m_cleanup_finish_node t, m_add_step_node t] s = Inr s'"
      using run by (cases "mode s") (auto simp: m_capture_taskwait_end_def stack_back_Inr
          m_capture_taskwait_end_precise_def m_capture_taskwait_end_fast_def
          m_cleanup_finish_node_def stack_back_def split: if_splits)
    then show ?thesis using tripleD [OF cl] pre by simp
  qed
qed

lemma triple_pops: "triple (evolves s0) (block (replicate k (pop_back t))) (evolves s0)"
proof (induction k)
  case 0
  then show ?case by (simp add: triple_def)
next
  case (Suc k)
  then show ?case unfolding replicate_Suc by (rule triple_block_Cons [OF triple_pop_back])
qed

lemma keeps_implicit_task_end [keeps_callbacks]: "keeps (step_on_top t) (m_capture_implicit_task_end t)"
proof (intro allI tripleI)
  fix s0 s s'
  assume pre: "evolves s0 s \<and> step_on_top t s" and run: "m_capture_implicit_task_end t s = Inr s'"
  let ?pops = "[m_pop_step_node t, pop_back t, pop_back t] @ (if t \<noteq> 0 then [pop_back t] else [])"
  have blk: "?pops = m_pop_step_node t # replicate (if t \<noteq> 0 then 3 else 2) (pop_back t)"
    by (simp add: numeral_eq_Suc)
  from run obtain u where u: "block ?pops s = Inr u"
    and s': "s' = u\<lparr>m_impl_end_count := m_impl_end_count u + 1\<rparr>"
    unfolding m_capture_implicit_task_end_def by (elim and_then_InrE) simp
  have "evolves s0 u"
    using u pre tripleD [OF triple_block_Cons [OF triple_pop_step triple_pops]] unfolding blk
    by blast
  then show "evolves s0 s'" by (rule evolves_cong) (simp_all add: s')
qed

lemma evolves_push_series:
  assumes "evolves s0 s" and "at (m_par_finish_index s) k = Inr x" and "push_back x t s = Inr s'"
    and "linked x t s"
  shows "evolves s0 s'" and "ready t 0 s'" and "m_par_finish_index s' = m_par_finish_index s"
proof -
  have "x \<in> set (m_par_finish_index s)"
    using assms(2) by (auto simp: at_def split: if_splits)
  then have x: "is_node s x" "type_of s x = SERIES"
    using evolves_wf_handles [OF assms(1)] by (auto simp: wf_handles_def)
  show "evolves s0 s'" "ready t 0 s'"
    using evolves_push_back [OF assms(1) x(1) _ assms(4,3)] x(2) by simp_all
  show "m_par_finish_index s' = m_par_finish_index s" using assms(3) by (auto simp: push_back_Inr)
qed

lemma keeps_implicit_task_begin [keeps_callbacks]:
  "keeps (\<lambda>s. if t = 0 then ready t 0 s else m_last_nodes s t = []) (m_capture_implicit_task_begin t)"
proof (intro allI tripleI)
  fix s0 s s'
  assume pre: "evolves s0 s \<and> (if t = 0 then ready t 0 s else m_last_nodes s t = [])"
    and run: "m_capture_implicit_task_begin t s = Inr s'"
  let ?open = "block [push_new_node PARALLEL t, m_add_step_node t]"
  show "evolves s0 s'"
  proof (cases "t = 0")
    case True
    from run obtain u where u: "u = s\<lparr>m_impl_end_count := 0\<rparr>" and o: "?open u = Inr s'"
      unfolding m_capture_implicit_task_begin_def True
      by (elim and_then_InrE) (auto split: if_splits)
    have "evolves s0 u" using pre by (auto simp: u intro: evolves_cong)
    moreover have "ready t 0 u" using pre True by (simp add: u ready_def)
    ultimately show ?thesis using tripleD [OF triple_open_frame _ o] by blast
  next
    case False
    from run obtain x y u v where x: "at (m_par_finish_index s) 0 = Inr x"
      and u: "push_back x t s = Inr u" and y: "at (m_par_finish_index u) 1 = Inr y"
      and v: "push_back y t u = Inr v" and o: "?open v = Inr s'"
      unfolding m_capture_implicit_task_begin_def using False
      by (elim and_then_InrE) (auto simp del: block.simps)
    have "linked x t s" using pre False by (simp add: linked_def)
    then have eu: "evolves s0 u" "m_par_finish_index u = m_par_finish_index s"
      using evolves_push_series(1,3) [OF _ x u] pre by blast+
    have "linked y t u"
      using evolves_wf_handles [OF eu(1)] eu(2) x y u
      by (auto simp: linked_def at_def wf_handles_def push_back_Inr split: if_splits)
    then have "evolves s0 v" "ready t 0 v" using evolves_push_series [OF eu(1) y v] by blast+
    then show ?thesis using tripleD [OF triple_open_frame _ o] by blast
  qed
qed

lemma evolves_add_pending:
  assumes "evolves s0 s" and "is_node s x" and "type_of s x = SERIES"
    and "\<not> m_finish_flag (m_tgraph_nodes s x)"
  shows "evolves s0 (s\<lparr>m_pending_finish := m_pending_finish s @ [x]\<rparr>)"
  by (rule evolves_same_graph [OF assms(1)])
    (use assms(2-4) evolves_wf_handles [OF assms(1)] in \<open>auto simp: wf_handles_def is_node_def\<close>)

lemma triple_barrier_finish_node:
  "triple (\<lambda>s. evolves s0 s \<and> ready t 0 s) (barrier_finish_node t)
     (\<lambda>s. evolves s0 s \<and> ready t 0 s)"
proof (rule tripleI)
  fix s s' assume pre: "evolves s0 s \<and> ready t 0 s" and run: "barrier_finish_node t s = Inr s'"
  note e = conjunct1 [OF pre] conjunct2 [OF pre]
  show "evolves s0 s' \<and> ready t 0 s'"
  proof (cases "m_barrier_count s t > max_barrier_count t s")
    case True
    then obtain i b c where i: "new_child SERIES t s = Inr (i, b)"
      and c: "push_back i t b = Inr c"
      and vc: "s' = c\<lparr>m_pending_finish := m_pending_finish c @ [i]\<rparr>"
      using run by (auto simp: barrier_finish_node_def)
    note n = evolves_new_child [OF e _ i, simplified]
    have "evolves s0 c" "ready t 0 c" using evolves_push_back [OF n(1,2) _ n(5) c] n(3) by simp_all
    moreover have "is_node c i" "type_of c i = SERIES" "\<not> m_finish_flag (m_tgraph_nodes c i)"
      using n(2,3,6) c by (auto simp: push_back_Inr is_node_def)
    ultimately show ?thesis
      using evolves_add_pending by (auto simp: vc ready_def)
  next
    case False
    then obtain x where x: "at (m_pending_finish s) (m_barrier_count s t - 1) = Inr x"
      and p: "push_back x t s = Inr s'"
      using run by (auto simp: barrier_finish_node_def)
    have "x \<in> set (m_pending_finish s)"
      using x by (auto simp: at_def split: if_splits)
    then have "is_node s x" "type_of s x = SERIES"
      using evolves_wf_handles [OF e(1)] by (auto simp: wf_handles_def)
    moreover have "linked x t s" using \<open>x \<in> set (m_pending_finish s)\<close> by (simp add: linked_def)
    ultimately show ?thesis using evolves_push_back [OF e(1) _ _ _ p] by simp
  qed
qed

lemma keeps_barrier_begin [keeps_callbacks]:
  "keeps (\<lambda>s. step_on_top t s \<and> ready t (3 + st_node_at t 1 s) s) (m_capture_barrier_begin t)"
proof (intro allI tripleI)
  fix s0 s s'
  assume pre: "evolves s0 s \<and> step_on_top t s \<and> ready t (3 + st_node_at t 1 s) s"
    and run: "m_capture_barrier_begin t s = Inr s'"
  from run obtain a where
    a: "block [m_pop_step_node t, m_cleanup_finish_node t, pop_back t, pop_back t] s = Inr a" and
    b: "block [barrier_finish_node t, push_new_node PARALLEL t]
          (a\<lparr>m_barrier_count := (m_barrier_count a)(t := m_barrier_count a t + 1)\<rparr>) = Inr s'"
      (is "block _ ?a = _")
    unfolding m_capture_barrier_begin_def
    by (elim and_then_InrE) (simp del: block.simps split: if_split_asm)
  have pops: "triple (\<lambda>s. evolves s0 s \<and> ready t (Suc 2 + st_node_at t 1 s) s)
      (block ([m_pop_step_node t, m_cleanup_finish_node t] @ [pop_back t, pop_back t]))
      (\<lambda>s. evolves s0 s \<and> ready t 0 s)"
    unfolding numeral_2_eq_2
    by (intro triple_block_append [OF triple_pop_step_cleanup]
        triple_block_Cons [OF triple_pop_back_ready] triple_block_single [OF triple_pop_back_ready])
  have "evolves s0 a \<and> ready t 0 a"
    using tripleD [OF pops, of s a] pre a by (simp del: block.simps)
  then have a': "evolves s0 ?a \<and> ready t 0 ?a"
    by (auto simp: ready_def intro: evolves_cong)
  have open_phase: "triple (\<lambda>s. evolves s0 s \<and> ready t 0 s)
      (block [barrier_finish_node t, push_new_node PARALLEL t]) (\<lambda>s. evolves s0 s \<and> ready t 0 s)"
    by (intro triple_block_Cons [OF triple_barrier_finish_node]
        triple_block_single [OF triple_push_new_node]) simp_all
  show "evolves s0 s'" by (rule conjunct1 [OF tripleD [OF open_phase a' b]])
qed

lemma create_and_link:
  "and_then (m_create_node ty t s) (\<lambda>(i, s). and_then (m_set_nodeparent_info i t s) (k i)) =
   and_then (new_child ty t s) (\<lambda>(i, s). k i s)"
  by (auto simp: new_child_def and_then_def split: sum.splits)

lemma create_number_and_link:
  "and_then (m_create_node ty t s) (\<lambda>(i, s).
     and_then (m_set_nodeparent_info i t (set_task_id d j i s)) (k i)) =
   and_then (new_child ty t s) (\<lambda>(i, s). k i (set_task_id d j i s))"
proof -
  have swap: "m_set_nodeparent_info i t (set_task_id d j i u) =
      and_then (m_set_nodeparent_info i t u) (\<lambda>u. Inr (set_task_id d j i u))" for i u
    by (auto simp: m_set_nodeparent_info_def set_task_id_def update_node_def stack_back_def
        Let_def fun_upd_def fun_eq_iff)
  show ?thesis
    by (cases "m_create_node ty t s") (auto simp: new_child_def swap and_then_assoc)
qed

lemma evolves_set_task_id:
  assumes "evolves s0 s" and "is_node s i" and "type_of s i = PARALLEL"
  shows "evolves s0 (set_task_id d j i s)"
proof (cases d)
  case True
  then show ?thesis
    using evolves_update_node [OF assms(1,2), of "\<lambda>nd. nd\<lparr>m_task_id := j\<rparr>"] assms(3)
    by (simp add: set_task_id_def same_tree_def)
qed (simp add: set_task_id_def assms(1))

lemma set_task_id_fields [simp]:
  "m_last_nodes (set_task_id d j i s) = m_last_nodes s"
  "m_last_allocated_node (set_task_id d j i s) = m_last_allocated_node s"
  "m_task_map (set_task_id d j i s) = m_task_map s"
  "type_of (set_task_id d j i s) k = type_of s k"
  by (simp_all add: set_task_id_def update_node_def)

text \<open>The node of a new task: a \<open>PARALLEL\<close> child of the node on top, registered under the id
  of the task.\<close>

lemma evolves_new_async:
  assumes "evolves s0 s" and "ready t 0 s" and "new_child PARALLEL t s = Inr (i, u)"
    and v_def: "v = set_task_id d j i u"
  shows "evolves s0 (v\<lparr>m_task_map := (m_task_map v)(j \<mapsto> i)\<rparr>)"
    and "ready t 0 (v\<lparr>m_task_map := (m_task_map v)(j \<mapsto> i)\<rparr>)"
proof -
  note n = evolves_new_child [OF assms(1,2) _ assms(3), simplified]
  have "evolves s0 v" unfolding v_def by (rule evolves_set_task_id [OF n(1-3)])
  moreover have "is_node v x \<and> type_of v x = PARALLEL"
    if "((m_task_map v)(j \<mapsto> i)) y = Some x" for x y
    using that n(2,3) evolves_wf_handles [OF n(1)]
    by (auto simp: v_def wf_handles_def is_node_def split: if_splits)
  ultimately show "evolves s0 (v\<lparr>m_task_map := (m_task_map v)(j \<mapsto> i)\<rparr>)"
    by (rule evolves_task_map)
  show "ready t 0 (v\<lparr>m_task_map := (m_task_map v)(j \<mapsto> i)\<rparr>)"
    using n(4) by (simp add: ready_def v_def)
qed

text \<open>The ST-node: a \<open>SERIES\<close> child that gets its flags before it is pushed.\<close>

definition st_flags :: "Node \<Rightarrow> Node" where
  "st_flags nd = nd\<lparr>m_young_ns_child := PARALLEL, m_finish_flag := True\<rparr>"

lemma evolves_new_st_node:
  assumes "evolves s0 u" and "ready t 0 u" and i: "new_child SERIES t u = Inr (i, v)"
    and w: "push_back i t (update_node i st_flags v) = Inr w"
  shows "evolves s0 w" and "ready t 0 w"
proof -
  have wf: "wf_state u" using assms(1) by (simp add: evolves_def)
  note n = wf_new_child [OF wf assms(2) [unfolded ready_0] _ i, simplified]
  note r = new_child_Inr [OF wf i]
  have wx: "m_last_nodes w = (m_last_nodes u)(t := m_last_nodes u t @ [i])"
    "m_tgraph_nodes w = (m_tgraph_nodes v)(i := st_flags (m_tgraph_nodes v i))"
    "m_last_allocated_node w = m_last_allocated_node v" "mode w = mode v"
    "m_pending_finish w = m_pending_finish v" "m_par_finish_index w = m_par_finish_index u"
    "m_task_map w = m_task_map u"
    using w n(5) r(6) by (auto simp: push_back_Inr update_node_def)
  have i1: "i \<noteq> 1" using r(3) wf_graphD(1) [OF wf_stateD(1) [OF wf]] by simp
  have vi: "1 \<le> i" "i < m_last_allocated_node v" using n(3) by (auto simp: is_node_def)
  have g: "wf_graph (m_tgraph_nodes w) (m_last_allocated_node w)"
    unfolding wx
    by (rule wf_graph_same_tree [OF wf_stateD(1) [OF n(1)] vi])
      (use n(4) i1 wf_graphD(8,10) [OF wf_stateD(1) [OF n(1)], of i] in
        \<open>auto simp: same_tree_def st_flags_def\<close>)
  have old: "m_tgraph_nodes w x = m_tgraph_nodes v x" if "is_node u x" for x
    using that r(3) by (simp add: wx is_node_def)
  have e: "extends u w"
    using n(2) old by (simp add: extends_def wx)
  have ti: "type_of w i = SERIES" "is_node w i"
    using n(3,4) by (simp_all add: wx st_flags_def is_node_def)
  have "wf_stack w (m_last_nodes w x)" for x
  proof (cases "x = t")
    case True
    have "m_parent (m_tgraph_nodes w i) = last (m_last_nodes u t)"
      using new_child_parent(1) [OF wf i] by (simp add: wx st_flags_def)
    then show ?thesis
      using True wf_stack_extends [OF wf_stateD(3) [OF wf, of t] e] ti
      by (simp add: wx(1) wf_stack_def successively_snoc stacked_def)
  next
    case False
    then show ?thesis using wf_stack_extends [OF wf_stateD(3) [OF wf] e] by (simp add: wx(1))
  qed
  moreover have "wf_handles w"
    by (rule wf_handles_extends [OF wf_stateD(4) [OF wf] e]) (use r(6) in \<open>auto simp: wx\<close>)
  ultimately have "wf_state w" using g r(4,6) by (simp add: wf_state_def wx)
  then show "evolves s0 w" using evolvesI [OF assms(1) _ e] by simp
  show "ready t 0 w" using ti by (simp add: ready_0 attachable_def wx(1))
qed

lemma keeps_task_alloc [keeps_callbacks]: "keeps (step_on_top t) (m_capture_task_alloc t j d)"
proof (intro allI tripleI)
  fix s0 s s'
  assume pre: "evolves s0 s \<and> step_on_top t s" and run: "m_capture_task_alloc t j d s = Inr s'"
  from run obtain u where u: "m_pop_step_node t s = Inr u"
    unfolding m_capture_task_alloc_def by blast
  let ?top = "last (m_last_nodes u t)"
  let ?reg = "\<lambda>i v. v\<lparr>m_task_map := (m_task_map v)(j \<mapsto> i)\<rparr>"
  have e: "evolves s0 u" "ready t 0 u"
    using tripleD [OF triple_pop_step_top _ u] pre by blast+
  show "evolves s0 s'"
  proof (cases "m_young_ns_child (m_tgraph_nodes u ?top) = PARALLEL")
    case True
    then obtain i v where i: "new_child PARALLEL t u = Inr (i, v)"
      and a: "m_add_step_node t (?reg i (set_task_id d j i v)) = Inr s'"
      using run u unfolding m_capture_task_alloc_def Let_def
      by (auto simp: stack_back_Inr create_and_link split: prod.splits)
    show ?thesis using evolves_new_async [OF e i refl] tripleD [OF triple_add_step _ a] by blast
  next
    case False
    then obtain i v w k x where i: "new_child SERIES t u = Inr (i, v)"
      and w: "push_back i t (update_node i
            st_flags v) = Inr w"
      and k: "new_child PARALLEL t w = Inr (k, x)"
      and a: "m_add_step_node t (?reg k (set_task_id d j k x)) = Inr s'"
      using run u unfolding m_capture_task_alloc_def Let_def
      by (auto simp: stack_back_Inr create_and_link create_number_and_link st_flags_def [abs_def]
          split: prod.splits)
    have "evolves s0 w" "ready t 0 w" using evolves_new_st_node [OF e i w] by blast+
    then show ?thesis using evolves_new_async [OF _ _ k refl] tripleD [OF triple_add_step _ a] by blast
  qed
qed

section \<open>Every callback\<close>

lemma keeps_skip [keeps_callbacks]:
  "keeps (\<lambda>s. True) (m_capture_thread_begin t)" "keeps (\<lambda>s. True) (m_capture_thread_end t)"
  "keeps (\<lambda>s. True) (m_capture_single_begin t)" "keeps (\<lambda>s. True) (m_capture_single_end t)"
  by (simp_all add: triple_def m_capture_thread_begin_def m_capture_thread_end_def
      m_capture_single_begin_def m_capture_single_end_def)

lemma capture_evolves:
  assumes "wf_state s" and "allowed c s" and "capture c s = Inr s'"
  shows "wf_state s'" and "extends s s'"
proof -
  have "triple (\<lambda>u. evolves s u \<and> allowed c u) (capture c) (evolves s)"
    by (cases c; simp only: capture.simps allowed.simps; rule keeps_callbacks [rule_format])
  from tripleD [OF this _ assms(3)] have "evolves s s'"
    using assms evolves_refl [OF assms(1)] by blast
  then show "wf_state s'" and "extends s s'" by (simp_all add: evolves_def)
qed

end
