(* ===== verification/Reachable.thy ===== *)
theory Reachable
  imports Capture_Invariant
begin

text \<open>
  The states a run of the program reaches: the constructor and \<open>m_init_racer\<close>, then callbacks
  that the protocol \<open>allowed\<close> admits, in any order and by any threads. The invariant of
  theory \<open>Capture_Invariant\<close> holds in all of them.
\<close>

definition initial :: "'a detector_scheme \<Rightarrow> bool" where
  "initial s \<longleftrightarrow> m_tgraph_nodes s = (\<lambda>_. zero_node) \<and> m_last_allocated_node s = 1 \<and>
     m_last_nodes s = (\<lambda>_. []) \<and> m_par_finish_index s = [] \<and> m_pending_finish s = [] \<and>
     m_task_map s = Map.empty"

lemma initial_OpenmpRaceDetector: "initial (OpenmpRaceDetector md nc)"
  by (simp add: initial_def OpenmpRaceDetector_def Let_def)

definition fresh_root :: "'a detector_scheme \<Rightarrow> 'a detector_scheme" where
  "fresh_root s =
     s\<lparr>m_last_allocated_node := 2,
       m_tgraph_nodes := (\<lambda>_. zero_node)(1 := zero_node\<lparr>m_type := SERIES\<rparr>)\<rparr>"

lemma m_init_racer_fresh_root:
  assumes "initial s"
  shows "m_init_racer t s = block [push_back 1 t, m_add_step_node t] (fresh_root s)"
proof -
  have "(m_tgraph_nodes s)(1 := f (m_tgraph_nodes s 1)) = (\<lambda>_. zero_node)(1 := f zero_node)" for f
    using assms by (auto simp: initial_def fun_eq_iff)
  then have "update_node 1 f (s\<lparr>m_last_allocated_node := 2\<rparr>) =
      s\<lparr>m_last_allocated_node := 2, m_tgraph_nodes := (\<lambda>_. zero_node)(1 := f zero_node)\<rparr>" for f
    by (simp add: update_node_def)
  then show ?thesis
    using assms by (cases "mode s") (simp_all add: m_init_racer_def m_create_node_def fresh_root_def
        initial_def init_node_precise_def init_node_fast_def zero_node_def Let_def update_node_def
        OMP_RACER_NUM_GRAPH_NODES_def numeral_2_eq_2)
qed

lemma wf_fresh_root:
  assumes "initial s"
  shows "wf_state (fresh_root s)"
proof -
  let ?s = "fresh_root s"
  have "wf_graph (m_tgraph_nodes ?s) (m_last_allocated_node ?s)"
    by (auto simp: fresh_root_def wf_graph_def wf_root_def zero_node_def)
  then show ?thesis using assms
    by (simp add: wf_state_def wf_stack_def wf_handles_def fresh_root_def initial_def
        OMP_RACER_NUM_GRAPH_NODES_def)
qed

lemma m_init_racer_wf:
  assumes "initial s0" and "m_init_racer t s0 = Inr s"
  shows "wf_state s" and "extends (fresh_root s0) s"
proof -
  from assms obtain u where u: "push_back 1 t (fresh_root s0) = Inr u"
    and s: "m_add_step_node t u = Inr s"
    by (auto simp: m_init_racer_fresh_root)
  have e: "evolves (fresh_root s0) (fresh_root s0)" by (rule evolves_refl [OF wf_fresh_root [OF assms(1)]])
  have "is_node (fresh_root s0) 1" "type_of (fresh_root s0) 1 = SERIES"
    by (simp_all add: is_node_def fresh_root_def)
  then have "evolves (fresh_root s0) u \<and> ready t 0 u"
    using evolves_push_back [OF e _ _ _ u] assms(1)
    by (simp add: linked_def fresh_root_def initial_def)
  from tripleD [OF triple_add_step this s]
  show "wf_state s" "extends (fresh_root s0) s" by (simp_all add: evolves_def)
qed

section \<open>Runs\<close>

inductive reachable :: "mode \<Rightarrow> bool \<Rightarrow> detector \<Rightarrow> bool" for md nc where
  start: "m_init_racer t (OpenmpRaceDetector md nc) = Inr s \<Longrightarrow> reachable md nc s"
| step: "reachable md nc s \<Longrightarrow> allowed c s \<Longrightarrow> capture c s = Inr s' \<Longrightarrow> reachable md nc s'"

lemma reachable_wf: "reachable md nc s \<Longrightarrow> wf_state s"
  by (induction rule: reachable.induct) (auto intro: m_init_racer_wf [OF initial_OpenmpRaceDetector] capture_evolves)

text \<open>A list of callbacks, each allowed where it is called.\<close>

fun allowed_run :: "callback list \<Rightarrow> 'a detector_scheme \<Rightarrow> bool" where
  "allowed_run [] s = True"
| "allowed_run (c # cs) s =
     (allowed c s \<and> (case capture c s of Inl e \<Rightarrow> True | Inr s' \<Rightarrow> allowed_run cs s'))"

lemma reachable_mode: "reachable md nc s \<Longrightarrow> mode s = md"
proof (induction rule: reachable.induct)
  case (start t s)
  then show ?case
    using m_init_racer_wf(2) [OF initial_OpenmpRaceDetector start]
    by (simp add: extends_def fresh_root_def OpenmpRaceDetector_def Let_def)
next
  case (step s c s')
  then show ?case
    using capture_evolves(2) [OF reachable_wf [OF step.hyps(1)] step.hyps(2,3)]
    by (simp add: extends_def)
qed

lemma run_callbacks_reachable:
  assumes "reachable md nc s" and "allowed_run cs s" and "run_callbacks cs s = Inr s'"
  shows "reachable md nc s'"
  using assms
proof (induction cs arbitrary: s)
  case Nil
  then show ?case by (simp add: run_callbacks_def)
next
  case (Cons c cs)
  then obtain u where u: "capture c s = Inr u" "run_callbacks cs u = Inr s'"
    by (auto simp: run_callbacks_def)
  have "reachable md nc u" by (rule reachable.step [OF Cons.prems(1) _ u(1)]) (use Cons.prems(2) in simp)
  moreover have "allowed_run cs u" using Cons.prems(2) u(1) by simp
  ultimately show ?case using Cons.IH u(2) by blast
qed

lemma run_callbacks_extends:
  assumes "wf_state s" and "allowed_run cs s" and "run_callbacks cs s = Inr s'"
  shows "wf_state s' \<and> extends s s'"
  using assms
proof (induction cs arbitrary: s)
  case Nil
  then show ?case by (simp add: run_callbacks_def)
next
  case (Cons c cs)
  then obtain u where u: "capture c s = Inr u" "run_callbacks cs u = Inr s'"
    by (auto simp: run_callbacks_def)
  have "wf_state u" "extends s u" using capture_evolves [of s c u] Cons.prems u(1) by simp_all
  moreover have "allowed_run cs u" using Cons.prems(2) u(1) by simp
  ultimately show ?case using Cons.IH [of u] u(2) by (auto intro: extends_trans)
qed

section \<open>Evaluating runs\<close>

text \<open>The equations that evaluate a concrete run of callbacks with the simplifier.\<close>

lemmas racer_eval =
  run_callbacks_def m_init_racer_def m_create_node_def m_set_nodeparent_info_def push_new_node_def
  new_child_def m_add_step_node_def m_pop_step_node_def stack_back_def push_back_def pop_back_def
  m_cleanup_finish_node_def OpenmpRaceDetector_def update_node_def init_node_precise_def
  init_node_fast_def zero_node_def m_capture_thread_begin_def m_capture_thread_end_def
  m_capture_parallel_begin_def m_capture_parallel_end_def m_capture_master_begin_def
  m_capture_master_end_def m_capture_single_begin_def m_capture_single_end_def
  m_capture_loop_begin_def m_capture_loop_end_def m_capture_loop_chunk_def set_first_dispatch_def
  m_capture_section_begin_def m_capture_section_end_def m_capture_task_dependences_def
  m_capture_task_begin_def m_capture_task_end_def m_capture_implicit_task_begin_def
  m_capture_implicit_task_end_def m_capture_barrier_begin_def barrier_finish_node_def
  max_barrier_count_def at_def m_capture_barrier_end_def m_capture_taskwait_begin_def
  m_capture_taskwait_end_def m_capture_taskwait_end_precise_def m_capture_taskwait_end_fast_def
  m_capture_task_alloc_def set_task_id_def m_capture_taskgroup_begin_def
  m_capture_taskgroup_end_def NUM_THREADS_def OMP_RACER_NUM_GRAPH_NODES_def

lemmas protocol_eval = ready_def step_on_top_def st_node_at_def nth_top_def

text \<open>A parallel region of two threads with one barrier, from the first callback to the last.\<close>

definition region_run :: "callback list" where
  "region_run = [Parallel_begin 4 0 2, Implicit_task_begin 0, Implicit_task_begin 1,
     Barrier_begin 0, Barrier_begin 1, Barrier_end 0, Barrier_end 1,
     Implicit_task_end 0, Implicit_task_end 1, Parallel_end 0]"

text \<open>Two tasks of one thread, the second depends on the first; the other thread runs it.\<close>

definition task_run :: "callback list" where
  "task_run = [Parallel_begin 4 0 2, Implicit_task_begin 0, Implicit_task_begin 1,
     Task_alloc 0 7 True, Task_dependences 0 7 [\<lparr>addr = 100, dep_type = dep_out\<rparr>],
     Task_alloc 0 8 True, Task_dependences 0 8 [\<lparr>addr = 100, dep_type = dep_in\<rparr>],
     Task_begin 0 7, Task_end 0, Task_begin 1 8]"

definition run_state :: "mode \<Rightarrow> callback list \<Rightarrow> detector" where
  "run_state md cs =
     (case and_then (m_init_racer 0 (OpenmpRaceDetector md False)) (run_callbacks cs) of
        Inl e \<Rightarrow> OpenmpRaceDetector md False | Inr s \<Rightarrow> s)"

lemma run_state_reachable:
  assumes "m_init_racer 0 (OpenmpRaceDetector md False) = Inr s" and "allowed_run cs s"
    and "run_callbacks cs s = Inr s'"
  shows "reachable md False (run_state md cs)"
  using run_callbacks_reachable [OF reachable.start [OF assms(1)] assms(2,3)] assms(1,3)
  by (simp add: run_state_def)

lemma region_state_reachable: "reachable Fast False (run_state Fast region_run)"
proof -
  obtain s s' where "m_init_racer 0 (OpenmpRaceDetector Fast False) = Inr s"
      "allowed_run region_run s" "run_callbacks region_run s = Inr s'"
    by (simp add: region_run_def racer_eval protocol_eval upt_rec cong: and_then_weak_cong)
  then show ?thesis by (rule run_state_reachable)
qed

lemma task_state_reachable: "reachable md False (run_state md task_run)"
proof -
  obtain s s' where "m_init_racer 0 (OpenmpRaceDetector md False) = Inr s"
      "allowed_run task_run s" "run_callbacks task_run s = Inr s'"
    by (cases md; simp add: task_run_def racer_eval protocol_eval upt_rec cong: and_then_weak_cong)
  then show ?thesis by (rule run_state_reachable)
qed

text \<open>The start of a region of two threads.\<close>

definition team_run :: "callback list" where
  "team_run = [Parallel_begin 4 0 2, Implicit_task_begin 0, Implicit_task_begin 1]"

lemma team_state_reachable: "reachable md False (run_state md team_run)"
proof -
  obtain s s' where "m_init_racer 0 (OpenmpRaceDetector md False) = Inr s"
      "allowed_run team_run s" "run_callbacks team_run s = Inr s'"
    by (cases md; simp add: team_run_def racer_eval protocol_eval upt_rec cong: and_then_weak_cong)
  then show ?thesis by (rule run_state_reachable)
qed

lemma run_state_append:
  assumes "reachable md False (run_state md cs)" and "allowed_run ds (run_state md cs)"
    and "run_callbacks ds (run_state md cs) = Inr s'"
  shows "reachable md False s'"
  using run_callbacks_reachable [OF assms] .

lemmas run_eval = racer_eval protocol_eval run_state_def team_run_def region_run_def task_run_def upt_rec

end
