(* ===== verification/Tree_Order.thy ===== *)
theory Tree_Order
  imports Graph_Invariant
begin

text \<open>
  The order that the graph stands for. Two nodes split at the depth of their least common
  ancestor; the one whose branch has the smaller sequence number is to the left. The left one
  runs before the other when its branch does not start with a \<open>PARALLEL\<close> node, and the two may
  run in parallel when it does. This is the specification that the walk of \<open>m_isparallel\<close> is
  proved against; the definitions speak of the tree only.
\<close>

section \<open>Ancestors\<close>

abbreviation par :: "(nat \<Rightarrow> Node) \<Rightarrow> nat \<Rightarrow> nat" where
  "par g i \<equiv> m_parent (g i)"

fun up :: "(nat \<Rightarrow> Node) \<Rightarrow> nat \<Rightarrow> nat \<Rightarrow> nat" where
  "up g 0 i = i"
| "up g (Suc k) i = up g k (par g i)"

definition at_depth :: "(nat \<Rightarrow> Node) \<Rightarrow> nat \<Rightarrow> nat \<Rightarrow> nat" where
  "at_depth g i d = up g (m_depth (g i) - d) i"

definition under :: "(nat \<Rightarrow> Node) \<Rightarrow> nat \<Rightarrow> nat \<Rightarrow> bool" where
  "under g a x \<longleftrightarrow> m_depth (g x) \<le> m_depth (g a) \<and> at_depth g a (m_depth (g x)) = x"

lemma up_numeral: "up g (numeral k) i = up g (pred_numeral k) (par g i)"
  by (simp add: numeral_eq_Suc)

lemma up_Suc: "up g (Suc k) i = par g (up g k i)"
  by (induction k arbitrary: i) simp_all

lemma up_add: "up g (j + k) i = up g j (up g k i)"
  by (induction k arbitrary: i) simp_all

lemma at_depth_self [simp]: "at_depth g i (m_depth (g i)) = i"
  by (simp add: at_depth_def)

lemma at_depth_Suc:
  assumes "d < m_depth (g i)"
  shows "par g (at_depth g i (Suc d)) = at_depth g i d"
proof -
  have "m_depth (g i) - d = Suc (m_depth (g i) - Suc d)" using assms by simp
  then show ?thesis by (simp add: at_depth_def up_Suc del: up.simps)
qed

text \<open>The nodes of a well-formed graph.\<close>

definition node_of :: "(nat \<Rightarrow> Node) \<Rightarrow> nat \<Rightarrow> nat \<Rightarrow> bool" where
  "node_of g n i \<longleftrightarrow> wf_graph g n \<and> 1 \<le> i \<and> i < n"

lemma node_ofD: "node_of g n i \<Longrightarrow> wf_graph g n" "node_of g n i \<Longrightarrow> 1 \<le> i" "node_of g n i \<Longrightarrow> i < n"
  by (auto simp: node_of_def)

lemma node_cases:
  assumes "node_of g n i"
  obtains "i = 1" "m_depth (g i) = 0"
  | "1 < i" "wf_child g i" "node_of g n (par g i)" "m_depth (g i) = Suc (m_depth (g (par g i)))"
  using assms wf_graphD(2) [of g n] wf_graphD(3) [of g n i]
  by (cases "i = 1") (auto simp: node_of_def wf_root_def wf_child_def)

lemma depth_0_iff: "node_of g n i \<Longrightarrow> m_depth (g i) = 0 \<longleftrightarrow> i = 1"
  by (erule node_cases) auto

lemma depth_par:
  "node_of g n i \<Longrightarrow> m_depth (g i) = Suc d \<Longrightarrow>
     1 < i \<and> node_of g n (par g i) \<and> m_depth (g (par g i)) = d"
  by (erule node_cases) auto

lemma up_node:
  assumes "node_of g n i" "k \<le> m_depth (g i)"
  shows "node_of g n (up g k i) \<and> m_depth (g (up g k i)) = m_depth (g i) - k"
  using assms
proof (induction k arbitrary: i)
  case 0
  then show ?case by simp
next
  case (Suc k)
  then obtain d where d: "m_depth (g i) = Suc d" by (cases "m_depth (g i)") auto
  from Suc.IH [of "par g i"] depth_par [OF Suc.prems(1) d] Suc.prems d show ?case by simp
qed

lemma at_depth_node:
  assumes "node_of g n i" "d \<le> m_depth (g i)"
  shows "node_of g n (at_depth g i d)" and "m_depth (g (at_depth g i d)) = d"
  using up_node [OF assms(1), of "m_depth (g i) - d"] assms(2) by (auto simp: at_depth_def)

lemma at_depth_at_depth:
  assumes "node_of g n i" "d \<le> e" "e \<le> m_depth (g i)"
  shows "at_depth g (at_depth g i e) d = at_depth g i d"
proof -
  have "m_depth (g (at_depth g i e)) = e" using at_depth_node [OF assms(1,3)] by simp
  then have "at_depth g (at_depth g i e) d = up g ((e - d) + (m_depth (g i) - e)) i"
    unfolding at_depth_def up_add by simp
  also have "(e - d) + (m_depth (g i) - e) = m_depth (g i) - d" using assms by simp
  finally show ?thesis by (simp add: at_depth_def)
qed

lemma at_depth_par:
  assumes "node_of g n i" "m_depth (g i) = Suc e" "f \<le> e"
  shows "at_depth g (par g i) f = at_depth g i f"
proof -
  have "at_depth g i e = par g i"
    using at_depth_Suc [of e g i] assms(2) at_depth_self [of g i] by simp
  then show ?thesis using at_depth_at_depth [OF assms(1,3)] assms(2) by simp
qed

lemma at_depth_0: "node_of g n i \<Longrightarrow> at_depth g i 0 = 1"
  using at_depth_node [of g n i 0] depth_0_iff [of g n "at_depth g i 0"] by simp

text \<open>Two branches that meet stay together above.\<close>

lemma at_depth_eq_mono:
  assumes "node_of g n a" "node_of g n b" "d \<le> e" "e \<le> m_depth (g a)" "e \<le> m_depth (g b)"
    and "at_depth g a e = at_depth g b e"
  shows "at_depth g a d = at_depth g b d"
  using at_depth_at_depth [of g n a d e] at_depth_at_depth [of g n b d e] assms by simp

section \<open>Where two nodes split\<close>

definition splits :: "(nat \<Rightarrow> Node) \<Rightarrow> nat \<Rightarrow> nat \<Rightarrow> nat \<Rightarrow> bool" where
  "splits g a b d \<longleftrightarrow> d < m_depth (g a) \<and> d < m_depth (g b) \<and>
     at_depth g a d = at_depth g b d \<and> at_depth g a (Suc d) \<noteq> at_depth g b (Suc d)"

text \<open>The branch of \<open>a\<close> below the split at depth \<open>d\<close>.\<close>

abbreviation branch :: "(nat \<Rightarrow> Node) \<Rightarrow> nat \<Rightarrow> nat \<Rightarrow> Node" where
  "branch g a d \<equiv> g (at_depth g a (Suc d))"

definition left_of :: "(nat \<Rightarrow> Node) \<Rightarrow> nat \<Rightarrow> nat \<Rightarrow> bool" where
  "left_of g a b \<longleftrightarrow>
     (\<exists>d < m_depth (g a). splits g a b d \<and> m_seqnum (branch g a d) < m_seqnum (branch g b d))"

definition before :: "(nat \<Rightarrow> Node) \<Rightarrow> nat \<Rightarrow> nat \<Rightarrow> bool" where
  "before g a b \<longleftrightarrow>
     (\<exists>d < m_depth (g a). splits g a b d \<and> m_seqnum (branch g a d) < m_seqnum (branch g b d) \<and>
        m_type (branch g a d) \<noteq> PARALLEL)"

definition in_parallel :: "(nat \<Rightarrow> Node) \<Rightarrow> nat \<Rightarrow> nat \<Rightarrow> bool" where
  "in_parallel g a b \<longleftrightarrow>
     (\<exists>d < m_depth (g a). splits g a b d \<and>
        (if m_seqnum (branch g a d) < m_seqnum (branch g b d) then m_type (branch g a d) = PARALLEL
         else m_type (branch g b d) = PARALLEL))"

lemma splits_sym: "splits g a b d \<longleftrightarrow> splits g b a d"
  by (auto simp: splits_def)

lemma splits_unique:
  assumes nodes: "node_of g n a" "node_of g n b" and "splits g a b d" "splits g a b e"
  shows "d = e"
proof -
  have False if "d < e" "splits g a b d" "splits g a b e" for d e
  proof -
    have "at_depth g a (Suc d) = at_depth g b (Suc d)"
      by (rule at_depth_eq_mono [OF nodes, of _ e]) (use that in \<open>auto simp: splits_def\<close>)
    then show False using that by (simp add: splits_def)
  qed
  then show ?thesis using assms(3,4) by (metis linorder_neqE_nat)
qed

text \<open>A branch is a child of the node the two have in common.\<close>

lemma branch_node:
  assumes "node_of g n a" "d < m_depth (g a)"
  shows "node_of g n (at_depth g a (Suc d))" and "m_depth (branch g a d) = Suc d"
    and "1 < at_depth g a (Suc d)" and "wf_child g (at_depth g a (Suc d))"
    and "par g (at_depth g a (Suc d)) = at_depth g a d"
proof -
  let ?x = "at_depth g a (Suc d)"
  show x: "node_of g n ?x" "m_depth (g ?x) = Suc d"
    using at_depth_node [OF assms(1), of "Suc d"] assms(2) by auto
  show "1 < ?x" using depth_par [OF x] by simp
  then show "wf_child g ?x"
    using x(1) wf_graphD(3) [of g n ?x] by (simp add: node_of_def)
  show "par g ?x = at_depth g a d" by (rule at_depth_Suc [of d g a, OF assms(2)])
qed

lemma splits_seqnum:
  assumes nodes: "node_of g n a" "node_of g n b" and s: "splits g a b d"
  shows "m_seqnum (branch g a d) \<noteq> m_seqnum (branch g b d)"
proof
  let ?x = "at_depth g a (Suc d)" and ?y = "at_depth g b (Suc d)"
  assume eq: "m_seqnum (g ?x) = m_seqnum (g ?y)"
  have d: "d < m_depth (g a)" "d < m_depth (g b)" using s by (auto simp: splits_def)
  note x = branch_node [OF nodes(1) d(1)] and y = branch_node [OF nodes(2) d(2)]
  have "?x = ?y"
    using wf_graph_seqnum_inj [OF node_ofD(1) [OF nodes(1)] x(3) node_ofD(3) [OF x(1)] y(3)
        node_ofD(3) [OF y(1)] _ eq] x(5) y(5) s by (simp add: splits_def)
  then show False using s by (simp add: splits_def)
qed

text \<open>Steps are leaves: nothing is below a \<open>WORK\<close> node.\<close>

lemma work_leaf:
  assumes "node_of g n a" "d < m_depth (g a)"
  shows "m_type (g (at_depth g a d)) \<noteq> WORK"
  using branch_node(4,5) [OF assms] by (simp add: wf_child_def)

lemma steps_split:
  assumes nodes: "node_of g n a" "node_of g n b" and "a \<noteq> b"
    and work: "m_type (g a) = WORK" "m_type (g b) = WORK"
  shows "\<exists>d. splits g a b d"
proof (rule ccontr)
  assume no: "\<nexists>d. splits g a b d"
  have eq: "at_depth g a d = at_depth g b d" if "d \<le> m_depth (g a)" "d \<le> m_depth (g b)" for d
    using that
  proof (induction d)
    case 0
    then show ?case using at_depth_0 nodes by simp
  next
    case (Suc d)
    then show ?case using no unfolding splits_def by (metis Suc_le_eq Suc_leD)
  qed
  consider "m_depth (g a) = m_depth (g b)" | "m_depth (g a) < m_depth (g b)"
    | "m_depth (g b) < m_depth (g a)" by linarith
  then show False
  proof cases
    case 1
    then show False using eq [of "m_depth (g a)"] assms(3) by (metis at_depth_self order_refl)
  next
    case 2
    then have "at_depth g b (m_depth (g a)) = a" using eq [of "m_depth (g a)"] by simp
    then show False using work_leaf [OF nodes(2) 2] work(1) by simp
  next
    case 3
    then have "at_depth g a (m_depth (g b)) = b" using eq [of "m_depth (g b)"] by simp
    then show False using work_leaf [OF nodes(1) 3] work(2) by simp
  qed
qed

section \<open>The order of the steps\<close>

lemma left_ofI: "splits g a b d \<Longrightarrow> m_seqnum (branch g a d) < m_seqnum (branch g b d) \<Longrightarrow> left_of g a b"
  by (auto simp: left_of_def splits_def)

lemma beforeI:
  "splits g a b d \<Longrightarrow> m_seqnum (branch g a d) < m_seqnum (branch g b d) \<Longrightarrow>
   m_type (branch g a d) \<noteq> PARALLEL \<Longrightarrow> before g a b"
  by (auto simp: before_def splits_def)

lemma in_parallelI:
  "splits g a b d \<Longrightarrow> m_seqnum (branch g a d) < m_seqnum (branch g b d) \<Longrightarrow>
   m_type (branch g a d) = PARALLEL \<Longrightarrow> in_parallel g a b"
  by (auto simp: in_parallel_def splits_def)

lemma in_parallel_sym:
  assumes "node_of g n a" "node_of g n b" and "in_parallel g a b"
  shows "in_parallel g b a"
proof -
  obtain d where s: "splits g a b d" and
    t: "if m_seqnum (branch g a d) < m_seqnum (branch g b d) then m_type (branch g a d) = PARALLEL
        else m_type (branch g b d) = PARALLEL"
    using assms(3) by (auto simp: in_parallel_def)
  have "m_seqnum (branch g a d) \<noteq> m_seqnum (branch g b d)"
    by (rule splits_seqnum [OF assms(1,2) s])
  then show ?thesis
    using s t splits_sym [of g a b d] unfolding in_parallel_def
    by (intro exI [of _ d]) (auto simp: splits_def split: if_splits)
qed

text \<open>What is decided at the one split of two nodes.\<close>

lemma at_split:
  assumes "node_of g n a" "node_of g n b" and s: "splits g a b d"
  shows "left_of g a b \<longleftrightarrow> m_seqnum (branch g a d) < m_seqnum (branch g b d)"
    and "before g a b \<longleftrightarrow> m_seqnum (branch g a d) < m_seqnum (branch g b d) \<and>
           m_type (branch g a d) \<noteq> PARALLEL"
    and "in_parallel g a b \<longleftrightarrow>
           (if m_seqnum (branch g a d) < m_seqnum (branch g b d) then m_type (branch g a d) = PARALLEL
            else m_type (branch g b d) = PARALLEL)"
proof -
  have u: "splits g a b e \<longleftrightarrow> e = d" for e
    using splits_unique [OF assms(1,2) _ s, of e] s by blast
  have d: "d < m_depth (g a)" using s by (simp add: splits_def)
  show "left_of g a b \<longleftrightarrow> m_seqnum (branch g a d) < m_seqnum (branch g b d)"
    unfolding left_of_def u using d by auto
  show "before g a b \<longleftrightarrow> m_seqnum (branch g a d) < m_seqnum (branch g b d) \<and>
           m_type (branch g a d) \<noteq> PARALLEL"
    unfolding before_def u using d by auto
  show "in_parallel g a b \<longleftrightarrow>
           (if m_seqnum (branch g a d) < m_seqnum (branch g b d) then m_type (branch g a d) = PARALLEL
            else m_type (branch g b d) = PARALLEL)"
    unfolding in_parallel_def u using d by auto
qed

text \<open>Two different steps are ordered one way, or the other way, or may run in parallel, and
  only one of the three.\<close>

lemma order_trichotomy:
  assumes nodes: "node_of g n a" "node_of g n b" and "a \<noteq> b"
    and "m_type (g a) = WORK" "m_type (g b) = WORK"
  shows "(before g a b \<and> \<not> before g b a \<and> \<not> in_parallel g a b) \<or>
         (\<not> before g a b \<and> before g b a \<and> \<not> in_parallel g a b) \<or>
         (\<not> before g a b \<and> \<not> before g b a \<and> in_parallel g a b)"
proof -
  obtain d where s: "splits g a b d" using steps_split [OF assms] by blast
  then have s': "splits g b a d" by (simp add: splits_sym)
  show ?thesis
    using splits_seqnum [OF nodes s]
    unfolding at_split(2,3) [OF nodes s] at_split(2) [OF nodes(2,1) s'] by auto
qed

text \<open>Three nodes: the left branch of the outer two is the left branch of one of the inner
  pairs.\<close>

lemma splits_trans:
  assumes nodes: "node_of g n a" "node_of g n b" "node_of g n c"
    and ab: "splits g a b d" "m_seqnum (branch g a d) < m_seqnum (branch g b d)"
    and bc: "splits g b c e" "m_seqnum (branch g b e) < m_seqnum (branch g c e)"
  shows "\<exists>f. splits g a c f \<and> m_seqnum (branch g a f) < m_seqnum (branch g c f) \<and>
    (f = d \<or> f = e \<and> branch g a e = branch g b e)"
proof -
  have dep: "d < m_depth (g a)" "d < m_depth (g b)" "e < m_depth (g b)" "e < m_depth (g c)"
    using ab(1) bc(1) by (auto simp: splits_def)
  consider "d < e" | "d = e" | "e < d" by linarith
  then show ?thesis
  proof cases
    case 1
    have m: "at_depth g b k = at_depth g c k" if "k \<le> e" for k
      by (rule at_depth_eq_mono [OF nodes(2,3) that]) (use bc(1) in \<open>auto simp: splits_def\<close>)
    have "splits g a c d"
      using ab(1) m [of d] m [of "Suc d"] 1 dep by (auto simp: splits_def)
    then show ?thesis using ab(2) m [of "Suc d"] 1 by (intro exI [of _ d]) simp
  next
    case 2
    have "at_depth g a (Suc d) \<noteq> at_depth g c (Suc d)" using ab(2) bc(2) 2 by auto
    then have "splits g a c d" using ab(1) bc(1) 2 by (auto simp: splits_def)
    then show ?thesis using ab(2) bc(2) 2 by (intro exI [of _ d]) simp
  next
    case 3
    have m: "at_depth g a k = at_depth g b k" if "k \<le> d" for k
      by (rule at_depth_eq_mono [OF nodes(1,2) that]) (use ab(1) in \<open>auto simp: splits_def\<close>)
    have "splits g a c e"
      using bc(1) m [of e] m [of "Suc e"] 3 dep by (auto simp: splits_def)
    then show ?thesis using bc(2) m [of "Suc e"] 3 by (intro exI [of _ e]) simp
  qed
qed

lemma before_trans:
  assumes nodes: "node_of g n a" "node_of g n b" "node_of g n c" and "before g a b" "before g b c"
  shows "before g a c"
proof -
  obtain d where d: "splits g a b d" "m_seqnum (branch g a d) < m_seqnum (branch g b d)"
      "m_type (branch g a d) \<noteq> PARALLEL"
    using assms(4) by (auto simp: before_def)
  obtain e where e: "splits g b c e" "m_seqnum (branch g b e) < m_seqnum (branch g c e)"
      "m_type (branch g b e) \<noteq> PARALLEL"
    using assms(5) by (auto simp: before_def)
  show ?thesis
    using splits_trans [OF nodes d(1,2) e(1,2)] d(3) e(3) beforeI by metis
qed

text \<open>Everything below a sibling on the left against everything below one on the right.\<close>

lemma under_branch:
  assumes "node_of g n a" and "under g a x" and "m_depth (g x) = Suc d"
  shows "d < m_depth (g a)" and "at_depth g a (Suc d) = x" and "at_depth g a d = par g x"
  using assms at_depth_Suc [of d g a] by (auto simp: under_def)

lemma siblings_split:
  assumes nodes: "node_of g n a" "node_of g n b" and x: "node_of g n x" "x \<noteq> 1"
    and y: "node_of g n y" "y \<noteq> 1" and "par g x = par g y" "x \<noteq> y"
    and "under g a x" "under g b y"
  shows "splits g a b (m_depth (g x) - 1)" and "branch g a (m_depth (g x) - 1) = g x"
    and "branch g b (m_depth (g x) - 1) = g y"
proof -
  obtain d where d: "m_depth (g x) = Suc d" "m_depth (g y) = Suc d"
    using node_cases [OF x(1)] node_cases [OF y(1)] x(2) y(2) assms(7) by metis
  note a = under_branch [OF nodes(1) assms(9) d(1)] and b = under_branch [OF nodes(2) assms(10) d(2)]
  show "splits g a b (m_depth (g x) - 1)"
    using a b assms(7,8) d by (simp add: splits_def)
  show "branch g a (m_depth (g x) - 1) = g x" "branch g b (m_depth (g x) - 1) = g y"
    using a(2) b(2) d by simp_all
qed

end
