(* ===== verification/Series_Parallel.thy ===== *)
theory Series_Parallel
  imports Tree_Order
begin

text \<open>
  \<open>m_lca\<close>, \<open>m_are_dependent\<close> and \<open>m_isparallel\<close> of both builds. The loops climb the parent
  links; they are \<open>partial_function\<close>s, and a loop that does not end is the fault
  \<open>Never_returns\<close>. A position of the walk is the pair of the current node and the node it came
  from (\<open>new_curr_task\<close> and \<open>prev_curr_task\<close> in the code), with the running sum of \<open>st_val\<close>
  in the precise build.
\<close>

section \<open>The loops\<close>

partial_function (option) climb ::
  "(nat \<Rightarrow> Node) \<Rightarrow> nat \<Rightarrow> nat \<times> nat \<Rightarrow> (nat \<times> nat) option" where
  "climb g depth w =
     (if m_depth (g (fst w)) \<noteq> depth then climb g depth (m_parent (g (fst w)), fst w) else Some w)"

partial_function (option) meet ::
  "(nat \<Rightarrow> Node) \<Rightarrow> nat \<times> nat \<Rightarrow> nat \<times> nat \<Rightarrow> ((nat \<times> nat) \<times> (nat \<times> nat)) option" where
  "meet g cur remote =
     (if fst remote \<noteq> fst cur
      then meet g (m_parent (g (fst cur)), fst cur) (m_parent (g (fst remote)), fst remote)
      else Some (cur, remote))"

text \<open>\<open>m_lca\<close>: the branch for a deeper \<open>remote_task\<close> has one assignment where the other has
  a loop.\<close>

definition m_lca :: "'a detector_scheme \<Rightarrow> nat \<Rightarrow> nat \<Rightarrow> nat result" where
  "m_lca s curr_task remote_task =
     (let g = m_tgraph_nodes s in
      and_then
        (if m_depth (g curr_task) > m_depth (g remote_task)
         then and_then (returned (climb g (m_depth (g remote_task)) (curr_task, 0)))
                (\<lambda>w. Inr (fst w, remote_task))
         else if m_depth (g remote_task) > m_depth (g curr_task)
         then Inr (curr_task, m_parent (g remote_task))
         else Inr (curr_task, remote_task))
        (\<lambda>(new_curr_task, new_remote_task).
           and_then (returned (meet g (new_curr_task, 0) (new_remote_task, 0)))
             (\<lambda>(c, r). Inr (fst c))))"

section \<open>Task dependences\<close>

text \<open>The two nested loops over the dependences of the right and of the left task.\<close>

fun scan_left :: "TaskDependence \<Rightarrow> TaskDependence list \<Rightarrow> bool result" where
  "scan_left c_dep [] = Inr False"
| "scan_left c_dep (l_dep # l_deps) =
     (if addr c_dep = addr l_dep
      then if dep_type c_dep = dep_inout \<or> dep_type c_dep = dep_out then Inr True
           else if dep_type c_dep = dep_in
           then if dep_type l_dep = dep_inout \<or> dep_type l_dep = dep_out then Inr True
                else scan_left c_dep l_deps
           else Inl Exit_failure
      else scan_left c_dep l_deps)"

fun scan_deps :: "TaskDependence list \<Rightarrow> TaskDependence list \<Rightarrow> bool result" where
  "scan_deps [] l_deps = Inr False"
| "scan_deps (c_dep # c_deps) l_deps =
     and_then (scan_left c_dep l_deps) (\<lambda>found. if found then Inr True else scan_deps c_deps l_deps)"

definition dependences_at :: "'a detector_scheme \<Rightarrow> nat \<Rightarrow> TaskDependence list result" where
  "dependences_at s task_id =
     (case m_task_dependencies s task_id of None \<Rightarrow> Inl Out_of_range | Some ds \<Rightarrow> Inr ds)"

definition m_are_dependent :: "'a detector_scheme \<Rightarrow> nat \<Rightarrow> nat \<Rightarrow> bool result" where
  "m_are_dependent s curr_async left_async =
     (let left_task_id = m_task_id (m_tgraph_nodes s left_async);
          cur_task_id = m_task_id (m_tgraph_nodes s curr_async)
      in if left_task_id = 0 \<or> cur_task_id = 0 then Inr False
         else and_then (dependences_at s left_task_id) (\<lambda>l_deps.
              and_then (dependences_at s cur_task_id) (\<lambda>c_deps. scan_deps c_deps l_deps)))"

section \<open>m_isparallel, fast build\<close>

definition walk :: "(nat \<Rightarrow> Node) \<Rightarrow> nat \<Rightarrow> nat \<Rightarrow> ((nat \<times> nat) \<times> (nat \<times> nat)) result" where
  "walk g curr_step meta_access =
     (let curr_depth = m_depth (g curr_step); meta_depth = m_depth (g meta_access);
          cur = (curr_step, 0); remote = (meta_access, 0) in
      and_then
        (if curr_depth > meta_depth
         then and_then (returned (climb g meta_depth cur)) (\<lambda>cur. Inr (cur, remote))
         else if meta_depth > curr_depth
         then and_then (returned (climb g curr_depth remote)) (\<lambda>remote. Inr (cur, remote))
         else Inr (cur, remote))
        (\<lambda>(cur, remote). returned (meet g cur remote)))"

definition m_isparallel_fast :: "'a detector_scheme \<Rightarrow> nat \<Rightarrow> nat \<Rightarrow> bool result" where
  "m_isparallel_fast s curr_step meta_access =
     (let g = m_tgraph_nodes s in
      if curr_step = 0 then Inl Assertion_failed
      else if meta_access = 0 \<or> meta_access = curr_step then Inr False
      else and_then (walk g curr_step meta_access)
        (\<lambda>((new_curr_task, prev_curr_task), (new_remote_task, prev_remote_task)).
           let curr_seq = m_seqnum (g prev_curr_task); rem_seq = m_seqnum (g prev_remote_task) in
           if rem_seq < curr_seq
           then if prev_remote_task \<noteq> 0 \<and> m_type (g prev_remote_task) = PARALLEL
                then and_then (if m_type (g prev_curr_task) = PARALLEL
                               then m_are_dependent s prev_curr_task prev_remote_task
                               else Inr False)
                       (\<lambda>dep. Inr (\<not> dep))
                else Inr False
           else if prev_curr_task \<noteq> 0 \<and> m_type (g prev_curr_task) = PARALLEL
                then and_then (if m_type (g prev_curr_task) = PARALLEL
                               then m_are_dependent s prev_remote_task prev_curr_task
                               else Inr False)
                       (\<lambda>dep. Inr (\<not> dep))
                else Inr False))"

section \<open>m_isparallel, precise build\<close>

type_synonym position = "nat \<times> nat \<times> int"

partial_function (option) climb_counting ::
  "(nat \<Rightarrow> Node) \<Rightarrow> nat \<Rightarrow> position \<Rightarrow> position option" where
  "climb_counting g depth w =
     (case w of (i, prev, count) \<Rightarrow>
        if m_depth (g i) \<noteq> depth
        then climb_counting g depth (m_parent (g i), i, count + st_val (g i)) else Some w)"

partial_function (option) meet_counting ::
  "(nat \<Rightarrow> Node) \<Rightarrow> position \<Rightarrow> position \<Rightarrow> (position \<times> position) option" where
  "meet_counting g cur remote =
     (case (cur, remote) of ((c, pc, nc), (r, pr, nr)) \<Rightarrow>
        if r \<noteq> c
        then meet_counting g (m_parent (g c), c, nc + st_val (g c)) (m_parent (g r), r, nr + st_val (g r))
        else Some (cur, remote))"

definition walk_counting :: "(nat \<Rightarrow> Node) \<Rightarrow> nat \<Rightarrow> nat \<Rightarrow> (position \<times> position) result" where
  "walk_counting g curr_step meta_access =
     (let curr_depth = m_depth (g curr_step); meta_depth = m_depth (g meta_access);
          cur = (curr_step, 0, 0); remote = (meta_access, 0, 0) in
      and_then
        (if curr_depth > meta_depth
         then and_then (returned (climb_counting g meta_depth cur)) (\<lambda>cur. Inr (cur, remote))
         else if meta_depth > curr_depth
         then and_then (returned (climb_counting g curr_depth remote)) (\<lambda>remote. Inr (cur, remote))
         else Inr (cur, remote))
        (\<lambda>(cur, remote). returned (meet_counting g cur remote)))"

text \<open>
  The verdict of the precise build for the child \<open>left\<close> of the LCA \<open>lca\<close> on the left and its
  child \<open>right\<close> on the right; \<open>left_step\<close> is the step below \<open>left\<close>. The code has the same
  statements twice, for the remote and for the current step on the left. The two assignments
  that follow an \<open>if\<close> without \<open>else\<close> are kept: they overwrite what the \<open>if\<close> assigned.
\<close>

definition verdict_precise ::
  "'a detector_scheme \<Rightarrow> nat \<Rightarrow> nat \<Rightarrow> nat \<Rightarrow> nat \<Rightarrow> int \<Rightarrow> bool result" where
  "verdict_precise s lca left right left_step count =
     (let g = m_tgraph_nodes s;
          w_l_parent = m_parent (g left_step);
          count = (if m_finish_flag (g w_l_parent) then count - st_val (g w_l_parent) else count) in
      if left = 0 then Inl Assertion_failed
      else if m_type (g left) = WORK \<or> (m_type (g left) = SERIES \<and> \<not> m_finish_flag (g left))
      then Inr False
      else if m_type (g left) = PARALLEL
      then and_then (if m_type (g right) = PARALLEL \<and> count = 1 \<and> m_finish_flag (g lca)
                     then m_are_dependent s right left else Inr False)
             (\<lambda>dep. let ret_val = (if dep then False else False); ret_val = True in Inr ret_val)
      else let ret_val = (if count > 0 then True else False); ret_val = False in Inr ret_val)"

definition m_isparallel_precise :: "'a detector_scheme \<Rightarrow> nat \<Rightarrow> nat \<Rightarrow> bool result" where
  "m_isparallel_precise s curr_step meta_access =
     (let g = m_tgraph_nodes s in
      if curr_step = 0 then Inl Assertion_failed
      else if meta_access = 0 \<or> meta_access = curr_step then Inr False
      else and_then (walk_counting g curr_step meta_access)
        (\<lambda>((new_curr_task, prev_curr_task, cur_count),
           (new_remote_task, prev_remote_task, remote_count)).
           let curr_seq = m_seqnum (g prev_curr_task); rem_seq = m_seqnum (g prev_remote_task) in
           if rem_seq < curr_seq
           then verdict_precise s new_remote_task prev_remote_task prev_curr_task meta_access
                  remote_count
           else verdict_precise s new_curr_task prev_curr_task prev_remote_task curr_step
                  cur_count))"

definition m_isparallel :: "'a detector_scheme \<Rightarrow> nat \<Rightarrow> nat \<Rightarrow> bool result" where
  "m_isparallel s = (case mode s of Precise \<Rightarrow> m_isparallel_precise s | Fast \<Rightarrow> m_isparallel_fast s)"

section \<open>The loops end at the least common ancestor\<close>

lemma climb_ends:
  assumes "node_of g n i" and "d \<le> m_depth (g i)"
  shows "climb g d (i, p) = Some (at_depth g i d, if m_depth (g i) = d then p else at_depth g i (Suc d))"
  using assms
proof (induction "m_depth (g i) - d" arbitrary: i p)
  case 0
  then show ?case by (subst climb.simps) (auto simp: at_depth_def)
next
  case (Suc k)
  then obtain e where e: "m_depth (g i) = Suc e" by (cases "m_depth (g i)") auto
  note q = depth_par [OF Suc.prems(1) e]
  have up: "at_depth g (par g i) f = at_depth g i f" if "f \<le> e" for f
    using at_depth_par [OF Suc.prems(1) e that] .
  have "climb g d (i, p) = climb g d (par g i, i)"
    using Suc.hyps(2) e by (subst climb.simps) auto
  also have "\<dots> = Some (at_depth g i d, if e = d then i else at_depth g i (Suc d))"
    using Suc.hyps(1) [of "par g i" i] Suc.hyps(2) q e up [of d] up [of "Suc d"] by auto
  also have "(if e = d then i else at_depth g i (Suc d)) = at_depth g i (Suc d)"
    using at_depth_self [of g i] e by auto
  finally show ?case using Suc.hyps(2) by auto
qed

lemma meet_ends:
  assumes "node_of g n c" "node_of g n r" and "m_depth (g c) = m_depth (g r)" "d \<le> m_depth (g c)"
    and "at_depth g c d = at_depth g r d"
    and "\<And>e. d < e \<Longrightarrow> e \<le> m_depth (g c) \<Longrightarrow> at_depth g c e \<noteq> at_depth g r e"
  shows "meet g (c, pc) (r, pr) =
    Some ((at_depth g c d, if m_depth (g c) = d then pc else at_depth g c (Suc d)),
          (at_depth g r d, if m_depth (g c) = d then pr else at_depth g r (Suc d)))"
  using assms
proof (induction "m_depth (g c) - d" arbitrary: c r pc pr)
  case 0
  then have d: "m_depth (g c) = d" "m_depth (g r) = d" by auto
  then have "c = r" using 0 at_depth_self [of g c] at_depth_self [of g r] by metis
  then show ?case using d at_depth_self [of g c] by (subst meet.simps) auto
next
  case (Suc k)
  obtain e where e: "m_depth (g c) = Suc e" using Suc.hyps(2) by (cases "m_depth (g c)") auto
  then have "m_depth (g r) = Suc e" using Suc.prems(3) by simp
  note e = e this
  note qc = depth_par [OF Suc.prems(1) e(1)] and qr = depth_par [OF Suc.prems(2) e(2)]
  note upc = at_depth_par [OF Suc.prems(1) e(1)] and upr = at_depth_par [OF Suc.prems(2) e(2)]
  have "d < Suc e" using Suc.hyps(2) e by linarith
  then have ne: "c \<noteq> r" using Suc.prems(6) [of "Suc e"] e by auto
  have "meet g (c, pc) (r, pr) = meet g (par g c, c) (par g r, r)"
    using ne by (subst meet.simps) auto
  also have "\<dots> = Some ((at_depth g c d, if e = d then c else at_depth g c (Suc d)),
          (at_depth g r d, if e = d then r else at_depth g r (Suc d)))"
    using Suc.hyps(1) [of "par g c" "par g r" c r] Suc.hyps(2) Suc.prems(5,6) qc qr e upc upr by auto
  finally show ?case
    using Suc.hyps(2) e at_depth_self [of g c] at_depth_self [of g r] by auto
qed

text \<open>The counting loops take the same steps.\<close>

lemma climb_counting_climb:
  assumes "climb g d w = Some w'"
  shows "\<exists>m. climb_counting g d (fst w, snd w, k) = Some (fst w', snd w', m)"
  using assms
proof (induction g d w w' arbitrary: k rule: climb.raw_induct)
  case (1 climb' g d w w')
  show ?case
  proof (cases "m_depth (g (fst w)) = d")
    case True
    then show ?thesis using 1(2) by (subst climb_counting.simps) auto
  next
    case False
    then have "climb' g d (par g (fst w), fst w) = Some w'" using 1(2) by simp
    moreover have "climb g d (par g (fst w), fst w) = Some w'"
      using 1(3) False by (simp add: climb.simps [of g d w])
    ultimately show ?thesis using 1(1) [of g d "(par g (fst w), fst w)" w' "k + st_val (g (fst w))"] False
      by (subst climb_counting.simps) simp
  qed
qed (fact assms)

lemma meet_counting_meet:
  assumes "meet g c r = Some (c', r')"
  shows "\<exists>m n. meet_counting g (fst c, snd c, k) (fst r, snd r, l) =
    Some ((fst c', snd c', m), (fst r', snd r', n))"
proof -
  have "\<exists>m n. meet_counting g (fst c, snd c, k) (fst r, snd r, l) =
    Some ((fst (fst z), snd (fst z), m), (fst (snd z), snd (snd z), n))" if "meet g c r = Some z" for z
    using that
  proof (induction g c r z arbitrary: k l rule: meet.raw_induct)
    case (1 meet' g c r z)
    show ?case
    proof (cases "fst r = fst c")
      case True
      then show ?thesis using 1(2) by (subst meet_counting.simps) auto
    next
      case False
      then have "meet' g (par g (fst c), fst c) (par g (fst r), fst r) = Some z" using 1(2) by simp
      moreover have "meet g (par g (fst c), fst c) (par g (fst r), fst r) = Some z"
        using 1(3) False by (simp add: meet.simps [of g c r])
      ultimately show ?thesis
        using 1(1) [of g "(par g (fst c), fst c)" "(par g (fst r), fst r)" z
            "k + st_val (g (fst c))" "l + st_val (g (fst r))"] False
        by (subst meet_counting.simps) simp
    qed
  qed (fact that)
  from this [OF assms] show ?thesis by simp
qed

lemma meet_any_prev:
  assumes "meet g (c, pc) (r, pr) = Some ((i, p), (j, q))"
  shows "\<exists>p' q'. meet g (c, pc') (r, pr') = Some ((i, p'), (j, q'))"
proof (cases "r = c")
  case True
  then show ?thesis using assms by (subst meet.simps) (auto simp: meet.simps [of g "(c, pc)"])
next
  case False
  then show ?thesis using assms by (subst meet.simps) (auto simp: meet.simps [of g "(c, pc)"])
qed

lemma walk_split:
  assumes nodes: "node_of g n a" "node_of g n b" and s: "splits g a b d"
  shows "walk g a b = Inr ((at_depth g a d, at_depth g a (Suc d)), (at_depth g b d, at_depth g b (Suc d)))"
proof -
  let ?m = "min (m_depth (g a)) (m_depth (g b))"
  let ?c = "at_depth g a ?m" and ?r = "at_depth g b ?m"
  have dm: "d < ?m" using s by (simp add: splits_def)
  have c: "node_of g n ?c" "m_depth (g ?c) = ?m" and r: "node_of g n ?r" "m_depth (g ?r) = ?m"
    using at_depth_node [OF nodes(1), of ?m] at_depth_node [OF nodes(2), of ?m] by auto
  have ca: "at_depth g ?c e = at_depth g a e" "at_depth g ?r e = at_depth g b e" if "e \<le> ?m" for e
    using at_depth_at_depth [OF nodes(1) that] at_depth_at_depth [OF nodes(2) that] by simp_all
  have apart: "at_depth g a e \<noteq> at_depth g b e" if "d < e" "e \<le> ?m" for e
    using at_depth_eq_mono [OF nodes, of "Suc d" e] s that by (auto simp: splits_def)
  have m: "meet g (?c, pc) (?r, pr) =
      Some ((at_depth g a d, at_depth g a (Suc d)), (at_depth g b d, at_depth g b (Suc d)))" for pc pr
    using meet_ends [OF c(1) r(1), of d pc pr] c(2) r(2) ca apart dm s
    by (simp add: splits_def)
  consider "m_depth (g a) = m_depth (g b)" | "m_depth (g a) < m_depth (g b)"
    | "m_depth (g b) < m_depth (g a)" by linarith
  then show ?thesis
  proof cases
    case 1
    then have "?c = a" "?r = b" using at_depth_self by (metis min.idem)+
    then show ?thesis using 1 m [of 0 0] by (simp add: walk_def)
  next
    case 2
    then show ?thesis
      using climb_ends [OF nodes(2), of "m_depth (g a)" 0] m by (simp add: walk_def min_def)
  next
    case 3
    then show ?thesis
      using climb_ends [OF nodes(1), of "m_depth (g b)" 0] m by (simp add: walk_def min_def)
  qed
qed

lemma walk_counting_split:
  assumes nodes: "node_of g n a" "node_of g n b" and s: "splits g a b d"
  shows "\<exists>k l. walk_counting g a b =
    Inr ((at_depth g a d, at_depth g a (Suc d), k), (at_depth g b d, at_depth g b (Suc d), l))"
proof -
  note w = walk_split [OF assms]
  consider "m_depth (g a) = m_depth (g b)" | "m_depth (g a) < m_depth (g b)"
    | "m_depth (g b) < m_depth (g a)" by linarith
  then show ?thesis
  proof cases
    case 1
    then show ?thesis
      using w meet_counting_meet [of g "(a, 0)" "(b, 0)" _ _ 0 0]
      by (auto simp: walk_def walk_counting_def)
  next
    case 2
    then obtain v where v: "climb g (m_depth (g a)) (b, 0) = Some v"
        "meet g (a, 0) v = Some ((at_depth g a d, at_depth g a (Suc d)),
            (at_depth g b d, at_depth g b (Suc d)))"
      using w by (auto simp: walk_def)
    obtain k where "climb_counting g (m_depth (g a)) (b, 0, 0) = Some (fst v, snd v, k)"
      using climb_counting_climb [OF v(1), of 0] by auto
    then show ?thesis
      using 2 meet_counting_meet [OF v(2), of 0 k] by (auto simp: walk_counting_def)
  next
    case 3
    then obtain v where v: "climb g (m_depth (g b)) (a, 0) = Some v"
        "meet g v (b, 0) = Some ((at_depth g a d, at_depth g a (Suc d)),
            (at_depth g b d, at_depth g b (Suc d)))"
      using w by (auto simp: walk_def)
    obtain k where "climb_counting g (m_depth (g b)) (a, 0, 0) = Some (fst v, snd v, k)"
      using climb_counting_climb [OF v(1), of 0] by auto
    then show ?thesis
      using 3 meet_counting_meet [OF v(2), of k 0] by (auto simp: walk_counting_def)
  qed
qed

section \<open>Task dependences, specified\<close>

definition writes :: "TaskDependence \<Rightarrow> bool" where
  "writes x \<longleftrightarrow> dep_type x = dep_out \<or> dep_type x = dep_inout"

definition conflict :: "TaskDependence \<Rightarrow> TaskDependence \<Rightarrow> bool" where
  "conflict x y \<longleftrightarrow> addr x = addr y \<and> (writes x \<or> writes y)"

definition plain :: "TaskDependence \<Rightarrow> bool" where
  "plain x \<longleftrightarrow> dep_type x = dep_in \<or> dep_type x = dep_out \<or> dep_type x = dep_inout"

lemma conflict_sym: "conflict x y = conflict y x"
  by (auto simp: conflict_def)

lemma scan_left_plain: "plain c \<Longrightarrow> scan_left c ls = Inr (\<exists>l\<in>set ls. conflict c l)"
  by (induction ls) (auto simp: conflict_def writes_def plain_def)

lemma scan_deps_plain: "\<forall>c\<in>set cs. plain c \<Longrightarrow>
    scan_deps cs ls = Inr (\<exists>c\<in>set cs. \<exists>l\<in>set ls. conflict c l)"
  by (induction cs) (auto simp: scan_left_plain)

text \<open>Every task that was created with dependences has them recorded, all of them of the three
  types the detector knows.\<close>

definition deps_recorded :: "'a detector_scheme \<Rightarrow> bool" where
  "deps_recorded s \<longleftrightarrow> (\<forall>i < m_last_allocated_node s. m_task_id (m_tgraph_nodes s i) \<noteq> 0 \<longrightarrow>
     (case m_task_dependencies s (m_task_id (m_tgraph_nodes s i)) of
        None \<Rightarrow> False | Some ds \<Rightarrow> (\<forall>x\<in>set ds. plain x)))"

definition deps_of :: "'a detector_scheme \<Rightarrow> nat \<Rightarrow> TaskDependence list" where
  "deps_of s i =
     (if m_task_id (m_tgraph_nodes s i) = 0 then []
      else case m_task_dependencies s (m_task_id (m_tgraph_nodes s i)) of None \<Rightarrow> [] | Some ds \<Rightarrow> ds)"

definition tasks_conflict :: "'a detector_scheme \<Rightarrow> nat \<Rightarrow> nat \<Rightarrow> bool" where
  "tasks_conflict s i j \<longleftrightarrow> (\<exists>x\<in>set (deps_of s i). \<exists>y\<in>set (deps_of s j). conflict x y)"

lemma tasks_conflict_sym: "tasks_conflict s i j = tasks_conflict s j i"
  unfolding tasks_conflict_def using conflict_sym by blast

lemma deps_recordedD:
  assumes "deps_recorded s" and "i < m_last_allocated_node s" and "m_task_id (m_tgraph_nodes s i) \<noteq> 0"
  obtains ds where "m_task_dependencies s (m_task_id (m_tgraph_nodes s i)) = Some ds"
    and "\<forall>x\<in>set ds. plain x"
  using assms unfolding deps_recorded_def
  by (cases "m_task_dependencies s (m_task_id (m_tgraph_nodes s i))") auto

lemma m_are_dependent_recorded:
  assumes "deps_recorded s" and "i < m_last_allocated_node s" "j < m_last_allocated_node s"
  shows "m_are_dependent s i j = Inr (tasks_conflict s i j)"
proof (cases "m_task_id (m_tgraph_nodes s i) = 0 \<or> m_task_id (m_tgraph_nodes s j) = 0")
  case True
  then show ?thesis by (auto simp: m_are_dependent_def tasks_conflict_def deps_of_def)
next
  case False
  obtain ds es where "m_task_dependencies s (m_task_id (m_tgraph_nodes s i)) = Some ds"
      "m_task_dependencies s (m_task_id (m_tgraph_nodes s j)) = Some es" "\<forall>x\<in>set ds. plain x"
    using False deps_recordedD [OF assms(1,2)] deps_recordedD [OF assms(1,3)] by metis
  then show ?thesis using False
    by (simp add: m_are_dependent_def dependences_at_def scan_deps_plain tasks_conflict_def deps_of_def)
qed

text \<open>The tasks of two nodes, at the children of their LCA, have conflicting dependences.\<close>

definition dependent :: "'a detector_scheme \<Rightarrow> nat \<Rightarrow> nat \<Rightarrow> bool" where
  "dependent s a b \<longleftrightarrow>
     (let g = m_tgraph_nodes s in
      \<exists>d < m_depth (g a). splits g a b d \<and>
        tasks_conflict s (at_depth g a (Suc d)) (at_depth g b (Suc d)))"

section \<open>The verdict\<close>

lemma is_node_node_of: "wf_state s \<Longrightarrow> is_node s i \<Longrightarrow> node_of (m_tgraph_nodes s) (m_last_allocated_node s) i"
  by (simp add: wf_state_def is_node_def node_of_def)

lemma dependent_at_split:
  assumes wf: "wf_state s" and nodes: "is_node s a" "is_node s b"
    and sp: "splits (m_tgraph_nodes s) a b d"
  shows "dependent s a b \<longleftrightarrow> tasks_conflict s
    (at_depth (m_tgraph_nodes s) a (Suc d)) (at_depth (m_tgraph_nodes s) b (Suc d))"
proof -
  have u: "splits (m_tgraph_nodes s) a b e \<longleftrightarrow> e = d" for e
    using splits_unique [OF is_node_node_of [OF wf nodes(1)] is_node_node_of [OF wf nodes(2)] _ sp]
      sp by blast
  have "d < m_depth (m_tgraph_nodes s a)" using sp by (simp add: splits_def)
  then show ?thesis unfolding dependent_def Let_def u by auto
qed

lemma not_parallel_independent:
  "wf_state s \<Longrightarrow> m_type (m_tgraph_nodes s i) \<noteq> PARALLEL \<Longrightarrow>
     m_are_dependent s i j = Inr False \<and> m_are_dependent s j i = Inr False"
  using wf_graphD(8) [OF wf_stateD(1), of s i] by (auto simp: m_are_dependent_def Let_def)

text \<open>Both builds look at the left and the right child of the LCA, and at nothing else.\<close>

definition verdict_fast :: "'a detector_scheme \<Rightarrow> nat \<Rightarrow> nat \<Rightarrow> bool result" where
  "verdict_fast s left right =
     (if m_type (m_tgraph_nodes s left) = PARALLEL
      then and_then (m_are_dependent s right left) (\<lambda>dep. Inr (\<not> dep)) else Inr False)"

lemma m_isparallel_fast_at_split:
  assumes wf: "wf_state s" and nodes: "is_node s a" "is_node s b" and "a \<noteq> b"
    and sp: "splits (m_tgraph_nodes s) a b d"
  defines "x \<equiv> at_depth (m_tgraph_nodes s) a (Suc d)" and "y \<equiv> at_depth (m_tgraph_nodes s) b (Suc d)"
  shows "m_isparallel_fast s a b =
    (if m_seqnum (m_tgraph_nodes s x) < m_seqnum (m_tgraph_nodes s y)
     then verdict_fast s x y else verdict_fast s y x)"
proof -
  let ?g = "m_tgraph_nodes s"
  note na = is_node_node_of [OF wf nodes(1)] and nb = is_node_node_of [OF wf nodes(2)]
  have d: "d < m_depth (?g a)" "d < m_depth (?g b)" using sp by (auto simp: splits_def)
  have "x \<noteq> 0" "y \<noteq> 0"
    using branch_node(3) [OF na d(1)] branch_node(3) [OF nb d(2)] by (auto simp: x_def y_def)
  moreover have "m_seqnum (?g x) \<noteq> m_seqnum (?g y)"
    using splits_seqnum [OF na nb sp] by (simp add: x_def y_def)
  moreover have "a \<noteq> 0" "b \<noteq> 0" using nodes by (auto simp: is_node_def)
  moreover have guard: "(if m_type (?g i) = PARALLEL then m_are_dependent s i j else Inr False)
      = m_are_dependent s i j" for i j
    using not_parallel_independent [OF wf, of i j] by simp
  moreover have w: "walk ?g a b = Inr ((at_depth ?g a d, x), (at_depth ?g b d, y))"
    using walk_split [OF na nb sp] by (simp add: x_def y_def)
  ultimately show ?thesis
    using \<open>a \<noteq> b\<close> unfolding m_isparallel_fast_def verdict_fast_def Let_def w guard
    by (simp split del: if_split) (simp add: not_less_iff_gr_or_eq)
qed

lemma m_isparallel_precise_at_split:
  assumes wf: "wf_state s" and nodes: "is_node s a" "is_node s b" and "a \<noteq> b"
    and sp: "splits (m_tgraph_nodes s) a b d"
  defines "x \<equiv> at_depth (m_tgraph_nodes s) a (Suc d)" and "y \<equiv> at_depth (m_tgraph_nodes s) b (Suc d)"
    and "l \<equiv> at_depth (m_tgraph_nodes s) a d"
  shows "\<exists>k. m_isparallel_precise s a b =
    (if m_seqnum (m_tgraph_nodes s x) < m_seqnum (m_tgraph_nodes s y)
     then verdict_precise s l x y a k else verdict_precise s l y x b k)"
proof -
  let ?g = "m_tgraph_nodes s"
  note na = is_node_node_of [OF wf nodes(1)] and nb = is_node_node_of [OF wf nodes(2)]
  obtain j k where w: "walk_counting ?g a b = Inr ((l, x, j), (l, y, k))"
    using walk_counting_split [OF na nb sp] sp by (auto simp: splits_def x_def y_def l_def)
  have "m_seqnum (?g x) \<noteq> m_seqnum (?g y)"
    using splits_seqnum [OF na nb sp] by (simp add: x_def y_def)
  moreover have "a \<noteq> 0" "b \<noteq> 0" using nodes by (auto simp: is_node_def)
  ultimately show ?thesis
    using \<open>a \<noteq> b\<close> w
    by (intro exI [of _ "if m_seqnum (?g x) < m_seqnum (?g y) then j else k"])
       (auto simp: m_isparallel_precise_def Let_def)
qed

lemma verdict_precise_recorded:
  assumes "wf_state s" "deps_recorded s" and "is_node s left" "is_node s right"
  shows "verdict_precise s l left right left_step k = Inr (m_type (m_tgraph_nodes s left) = PARALLEL)"
  using assms m_are_dependent_recorded [of s right left]
  by (auto simp: verdict_precise_def is_node_def Let_def)

text \<open>Two steps of a reachable graph: where they split and what the verdicts see there.\<close>

lemma steps_at_split:
  assumes wf: "wf_state s" and nodes: "is_node s a" "is_node s b" and "a \<noteq> b"
    and work: "type_of s a = WORK" "type_of s b = WORK"
  obtains d where "splits (m_tgraph_nodes s) a b d"
    and "is_node s (at_depth (m_tgraph_nodes s) a (Suc d))"
    and "is_node s (at_depth (m_tgraph_nodes s) b (Suc d))"
proof -
  note na = is_node_node_of [OF wf nodes(1)] and nb = is_node_node_of [OF wf nodes(2)]
  obtain d where d: "splits (m_tgraph_nodes s) a b d"
    using steps_split [OF na nb \<open>a \<noteq> b\<close> work] by blast
  then show ?thesis
    using that [OF d] branch_node(1) [OF na, of d] branch_node(1) [OF nb, of d]
    by (auto simp: splits_def is_node_def node_of_def)
qed

end
