(* ===== verification/Ordering.thy ===== *)
theory Ordering
  imports Reachable Series_Parallel
begin

text \<open>
  What the graph means. Once two steps exist their order never changes; a new step comes after
  everything below its older siblings that are not \<open>PARALLEL\<close>, and may run in parallel with
  what is below the \<open>PARALLEL\<close> ones. From this follow the orders that a task wait, the end of a
  task group, the end of a region and the creation of a task establish.
\<close>

section \<open>The order is stable\<close>

lemma extends_up:
  assumes "wf_state s" and "extends s s'" and "is_node s a" and "k \<le> m_depth (m_tgraph_nodes s a)"
  shows "up (m_tgraph_nodes s') k a = up (m_tgraph_nodes s) k a"
  using assms(4)
proof (induction k)
  case 0
  then show ?case by simp
next
  case (Suc k)
  then have "is_node s (up (m_tgraph_nodes s) k a)"
    using up_node [OF is_node_node_of [OF assms(1,3)], of k] by (simp add: node_of_def is_node_def)
  then show ?case
    using Suc extends_parent [OF assms(2)] by (simp add: up_Suc del: up.simps)
qed

lemma extends_depth: "extends s s' \<Longrightarrow> is_node s a \<Longrightarrow>
    m_depth (m_tgraph_nodes s' a) = m_depth (m_tgraph_nodes s a)"
  by (auto simp: extends_def)

lemma extends_at_depth:
  assumes "wf_state s" and "extends s s'" and "is_node s a"
  shows "at_depth (m_tgraph_nodes s') a d = at_depth (m_tgraph_nodes s) a d"
  using extends_up [OF assms] extends_depth [OF assms(2,3)] by (simp add: at_depth_def)

lemma is_node_branch:
  assumes "wf_state s" and "is_node s a" and "d < m_depth (m_tgraph_nodes s a)"
  shows "is_node s (at_depth (m_tgraph_nodes s) a (Suc d))"
  using branch_node(1) [OF is_node_node_of [OF assms(1,2)] assms(3)]
  by (simp add: node_of_def is_node_def)

lemma extends_order:
  assumes wf: "wf_state s" and e: "extends s s'" and nodes: "is_node s a" "is_node s b"
  shows "splits (m_tgraph_nodes s') a b d \<longleftrightarrow> splits (m_tgraph_nodes s) a b d"
    and "before (m_tgraph_nodes s') a b \<longleftrightarrow> before (m_tgraph_nodes s) a b"
    and "in_parallel (m_tgraph_nodes s') a b \<longleftrightarrow> in_parallel (m_tgraph_nodes s) a b"
proof -
  let ?g = "m_tgraph_nodes s" and ?h = "m_tgraph_nodes s'"
  note same = extends_at_depth [OF wf e nodes(1)] extends_at_depth [OF wf e nodes(2)]
    extends_depth [OF e nodes(1)] extends_depth [OF e nodes(2)]
  show sp: "splits ?h a b d \<longleftrightarrow> splits ?g a b d" for d
    unfolding splits_def same by simp
  have br: "m_type (?h (at_depth ?g a (Suc d))) = m_type (branch ?g a d)"
      "m_seqnum (?h (at_depth ?g a (Suc d))) = m_seqnum (branch ?g a d)"
      "m_type (?h (at_depth ?g b (Suc d))) = m_type (branch ?g b d)"
      "m_seqnum (?h (at_depth ?g b (Suc d))) = m_seqnum (branch ?g b d)"
    if "splits ?g a b d" for d
    using that is_node_branch [OF wf nodes(1), of d] is_node_branch [OF wf nodes(2), of d] e
    by (auto simp: splits_def extends_def)
  show "before ?h a b \<longleftrightarrow> before ?g a b"
    unfolding before_def sp same using br by auto
  show "in_parallel ?h a b \<longleftrightarrow> in_parallel ?g a b"
    unfolding in_parallel_def sp same using br by (auto split: if_splits)
qed

lemma extends_under:
  assumes "wf_state s" and "extends s s'" and "is_node s a" "is_node s x"
  shows "under (m_tgraph_nodes s') a x \<longleftrightarrow> under (m_tgraph_nodes s) a x"
  by (simp add: under_def extends_at_depth [OF assms(1-3)] extends_depth [OF assms(2,3)]
      extends_depth [OF assms(2,4)])

section \<open>A new step and its older siblings\<close>

lemma under_refl: "under g a a"
  by (simp add: under_def)

lemma siblings_order:
  assumes wf: "wf_state s" and nodes: "is_node s a" "is_node s b" "is_node s x" "is_node s y"
    and "x < y" "x \<noteq> 1" and par: "par (m_tgraph_nodes s) x = par (m_tgraph_nodes s) y"
    and un: "under (m_tgraph_nodes s) a x" "under (m_tgraph_nodes s) b y"
  shows "type_of s x \<noteq> PARALLEL \<Longrightarrow> before (m_tgraph_nodes s) a b"
    and "type_of s x = PARALLEL \<Longrightarrow> in_parallel (m_tgraph_nodes s) a b"
proof -
  let ?g = "m_tgraph_nodes s"
  have y1: "y \<noteq> 1" using assms(6,7) nodes(3) by (auto simp: is_node_def)
  note sp = siblings_split [OF is_node_node_of [OF wf nodes(1)] is_node_node_of [OF wf nodes(2)]
      is_node_node_of [OF wf nodes(3)] assms(7) is_node_node_of [OF wf nodes(4)] y1 par _ un]
  have "m_seqnum (?g x) < m_seqnum (?g y)"
    using wf_graphD(4) [OF wf_stateD(1) [OF wf], of x y] par assms(6,7) nodes
    by (auto simp: is_node_def)
  then show "type_of s x \<noteq> PARALLEL \<Longrightarrow> before ?g a b"
    and "type_of s x = PARALLEL \<Longrightarrow> in_parallel ?g a b"
    using sp assms(6) beforeI [OF sp(1)] in_parallelI [OF sp(1)] by auto
qed

lemma m_add_step_node_new:
  assumes "wf_state s" and "ready t 0 s" and "m_add_step_node t s = Inr s'"
  obtains "m_last_nodes s t \<noteq> []" "m_last_nodes s' t = m_last_nodes s t @ [m_last_allocated_node s]"
    "wf_state s'" "extends s s'" "is_node s' (m_last_allocated_node s)"
    "par (m_tgraph_nodes s') (m_last_allocated_node s) = last (m_last_nodes s t)"
    "type_of s' (m_last_allocated_node s) = WORK"
proof -
  from assms(3) obtain i u where i: "new_child WORK t s = Inr (i, u)" and u: "push_back i t u = Inr s'"
    by (auto simp: m_add_step_node_eq push_new_node_def)
  note n = wf_new_child [OF assms(1) assms(2) [unfolded ready_0] _ i, simplified]
  note r = new_child_Inr [OF assms(1) i]
  have "evolves s s'" using tripleD [OF triple_add_step _ assms(3)] assms(1,2) evolves_refl by blast
  then show ?thesis
    using that r(2,3) u n(3,4,5) new_child_parent(1) [OF assms(1) i]
    by (auto simp: evolves_def push_back_Inr is_node_def)
qed

text \<open>The step made by \<open>m_add_step_node\<close>, against everything below an older child of the node
  it is attached to.\<close>

lemma new_step_order:
  assumes wf: "wf_state s" and "ready t 0 s" and run: "m_add_step_node t s = Inr s'"
    and nodes: "is_node s a" "is_node s x" and x: "x \<noteq> 1"
    and par: "par (m_tgraph_nodes s) x = last (m_last_nodes s t)"
    and un: "under (m_tgraph_nodes s) a x"
  shows "type_of s x \<noteq> PARALLEL \<Longrightarrow> before (m_tgraph_nodes s') a (last (m_last_nodes s' t))"
    and "type_of s x = PARALLEL \<Longrightarrow> in_parallel (m_tgraph_nodes s') a (last (m_last_nodes s' t))"
proof -
  let ?b = "m_last_allocated_node s"
  obtain b: "m_last_nodes s t \<noteq> []" "m_last_nodes s' t = m_last_nodes s t @ [?b]" "wf_state s'"
    "extends s s'" "is_node s' ?b" "par (m_tgraph_nodes s') ?b = last (m_last_nodes s t)"
    "type_of s' ?b = WORK"
    using m_add_step_node_new [OF wf assms(2) run] by blast
  note nodes' = extends_is_node [OF b(4) nodes(1)] extends_is_node [OF b(4) nodes(2)]
  have xb: "x < ?b" using nodes(2) by (simp add: is_node_def)
  have par': "par (m_tgraph_nodes s') x = par (m_tgraph_nodes s') ?b"
    using par b(6) extends_parent [OF b(4) nodes(2)] by simp
  have un': "under (m_tgraph_nodes s') a x" using un extends_under [OF wf b(4) nodes] by simp
  note o = siblings_order [OF b(3) nodes'(1) b(5) nodes'(2) b(5) xb x par' un' under_refl]
  show "type_of s x \<noteq> PARALLEL \<Longrightarrow> before (m_tgraph_nodes s') a (last (m_last_nodes s' t))"
    and "type_of s x = PARALLEL \<Longrightarrow> in_parallel (m_tgraph_nodes s') a (last (m_last_nodes s' t))"
    using o b(2) extends_type [OF b(4) nodes(2)] by simp_all
qed

section \<open>Constructs that join\<close>

text \<open>A \<open>SERIES\<close> node of a construct: an ST-node, the node of a task group or of a region, but
  not the finish node of a barrier phase. It lies on the stack of its thread above its parent.\<close>

definition region_node :: "'a detector_scheme \<Rightarrow> nat \<Rightarrow> bool" where
  "region_node s x \<longleftrightarrow> type_of s x = SERIES \<and> x \<notin> set (m_pending_finish s)"

lemma region_node_link:
  assumes "wf_state s" and "m_last_nodes s t = xs @ [p, x] @ ys" and "region_node s x"
  shows "par (m_tgraph_nodes s) x = p" and "is_node s x" and "is_node s p" and "x \<noteq> 1"
proof -
  have st: "wf_stack s (xs @ [p, x] @ ys)" using wf_stateD(3) [OF assms(1), of t] assms(2) by simp
  then have "stacked s p x" by (auto simp: wf_stack_def successively_append_iff)
  then show p: "par (m_tgraph_nodes s) x = p" using assms(3) by (simp add: stacked_def region_node_def)
  show "is_node s x" "is_node s p" using st by (auto simp: wf_stack_def)
  then show "x \<noteq> 1"
    using p wf_graphD(2) [OF wf_stateD(1) [OF assms(1)]] by (auto simp: is_node_def wf_root_def)
qed

lemma st_node_region: "wf_state s \<Longrightarrow> m_finish_flag (m_tgraph_nodes s x) \<Longrightarrow> region_node s x"
  using wf_graphD(9) [OF wf_stateD(1), of s x] wf_stateD(4) [of s]
  by (auto simp: region_node_def wf_handles_def)

text \<open>The pops that end a construct change neither the graph nor the rest of the stack.\<close>

definition popped :: "nat \<Rightarrow> nat list \<Rightarrow> 'a detector_scheme \<Rightarrow> 'a detector_scheme \<Rightarrow> bool" where
  "popped t ys s u \<longleftrightarrow> m_last_nodes s t = m_last_nodes u t @ ys \<and>
     wf_state u \<and> extends s u \<and> m_last_allocated_node u = m_last_allocated_node s"

lemma popped_refl: "wf_state s \<Longrightarrow> popped t [] s s"
  by (simp add: popped_def)

lemma popped_pop:
  assumes "popped t ys s u" and "pop_back t u = Inr v"
  shows "popped t (last (m_last_nodes u t) # ys) s v"
  using assms wf_pop_back [of u t v] by (auto simp: popped_def pop_back_Inr intro: extends_trans)

lemma popped_step: "popped t ys s u \<Longrightarrow> m_pop_step_node t u = Inr v \<Longrightarrow>
    popped t (last (m_last_nodes u t) # ys) s v"
  by (simp add: m_pop_step_node_eq popped_pop)

lemma popped_cleanup:
  assumes "popped t ys s u" and "m_cleanup_finish_node t u = Inr v"
  shows "popped t (if m_finish_flag (m_tgraph_nodes u (last (m_last_nodes u t)))
                   then last (m_last_nodes u t) # ys else ys) s v"
proof -
  have ev: "evolves u v"
    using tripleD [OF triple_cleanup_any _ assms(2)] assms(1) evolves_refl by (auto simp: popped_def)
  show ?thesis
    using assms(1) ev m_cleanup_finish_node_Inr [OF assms(2)]
    by (auto simp: popped_def evolves_def pop_back_Inr intro: extends_trans)
qed

lemma popped_step_cleanup:
  assumes "wf_state s" and u: "m_pop_step_node t s = Inr u" and v: "m_cleanup_finish_node t u = Inr v"
  shows "\<exists>ys. popped t ys s v \<and> length ys = 1 + st_node_at t 1 s"
proof -
  have p1: "popped t [last (m_last_nodes s t)] s u"
    using popped_step [OF popped_refl [OF assms(1)] u] by simp
  have "st_node_at t 0 u = st_node_at t 1 s"
    using u by (auto simp: m_pop_step_node_eq pop_back_Inr st_node_at_def)
  moreover have "m_last_nodes u t \<noteq> []" by (rule m_cleanup_finish_node_Inr(1) [OF v])
  ultimately show ?thesis
    using popped_cleanup [OF p1 v]
    by (auto simp: st_node_at_def last_nth_top split: if_splits)
qed

text \<open>After the pops, the new step comes after everything below the node popped last.\<close>

lemma join_order:
  assumes wf: "wf_state s" and "popped t (x # ys) s u" and "ready t 0 u"
    and run: "m_add_step_node t u = Inr s'"
    and "region_node s x" and "is_node s a" and un: "under (m_tgraph_nodes s) a x"
  shows "before (m_tgraph_nodes s') a (last (m_last_nodes s' t))"
proof -
  have u: "m_last_nodes s t = m_last_nodes u t @ x # ys" "wf_state u" "extends s u"
    using assms(2) by (auto simp: popped_def)
  have "m_last_nodes u t \<noteq> []"
    using m_add_step_node_new [OF u(2) assms(3) run] by blast
  then obtain zs p where p: "m_last_nodes u t = zs @ [p]" by (cases "m_last_nodes u t" rule: rev_cases) auto
  note l = region_node_link [OF wf _ assms(5), of t zs p ys] u(1) p
  have par: "par (m_tgraph_nodes u) x = last (m_last_nodes u t)"
    using l extends_parent [OF u(3)] by simp
  show ?thesis
    using new_step_order(1) [OF u(2) assms(3) run extends_is_node [OF u(3) assms(6)]
        extends_is_node [OF u(3)] _ par] l extends_under [OF wf u(3) assms(6)] un
      extends_type [OF u(3)] assms(5)
    by (auto simp: region_node_def)
qed

lemma taskwait_end_block:
  assumes "m_capture_taskwait_end t s = Inr s'" and "m_last_nodes s t \<noteq> []"
  obtains s1 where "s1 = s \<or> s1 = update_node (last (m_last_nodes s t)) (\<lambda>nd. nd\<lparr>st_val := -1\<rparr>) s"
    and "block [m_cleanup_finish_node t, m_add_step_node t] s1 = Inr s'"
proof (cases "mode s = Precise \<and> m_finish_flag (m_tgraph_nodes s (last (m_last_nodes s t)))")
  case True
  then have "block [m_cleanup_finish_node t, m_add_step_node t]
      (update_node (last (m_last_nodes s t)) (\<lambda>nd. nd\<lparr>st_val := -1\<rparr>) s) = Inr s'"
    using assms by (auto simp: m_capture_taskwait_end_def m_capture_taskwait_end_precise_def
        stack_back_Inr)
  then show ?thesis using that by blast
next
  case False
  then have "block [m_cleanup_finish_node t, m_add_step_node t] s = Inr s'"
    using assms by (cases "mode s") (auto simp: m_capture_taskwait_end_def stack_back_Inr
        m_capture_taskwait_end_precise_def m_capture_taskwait_end_fast_def
        m_cleanup_finish_node_def stack_back_def split: if_splits)
  then show ?thesis using that by blast
qed

lemma st_val_unchanged:
  "m_tgraph_nodes (update_node i (\<lambda>nd. nd\<lparr>st_val := v\<rparr>) s) j =
     (if j = i then (m_tgraph_nodes s j)\<lparr>st_val := v\<rparr> else m_tgraph_nodes s j)"
  by (simp add: update_node_def)

lemma wf_st_val:
  assumes "wf_state s" and "is_node s i"
  shows "wf_state (update_node i (\<lambda>nd. nd\<lparr>st_val := v\<rparr>) s)"
    and "extends s (update_node i (\<lambda>nd. nd\<lparr>st_val := v\<rparr>) s)"
  using evolves_st_val [OF evolves_refl [OF assms(1)] assms(2)] by (simp_all add: evolves_def)

section \<open>Properties\<close>

text \<open>The runs the examples use, after the start of a region of two threads.\<close>

definition wait_run :: "callback list" where
  "wait_run = [Task_alloc 0 7 False, Task_begin 0 7, Task_end 0, Taskwait_begin 0]"

definition group_run :: "callback list" where
  "group_run = [Taskgroup_begin 0, Task_alloc 0 7 False, Task_begin 1 7, Task_end 1]"

definition finish_run :: "callback list" where
  "finish_run = [Barrier_begin 0, Barrier_begin 1, Barrier_end 0, Barrier_end 1,
     Implicit_task_end 0, Implicit_task_end 1]"

definition phase_run :: "callback list" where
  "phase_run = [Barrier_begin 1, Barrier_end 0, Barrier_end 1]"

text \<open>C3: In every state a run of allowed callbacks reaches, in either build, the graph is a
  tree of nodes numbered in creation order with the step nodes as its leaves, depths one more
  than the parent's and siblings in increasing sequence number, no counter reaching 2^27; and
  each thread's stack holds existing nodes, never a step on a step, every SERIES node that is
  not a barrier's lying on its parent.\<close>

theorem reachable_invariant: "reachable md nc s \<Longrightarrow> wf_state s \<and> mode s = md"
  using reachable_wf reachable_mode by blast

theorem reachable_invariant_witness:
  "wf_state (run_state Fast region_run) \<and> mode (run_state Fast region_run) = Fast"
  by (rule reachable_invariant [OF region_state_reachable])

text \<open>C9: A callback that is allowed never changes the type, parent, depth or sequence number of
  a node that exists: the order of two existing nodes, and whether they may run in parallel,
  stay what they were for the rest of the run.\<close>

theorem order_never_changes:
  assumes "reachable md nc s" and "allowed_run cs s" and "run_callbacks cs s = Inr s'"
    and "is_node s a" and "is_node s b"
  shows "before (m_tgraph_nodes s') a b = before (m_tgraph_nodes s) a b \<and>
    in_parallel (m_tgraph_nodes s') a b = in_parallel (m_tgraph_nodes s) a b"
  using extends_order(2,3) [OF reachable_wf [OF assms(1)] _ assms(4,5)]
    run_callbacks_extends [OF reachable_wf [OF assms(1)] assms(2,3)] by blast

theorem order_never_changes_witness:
  "\<exists>s'. run_callbacks [Barrier_begin 0] (run_state Fast team_run) = Inr s' \<and>
     in_parallel (m_tgraph_nodes s') 6 8 = in_parallel (m_tgraph_nodes (run_state Fast team_run)) 6 8"
proof -
  obtain s' where "allowed_run [Barrier_begin 0] (run_state Fast team_run)"
    and c: "run_callbacks [Barrier_begin 0] (run_state Fast team_run) = Inr s'"
    and "is_node (run_state Fast team_run) 6" "is_node (run_state Fast team_run) 8"
    by (simp add:  run_eval region_node_def is_node_def under_def at_depth_def up_numeral
        cong: and_then_weak_cong)
  then show ?thesis using order_never_changes [OF team_state_reachable] by blast
qed



text \<open>C7: A task group joins: the step after it comes after every node below the group's node,
  the descendants of its tasks included.\<close>

theorem taskgroup_joins:
  assumes "reachable md nc s" and "allowed (Taskgroup_end t) s"
    and "capture (Taskgroup_end t) s = Inr s'"
    and "x = nth_top (m_last_nodes s t) (1 + st_node_at t 1 s)" and "region_node s x"
    and "is_node s a" and "under (m_tgraph_nodes s) a x"
  shows "before (m_tgraph_nodes s') a (last (m_last_nodes s' t))"
proof -
  have wf: "wf_state s" by (rule reachable_wf [OF assms(1)])
  from assms(3) obtain u v w where u: "m_pop_step_node t s = Inr u"
    and v: "m_cleanup_finish_node t u = Inr v" and w: "pop_back t v = Inr w"
    and run: "m_add_step_node t w = Inr s'"
    by (auto simp: m_capture_taskgroup_end_def)
  obtain ys where p2: "popped t ys s v" and ys: "length ys = 1 + st_node_at t 1 s"
    using popped_step_cleanup [OF wf u v] by blast
  have vl: "m_last_nodes v t \<noteq> []" using w by (simp add: pop_back_Inr)
  have "x = last (m_last_nodes v t)"
    using p2 ys vl by (simp add: popped_def assms(4) nth_top_def nth_append last_conv_nth)
  then have p3: "popped t (x # ys) s w" using popped_pop [OF p2 w] by simp
  have "triple (\<lambda>z. evolves s z \<and> ready t (Suc 1 + st_node_at t 1 z) z)
      (block ([m_pop_step_node t, m_cleanup_finish_node t] @ [pop_back t]))
      (\<lambda>z. evolves s z \<and> ready t 0 z)"
    unfolding One_nat_def [symmetric]
    by (intro triple_block_append [OF triple_pop_step_cleanup])
      (simp add: triple_block_single [OF triple_pop_back_ready])
  from tripleD [OF this, of s w] have "ready t 0 w"
    using assms(2) evolves_refl [OF wf] u v w by simp
  from join_order [OF wf p3 this run assms(5,6,7)] show ?thesis .
qed

theorem taskgroup_joins_witness:
  "\<exists>s s'. reachable Fast False s \<and> capture (Taskgroup_end 0) s = Inr s' \<and>
     before (m_tgraph_nodes s') 14 (last (m_last_nodes s' 0))"
proof -
  obtain s s' where a: "allowed_run group_run (run_state Fast team_run)"
      "run_callbacks group_run (run_state Fast team_run) = Inr s"
    and c: "capture (Taskgroup_end 0) s = Inr s'" and al: "allowed (Taskgroup_end 0) s"
    and f: "9 = nth_top (m_last_nodes s 0) (1 + st_node_at 0 1 s)" "region_node s 9" "is_node s 14"
      "under (m_tgraph_nodes s) 14 9"
    by (simp add: group_run_def run_eval region_node_def is_node_def under_def at_depth_def up_numeral
        cong: and_then_weak_cong)
  have r: "reachable Fast False s" by (rule run_state_append [OF team_state_reachable a])
  show ?thesis using taskgroup_joins [OF r al c f] r c by blast
qed

text \<open>C8: The end of a region joins: the first step after it comes after every node below the
  region's outer finish node, whatever the threads of the team did.\<close>

theorem parallel_end_joins:
  assumes "reachable md nc s" and "allowed (Parallel_end t) s"
    and "capture (Parallel_end t) s = Inr s'"
    and "region_node s (last (m_last_nodes s t))"
    and "is_node s a" and "under (m_tgraph_nodes s) a (last (m_last_nodes s t))"
  shows "before (m_tgraph_nodes s') a (last (m_last_nodes s' t))"
proof -
  have wf: "wf_state s" by (rule reachable_wf [OF assms(1)])
  from assms(3) obtain u v where u: "pop_back t s = Inr u" and v: "m_add_step_node t u = Inr v"
    and s': "s' = v\<lparr>omprace_in_parallel := False\<rparr>"
    by (auto simp: m_capture_parallel_end_def)
  have "ready t 0 u" using ready_pop_back [OF u, of 0] assms(2) by simp
  from join_order [OF wf popped_pop [OF popped_refl [OF wf] u] this v assms(4,5,6)]
  show ?thesis by (simp add: s')
qed

theorem parallel_end_joins_witness:
  "\<exists>s s'. reachable Fast False s \<and> capture (Parallel_end 0) s = Inr s' \<and>
     before (m_tgraph_nodes s') 8 (last (m_last_nodes s' 0))"
proof -
  obtain s s' where a: "allowed_run finish_run (run_state Fast team_run)"
      "run_callbacks finish_run (run_state Fast team_run) = Inr s"
    and c: "capture (Parallel_end 0) s = Inr s'" and al: "allowed (Parallel_end 0) s"
    and f: "last (m_last_nodes s 0) = 3" "region_node s 3" "is_node s 8" "under (m_tgraph_nodes s) 8 3"
    by (simp add: finish_run_def run_eval region_node_def is_node_def under_def at_depth_def up_numeral
        cong: and_then_weak_cong)
  have r: "reachable Fast False s" by (rule run_state_append [OF team_state_reachable a])
  show ?thesis using parallel_end_joins [OF r al c, unfolded f(1), OF f(2-4)] r c by blast
qed

section \<open>Constructs that fork\<close>

lemma task_alloc_new:
  assumes wf: "wf_state s" and al: "allowed (Task_alloc t j d) s"
    and run: "capture (Task_alloc t j d) s = Inr s'"
  obtains x where "m_task_map s' j = Some x" "type_of s' x = PARALLEL" "is_node s' x" "x \<noteq> 1"
    "is_node s' (last (m_last_nodes s' t))" "x < last (m_last_nodes s' t)"
    "par (m_tgraph_nodes s') x = par (m_tgraph_nodes s') (last (m_last_nodes s' t))"
proof -
  let ?reg = "\<lambda>i v. v\<lparr>m_task_map := (m_task_map v)(j \<mapsto> i)\<rparr>"
  from run obtain u where u: "m_pop_step_node t s = Inr u"
    unfolding capture.simps m_capture_task_alloc_def by blast
  have e: "evolves s u" "ready t 0 u"
    using tripleD [OF triple_pop_step_top _ u, of s] al evolves_refl [OF wf] by auto
  obtain w i x where w: "evolves s w" "ready t 0 w" and i: "new_child PARALLEL t w = Inr (i, x)"
    and a: "m_add_step_node t (?reg i (set_task_id d j i x)) = Inr s'"
  proof (cases "m_young_ns_child (m_tgraph_nodes u (last (m_last_nodes u t))) = PARALLEL")
    case True
    then obtain i x where "new_child PARALLEL t u = Inr (i, x)"
      and "m_add_step_node t (?reg i (set_task_id d j i x)) = Inr s'"
      using run u unfolding capture.simps m_capture_task_alloc_def Let_def
      by (auto simp: stack_back_Inr create_and_link split: prod.splits)
    then show ?thesis using that e by blast
  next
    case False
    then obtain k v w i x where k: "new_child SERIES t u = Inr (k, v)"
      and w: "push_back k t (update_node k st_flags v) = Inr w"
      and "new_child PARALLEL t w = Inr (i, x)"
      and "m_add_step_node t (?reg i (set_task_id d j i x)) = Inr s'"
      using run u unfolding capture.simps m_capture_task_alloc_def Let_def
      by (auto simp: stack_back_Inr create_and_link create_number_and_link st_flags_def [abs_def]
          split: prod.splits)
    then show ?thesis using that evolves_new_st_node [OF e k w] by blast
  qed
  let ?z = "?reg i (set_task_id d j i x)"
  note z = evolves_new_async [OF w i refl, of d j]
  note n = evolves_new_child [OF w _ i, simplified]
  have wfw: "wf_state w" and wfz: "wf_state ?z" using w(1) z(1) by (simp_all add: evolves_def)
  note r = new_child_Inr [OF wfw i]
  have b: "m_last_nodes s' t = m_last_nodes ?z t @ [m_last_allocated_node ?z]" "extends ?z s'"
    "is_node s' (m_last_allocated_node ?z)"
    "par (m_tgraph_nodes s') (m_last_allocated_node ?z) = last (m_last_nodes ?z t)"
    using m_add_step_node_new [OF wfz z(2) a] by blast+
  have zi: "is_node ?z i" "type_of ?z i = PARALLEL" using n(2,3) by (simp_all add: is_node_def)
  have "par (m_tgraph_nodes ?z) i = last (m_last_nodes ?z t)"
    using new_child_parent(1) [OF wfw i] r(6) by (simp add: set_task_id_def update_node_def)
  then have "par (m_tgraph_nodes s') i = last (m_last_nodes ?z t)"
    using extends_parent [OF b(2) zi(1)] by simp
  moreover have "m_task_map s' j = Some i"
  proof -
    from a obtain q y where q: "new_child WORK t ?z = Inr (q, y)" and y: "push_back q t y = Inr s'"
      by (auto simp: m_add_step_node_eq push_new_node_def)
    have "m_task_map y = m_task_map ?z" by (simp add: new_child_Inr(6) [OF wfz q])
    then show ?thesis using y by (auto simp: push_back_Inr)
  qed
  moreover have "i \<noteq> 1" using r(3) wf_graphD(1) [OF wf_stateD(1) [OF wfw]] by simp
  moreover have "i < m_last_allocated_node ?z" using zi(1) by (simp add: is_node_def)
  ultimately show ?thesis
    using that [of i] b extends_type [OF b(2) zi(1)] extends_is_node [OF b(2) zi(1)] zi(2) by simp
qed

text \<open>C5: Task creation forks: however the run goes on, every node below the node of the new
  task (the steps of the task and of its descendants) may run in parallel with the step of its
  creator that follows the creation.\<close>

theorem task_alloc_forks:
  assumes "reachable md nc s" and "allowed (Task_alloc t j d) s"
    and "capture (Task_alloc t j d) s = Inr s'" and "m_task_map s' j = Some x"
    and "allowed_run cs s'" and "run_callbacks cs s' = Inr s''"
    and "is_node s'' a" and "under (m_tgraph_nodes s'') a x"
  shows "in_parallel (m_tgraph_nodes s'') a (last (m_last_nodes s' t))"
proof -
  have wf: "wf_state s" by (rule reachable_wf [OF assms(1)])
  have wf': "wf_state s'" by (rule capture_evolves(1) [OF wf assms(2,3)])
  obtain n: "type_of s' x = PARALLEL" "is_node s' x" "x \<noteq> 1" "is_node s' (last (m_last_nodes s' t))"
    "x < last (m_last_nodes s' t)"
    "par (m_tgraph_nodes s') x = par (m_tgraph_nodes s') (last (m_last_nodes s' t))"
    using task_alloc_new [OF wf assms(2,3)] assms(4) by auto
  have later: "wf_state s''" and e: "extends s' s''"
    using run_callbacks_extends [OF wf' assms(5,6)] by simp_all
  note k = extends_is_node [OF e n(2)] extends_is_node [OF e n(4)]
  show ?thesis
    using siblings_order(2) [OF later assms(7) k(2,1,2) n(5,3) _ assms(8) under_refl]
      extends_parent [OF e n(2)] extends_parent [OF e n(4)] extends_type [OF e n(2)] n(1,6) by simp
qed

theorem task_alloc_forks_witness:
  "\<exists>s' s''. capture (Task_alloc 0 7 False) (run_state Fast team_run) = Inr s' \<and>
     run_callbacks [Task_begin 1 7] s' = Inr s'' \<and>
     in_parallel (m_tgraph_nodes s'') 12 (last (m_last_nodes s' 0))"
proof -
  obtain s' s'' where f: "allowed (Task_alloc 0 7 False) (run_state Fast team_run)"
    "capture (Task_alloc 0 7 False) (run_state Fast team_run) = Inr s'" "m_task_map s' 7 = Some 10"
    "allowed_run [Task_begin 1 7] s'" "run_callbacks [Task_begin 1 7] s' = Inr s''" "is_node s'' 12"
    "under (m_tgraph_nodes s'') 12 10"
    by (simp add:  run_eval region_node_def is_node_def under_def at_depth_def up_numeral
        cong: and_then_weak_cong)
  show ?thesis using task_alloc_forks [OF team_state_reachable f] f(2,5) by blast
qed

section \<open>Barriers\<close>

lemma barrier_begin_blocks:
  assumes "m_capture_barrier_begin t s = Inr s'"
  obtains u v w z x where "m_pop_step_node t s = Inr u" "m_cleanup_finish_node t u = Inr v"
    "pop_back t v = Inr w" "pop_back t w = Inr z"
    "barrier_finish_node t (z\<lparr>m_barrier_count := (m_barrier_count z)(t := m_barrier_count z t + 1)\<rparr>)
       = Inr x"
    "push_new_node PARALLEL t x = Inr s'"
  using assms unfolding m_capture_barrier_begin_def
  by (elim and_then_InrE) (auto split: if_split_asm)

lemma pops_keep_counts:
  "pop_back t s = Inr u \<Longrightarrow> m_barrier_count u = m_barrier_count s \<and> m_num_threads u = m_num_threads s \<and>
     m_pending_finish u = m_pending_finish s"
  "m_pop_step_node t s = Inr u \<Longrightarrow> m_barrier_count u = m_barrier_count s \<and>
     m_num_threads u = m_num_threads s \<and> m_pending_finish u = m_pending_finish s"
  "m_cleanup_finish_node t s = Inr u \<Longrightarrow> m_barrier_count u = m_barrier_count s \<and>
     m_num_threads u = m_num_threads s \<and> m_pending_finish u = m_pending_finish s"
  by (auto simp: pop_back_Inr m_pop_step_node_eq m_cleanup_finish_node_def stack_back_Inr
      split: if_splits)

lemma max_barrier_count_cong:
  "(\<And>i. i \<noteq> t \<Longrightarrow> m_barrier_count u i = m_barrier_count s i) \<Longrightarrow>
     m_num_threads u = m_num_threads s \<Longrightarrow> max_barrier_count t u = max_barrier_count t s"
  by (auto simp: max_barrier_count_def intro!: fold_cong)

text \<open>The new phase of the first thread that arrives: its finish node is a child of the node
  below the old phase's finish node, and is remembered for the others.\<close>

lemma barrier_first:
  assumes wf: "wf_state s" and al: "allowed (Barrier_begin t) s"
    and run: "capture (Barrier_begin t) s = Inr s'"
    and first: "max_barrier_count t s < m_barrier_count s t + 1"
  defines "y \<equiv> last (m_pending_finish s')"
  shows "m_pending_finish s' = m_pending_finish s @ [y]" and "is_node s' y" "y \<noteq> 1"
    and "m_last_allocated_node s \<le> y"
    and "par (m_tgraph_nodes s') y = nth_top (m_last_nodes s t) (3 + st_node_at t 1 s)"
proof -
  obtain u v w z x where u: "m_pop_step_node t s = Inr u" and v: "m_cleanup_finish_node t u = Inr v"
    and w: "pop_back t v = Inr w" and z: "pop_back t w = Inr z" and
    x: "barrier_finish_node t (z\<lparr>m_barrier_count := (m_barrier_count z)(t := m_barrier_count z t + 1)\<rparr>)
       = Inr x" (is "barrier_finish_node t ?z = _") and
    s': "push_new_node PARALLEL t x = Inr s'"
    by (rule barrier_begin_blocks [OF run [unfolded capture.simps]])
  obtain ys where p2: "popped t ys s v" and ys: "length ys = 1 + st_node_at t 1 s"
    using popped_step_cleanup [OF wf u v] by blast
  note p4 = popped_pop [OF popped_pop [OF p2 w] z]
  have keep: "m_barrier_count z = m_barrier_count s" "m_num_threads z = m_num_threads s"
    "m_pending_finish z = m_pending_finish s"
    using pops_keep_counts(2) [OF u] pops_keep_counts(3) [OF v] pops_keep_counts(1) [OF w]
      pops_keep_counts(1) [OF z] by simp_all
  have "max_barrier_count t ?z = max_barrier_count t s"
    by (rule max_barrier_count_cong) (simp_all add: keep)
  then obtain i b c where i: "new_child SERIES t ?z = Inr (i, b)" and c: "push_back i t b = Inr c"
    and xc: "x = c\<lparr>m_pending_finish := m_pending_finish c @ [i]\<rparr>"
    using x first keep by (auto simp: barrier_finish_node_def)
  have "triple (\<lambda>q. evolves s q \<and> ready t (Suc 2 + st_node_at t 1 q) q)
      (block ([m_pop_step_node t, m_cleanup_finish_node t] @ [pop_back t, pop_back t]))
      (\<lambda>q. evolves s q \<and> ready t 0 q)"
    unfolding numeral_2_eq_2
    by (intro triple_block_append [OF triple_pop_step_cleanup]
        triple_block_Cons [OF triple_pop_back_ready] triple_block_single [OF triple_pop_back_ready])
  from tripleD [OF this, of s z] have "evolves s z \<and> ready t 0 z"
    using al evolves_refl [OF wf] u v w z by simp
  then have ez: "evolves s ?z" "ready t 0 ?z"
    by (auto simp: ready_def intro: evolves_cong)
  have wfz: "wf_state ?z" using ez by (simp add: evolves_def)
  note r = new_child_Inr [OF wfz i]
  have ex: "evolves s x" "ready t 0 x"
    using tripleD [OF triple_barrier_finish_node _ x] ez by blast+
  have sx: "m_pending_finish x = m_pending_finish s @ [i]" and inode: "is_node x i"
    using c xc r(3,6) keep ez evolves_wf_handles [OF ex(1)] by (auto simp: push_back_Inr wf_handles_def)
  obtain j d where j: "new_child PARALLEL t x = Inr (j, d)" and d: "push_back j t d = Inr s'"
    using s' by (auto simp: push_new_node_def)
  have wfx: "wf_state x" using ex by (simp add: evolves_def)
  have sp: "m_pending_finish s' = m_pending_finish x"
    using d new_child_Inr(6) [OF wfx j] by (simp add: push_back_Inr)
  then have y: "y = i" using sx by (simp add: y_def)
  show "m_pending_finish s' = m_pending_finish s @ [y]" using sp sx y by simp
  have e: "extends x s'"
    using tripleD [OF triple_push_new_node _ s', of x] ex evolves_refl [OF wfx]
    by (auto simp: evolves_def)
  show "is_node s' y" using extends_is_node [OF e inode] y by simp
  have al: "m_last_allocated_node z = m_last_allocated_node s" using p4 by (simp add: popped_def)
  then show "m_last_allocated_node s \<le> y" "y \<noteq> 1"
    using r(3) y wf_graphD(1) [OF wf_stateD(1) [OF wf]] by simp_all
  have ne: "m_last_nodes z t \<noteq> []" using r(2) by simp
  have "par (m_tgraph_nodes s') y = last (m_last_nodes z t)"
    using new_child_parent(1) [OF wfz i] extends_parent [OF e inode] c xc y
    by (simp add: push_back_Inr)
  also have "\<dots> = nth_top (m_last_nodes s t) (3 + st_node_at t 1 s)"
    using p4 ys ne by (simp add: popped_def nth_top_def nth_append last_conv_nth)
  finally show "par (m_tgraph_nodes s') y = nth_top (m_last_nodes s t) (3 + st_node_at t 1 s)" .
qed

text \<open>C6: A barrier separates phases: when the first thread of the team arrives, a new finish node
  is made beside the finish node of the phase that ends, and however the run goes on every node
  below the old one comes before every node below the new one.\<close>

theorem barrier_separates:
  assumes "reachable md nc s" and "allowed (Barrier_begin t) s"
    and "capture (Barrier_begin t) s = Inr s'"
    and "max_barrier_count t s < m_barrier_count s t + 1"
    and "x = nth_top (m_last_nodes s t) (2 + st_node_at t 1 s)" and "is_node s x" "x \<noteq> 1"
    and "type_of s x = SERIES"
    and "par (m_tgraph_nodes s) x = nth_top (m_last_nodes s t) (3 + st_node_at t 1 s)"
    and "allowed_run cs s'" and "run_callbacks cs s' = Inr s''"
    and "is_node s'' a" and "under (m_tgraph_nodes s'') a x"
    and "is_node s'' b" and "under (m_tgraph_nodes s'') b (last (m_pending_finish s'))"
  shows "before (m_tgraph_nodes s'') a b"
proof -
  let ?y = "last (m_pending_finish s')"
  have wf: "wf_state s" by (rule reachable_wf [OF assms(1)])
  note y = barrier_first [OF wf assms(2,3,4)]
  note c = capture_evolves [OF wf assms(2,3)]
  have l: "wf_state s''" "extends s' s''"
    using run_callbacks_extends [OF c(1) assms(10,11)] by simp_all
  note x' = extends_is_node [OF c(2) assms(6)]
  have xy: "x < ?y" using y(4) assms(6) by (simp add: is_node_def)
  have "par (m_tgraph_nodes s'') x = par (m_tgraph_nodes s'') ?y"
    using assms(9) y(5) extends_parent [OF c(2) assms(6)] extends_parent [OF l(2) x']
      extends_parent [OF l(2) y(2)] by simp
  moreover have "type_of s'' x \<noteq> PARALLEL"
    using assms(8) extends_type [OF c(2) assms(6)] extends_type [OF l(2) x'] by simp
  ultimately show ?thesis
    using siblings_order(1) [OF l(1) assms(12,14) extends_is_node [OF l(2) x']
        extends_is_node [OF l(2) y(2)] xy assms(7) _ assms(13,15)] by blast
qed

theorem barrier_separates_witness:
  "\<exists>s s' s''. reachable Fast False s \<and> capture (Barrier_begin 0) s = Inr s' \<and>
     run_callbacks phase_run s' = Inr s'' \<and> before (m_tgraph_nodes s'') 8 12"
proof -
  obtain s s' s'' where a: "allowed_run [] (run_state Fast team_run)"
      "run_callbacks [] (run_state Fast team_run) = Inr s" and
    f: "allowed (Barrier_begin 0) s" "capture (Barrier_begin 0) s = Inr s'"
    "max_barrier_count 0 s < m_barrier_count s 0 + 1"
    "4 = nth_top (m_last_nodes s 0) (2 + st_node_at 0 1 s)" "is_node s 4" "(4::nat) \<noteq> 1"
    "type_of s 4 = SERIES" and
    l: "par (m_tgraph_nodes s) 4 = nth_top (m_last_nodes s 0) (3 + st_node_at 0 1 s)"
    "allowed_run phase_run s'" "run_callbacks phase_run s' = Inr s''"
    "is_node s'' 8" "under (m_tgraph_nodes s'') 8 4"
    "is_node s'' 12" "under (m_tgraph_nodes s'') 12 (last (m_pending_finish s'))"
    by (simp add: phase_run_def run_eval is_node_def under_def at_depth_def up_numeral
        cong: and_then_weak_cong)
  have r: "reachable Fast False s" by (rule run_state_append [OF team_state_reachable a])
  show ?thesis using barrier_separates [OF r f l] r f(2) l(3) by blast
qed

end
