(* ===== verification/Verdict.thy ===== *)
theory Verdict
  imports Ordering
begin

text \<open>
  \<open>m_isparallel\<close> and \<open>m_lca\<close> against the order of theory \<open>Tree_Order\<close>: what each build
  answers, that the answer is symmetric and never changes, and where the code departs from what
  it means to compute.
\<close>

section \<open>What the builds answer\<close>

lemma m_isparallel_fast_recorded:
  assumes wf: "wf_state s" and dr: "deps_recorded s" and nodes: "is_node s a" "is_node s b"
    and work: "type_of s a = WORK" "type_of s b = WORK" and ab: "a \<noteq> b"
  shows "m_isparallel_fast s a b = Inr (in_parallel (m_tgraph_nodes s) a b \<and> \<not> dependent s a b)"
proof -
  let ?g = "m_tgraph_nodes s"
  obtain d where sp: "splits ?g a b d"
    and ch: "is_node s (at_depth ?g a (Suc d))" "is_node s (at_depth ?g b (Suc d))"
    using steps_at_split [OF wf nodes ab work] by blast
  have dep: "m_are_dependent s i j = Inr (tasks_conflict s i j)" if "is_node s i" "is_node s j" for i j
    using m_are_dependent_recorded [OF dr] that by (simp add: is_node_def)
  show ?thesis
    using m_isparallel_fast_at_split [OF wf nodes ab sp] dep ch
      at_split(3) [OF is_node_node_of [OF wf nodes(1)] is_node_node_of [OF wf nodes(2)] sp]
      dependent_at_split [OF wf nodes sp]
      tasks_conflict_sym [of s "at_depth ?g a (Suc d)" "at_depth ?g b (Suc d)"]
    by (simp add: verdict_fast_def)
qed

lemma m_isparallel_precise_recorded:
  assumes wf: "wf_state s" and dr: "deps_recorded s" and nodes: "is_node s a" "is_node s b"
    and work: "type_of s a = WORK" "type_of s b = WORK" and ab: "a \<noteq> b"
  shows "m_isparallel_precise s a b = Inr (in_parallel (m_tgraph_nodes s) a b)"
proof -
  let ?g = "m_tgraph_nodes s"
  obtain d where sp: "splits ?g a b d"
    and ch: "is_node s (at_depth ?g a (Suc d))" "is_node s (at_depth ?g b (Suc d))"
    using steps_at_split [OF wf nodes ab work] by blast
  obtain k where k: "m_isparallel_precise s a b =
      (if m_seqnum (branch ?g a d) < m_seqnum (branch ?g b d)
       then verdict_precise s (at_depth ?g a d) (at_depth ?g a (Suc d)) (at_depth ?g b (Suc d)) a k
       else verdict_precise s (at_depth ?g a d) (at_depth ?g b (Suc d)) (at_depth ?g a (Suc d)) b k)"
    using m_isparallel_precise_at_split [OF wf nodes ab sp] by blast
  show ?thesis
    unfolding k at_split(3) [OF is_node_node_of [OF wf nodes(1)] is_node_node_of [OF wf nodes(2)] sp]
    using verdict_precise_recorded [OF wf dr] ch by simp
qed

lemma m_isparallel_trivial:
  "a \<noteq> 0 \<Longrightarrow> m_isparallel_fast s a a = Inr False" "a \<noteq> 0 \<Longrightarrow> m_isparallel_precise s a a = Inr False"
  "a \<noteq> 0 \<Longrightarrow> m_isparallel_fast s a 0 = Inr False" "a \<noteq> 0 \<Longrightarrow> m_isparallel_precise s a 0 = Inr False"
  by (simp_all add: m_isparallel_fast_def m_isparallel_precise_def Let_def)

section \<open>The least common ancestor\<close>

lemma meet_from_0:
  "node_of g n r \<Longrightarrow> \<exists>p q. meet g (0, pc) (r, pr) = Some ((0, p), (0, q))"
proof (induction "m_depth (g r)" arbitrary: r pc pr)
  case 0
  then have r: "r = 1" using depth_0_iff [OF 0(2)] by simp
  have g: "m_parent (g 0) = 0" "m_parent (g 1) = 0"
    using wf_graphD(2) [OF node_ofD(1) [OF 0(2)]] by (auto simp: wf_root_def zero_node_def)
  have "meet g (0, 0) (0, Suc 0) = Some ((0, 0), (0, Suc 0))" by (subst meet.simps) simp
  then show ?case using g by (subst meet.simps) (simp add: r)
next
  case (Suc e)
  have g: "m_parent (g 0) = 0"
    using wf_graphD(2) [OF node_ofD(1) [OF Suc(3)]] by (auto simp: wf_root_def zero_node_def)
  have "r \<noteq> 0" using Suc(3) by (auto simp: node_of_def)
  then show ?case
    using Suc(1) [of "par g r" 0 r] depth_par [OF Suc(3) Suc(2) [symmetric]] g
    by (subst meet.simps) simp
qed

lemma meet_uneven:
  assumes "node_of g n c" "node_of g n r" and "m_depth (g c) < m_depth (g r)"
  shows "\<exists>p q. meet g (c, pc) (r, pr) = Some ((0, p), (0, q))"
  using assms
proof (induction "m_depth (g c)" arbitrary: c r pc pr)
  case 0
  obtain e where e: "m_depth (g r) = Suc e" using 0(4) by (cases "m_depth (g r)") auto
  have c: "c = 1" using 0(1) depth_0_iff [OF 0(2)] by simp
  have "m_parent (g 1) = 0" "c \<noteq> r"
    using wf_graphD(2) [OF node_ofD(1) [OF 0(2)]] 0(4) by (auto simp: wf_root_def)
  then show ?case
    using meet_from_0 [of g n "par g r" c r] depth_par [OF 0(3) e] c by (subst meet.simps) simp
next
  case (Suc e)
  obtain f where f: "m_depth (g r) = Suc f" using Suc(5) by (cases "m_depth (g r)") auto
  have "c \<noteq> r" using Suc(5) by auto
  then show ?case
    using Suc(1) [of "par g c" "par g r" c r] depth_par [OF Suc(3) Suc(2) [symmetric]]
      depth_par [OF Suc(4) f] Suc(2,5) f by (subst meet.simps) simp
qed

lemma m_lca_split:
  assumes wf: "wf_state s" and nodes: "is_node s a" "is_node s b"
    and sp: "splits (m_tgraph_nodes s) a b d"
    and dep: "m_depth (m_tgraph_nodes s b) \<le> Suc (m_depth (m_tgraph_nodes s a))"
  shows "m_lca s a b = Inr (at_depth (m_tgraph_nodes s) a d)"
proof -
  let ?g = "m_tgraph_nodes s"
  note w = walk_split [OF is_node_node_of [OF wf nodes(1)] is_node_node_of [OF wf nodes(2)] sp]
  consider "m_depth (?g a) = m_depth (?g b)" | "m_depth (?g b) = Suc (m_depth (?g a))"
    | "m_depth (?g b) < m_depth (?g a)" using dep by linarith
  then show ?thesis
  proof cases
    case 1
    then show ?thesis using w by (auto simp: walk_def m_lca_def Let_def)
  next
    case 2
    note b = is_node_node_of [OF wf nodes(2)]
    have "at_depth ?g b (m_depth (?g a)) = par ?g b"
      using at_depth_Suc [of "m_depth (?g a)" ?g b] 2 at_depth_self [of ?g b] by simp
    then have "climb ?g (m_depth (?g a)) (b, 0) = Some (par ?g b, b)"
      using climb_ends [OF b, of "m_depth (?g a)" 0] 2 at_depth_self [of ?g b] by simp
    then have m: "meet ?g (a, 0) (par ?g b, b) = Some ((at_depth ?g a d, at_depth ?g a (Suc d)),
        (at_depth ?g b d, at_depth ?g b (Suc d)))"
      using w 2 by (auto simp: walk_def)
    have "\<exists>p q. meet ?g (a, 0) (par ?g b, 0) = Some ((at_depth ?g a d, p), q)"
      using meet_any_prev [OF m] by blast
    then show ?thesis using 2 by (auto simp: m_lca_def Let_def)
  next
    case 3
    then obtain v where v: "climb ?g (m_depth (?g b)) (a, 0) = Some v"
        "meet ?g v (b, 0) = Some ((at_depth ?g a d, at_depth ?g a (Suc d)),
            (at_depth ?g b d, at_depth ?g b (Suc d)))"
      using w by (auto simp: walk_def)
    have "\<exists>p q. meet ?g (fst v, 0) (b, 0) = Some ((at_depth ?g a d, p), q)"
      using meet_any_prev [of ?g "fst v" "snd v" b 0] v(2) by fastforce
    then show ?thesis using v(1) 3 by (auto simp: m_lca_def Let_def)
  qed
qed

section \<open>Properties\<close>

text \<open>The steps 14 and 15 of the two tasks of \<open>task_run\<close> and the continuation 13.\<close>

lemma task_state_steps:
  "is_node (run_state md task_run) 13" "is_node (run_state md task_run) 14"
  "is_node (run_state md task_run) 15" "type_of (run_state md task_run) 13 = WORK"
  "type_of (run_state md task_run) 14 = WORK" "type_of (run_state md task_run) 15 = WORK"
  by (cases md; simp add: run_eval is_node_def cong: and_then_weak_cong)+

lemma task_state_deps: "deps_recorded (run_state md task_run)"
  unfolding deps_recorded_def
  by (cases md; simp add: run_eval plain_def cong: and_then_weak_cong)

lemma task_state_order:
  "in_parallel (m_tgraph_nodes (run_state md task_run)) 15 14"
  "dependent (run_state md task_run) 15 14"
proof -
  let ?s = "run_state md task_run"
  have sp: "splits (m_tgraph_nodes ?s) 15 14 4"
    by (cases md; simp add: run_eval splits_def at_depth_def up_numeral cong: and_then_weak_cong)
  have br: "at_depth (m_tgraph_nodes ?s) 15 5 = 12" "at_depth (m_tgraph_nodes ?s) 14 5 = 10"
    by (cases md; simp add: run_eval at_depth_def up_numeral cong: and_then_weak_cong)+
  have t: "type_of ?s 10 = PARALLEL"
      "m_seqnum (m_tgraph_nodes ?s 10) < m_seqnum (m_tgraph_nodes ?s 12)"
    by (cases md; simp add: run_eval cong: and_then_weak_cong)+
  have d: "tasks_conflict ?s 12 10"
    by (cases md; simp add: run_eval tasks_conflict_def deps_of_def conflict_def writes_def
        cong: and_then_weak_cong)
  note wf = reachable_wf [OF task_state_reachable] and n = task_state_steps(2,3) [of md]
  show "in_parallel (m_tgraph_nodes ?s) 15 14"
    using at_split(3) [OF is_node_node_of [OF wf n(2)] is_node_node_of [OF wf n(1)] sp] br t by simp
  show "dependent ?s 15 14"
    using dependent_at_split [OF wf n(2,1) sp] br d by simp
qed

text \<open>C1: The fast build's \<open>m_isparallel\<close> ends on any two steps of a reachable graph and answers
  exactly: the steps may run in parallel in the series-parallel order, and their tasks have no
  conflicting dependences.\<close>

theorem m_isparallel_fast_correct:
  assumes "reachable Fast nc s" and "deps_recorded s" and "is_node s a" "is_node s b"
    and "type_of s a = WORK" "type_of s b = WORK"
  shows "m_isparallel s a b =
    Inr (a \<noteq> b \<and> in_parallel (m_tgraph_nodes s) a b \<and> \<not> dependent s a b)"
  using m_isparallel_fast_recorded [OF reachable_wf [OF assms(1)] assms(2-6)]
    reachable_mode [OF assms(1)] assms(3) m_isparallel_trivial(1) [of a s]
  by (cases "a = b") (auto simp: m_isparallel_def is_node_def)

theorem m_isparallel_fast_correct_witness:
  "m_isparallel (run_state Fast task_run) 15 14 = Inr False"
  using m_isparallel_fast_correct [OF task_state_reachable task_state_deps task_state_steps(3,2)
      task_state_steps(6,5)] task_state_order(2) [of Fast] by simp

text \<open>C2: The precise build's \<open>m_isparallel\<close> ends on any two steps of a reachable graph and answers
  whether they may run in parallel in the series-parallel order, and nothing else: the
  dependences of tasks and the sums of \<open>st_val\<close> it computes never change the answer.\<close>

theorem m_isparallel_precise_correct:
  assumes "reachable Precise nc s" and "deps_recorded s" and "is_node s a" "is_node s b"
    and "type_of s a = WORK" "type_of s b = WORK"
  shows "m_isparallel s a b = Inr (a \<noteq> b \<and> in_parallel (m_tgraph_nodes s) a b)"
  using m_isparallel_precise_recorded [OF reachable_wf [OF assms(1)] assms(2-6)]
    reachable_mode [OF assms(1)] assms(3) m_isparallel_trivial(2) [of a s]
  by (cases "a = b") (auto simp: m_isparallel_def is_node_def)

theorem m_isparallel_precise_correct_witness:
  "m_isparallel (run_state Precise task_run) 15 14 = Inr True"
  using m_isparallel_precise_correct [OF task_state_reachable task_state_deps task_state_steps(3,2)
      task_state_steps(6,5)] task_state_order(1) [of Precise] by simp

text \<open>The answer does not depend on which of the two steps is the current one, in either
  build, although the code treats the two cases in separate branches with different guards.\<close>

lemma m_isparallel_symmetric:
  assumes "reachable md nc s" and "deps_recorded s" and "is_node s a" "is_node s b"
    and "type_of s a = WORK" "type_of s b = WORK"
  shows "m_isparallel s a b = m_isparallel s b a"
proof (cases "a = b")
  case False
  note wf = reachable_wf [OF assms(1)]
  note n = is_node_node_of [OF wf assms(3)] is_node_node_of [OF wf assms(4)]
  have par: "in_parallel (m_tgraph_nodes s) a b = in_parallel (m_tgraph_nodes s) b a"
    using in_parallel_sym [OF n] in_parallel_sym [OF n(2,1)] by blast
  have dep: "dependent s a b = dependent s b a"
  proof -
    obtain d where sp: "splits (m_tgraph_nodes s) a b d"
      using steps_at_split [OF wf assms(3,4) False assms(5,6)] by blast
    then show ?thesis
      using dependent_at_split [OF wf assms(3,4) sp] splits_sym [of "m_tgraph_nodes s" a b d]
        dependent_at_split [OF wf assms(4,3)] tasks_conflict_sym by metis
  qed
  show ?thesis
    using m_isparallel_fast_recorded [OF wf assms(2-6) False] par dep False
      m_isparallel_fast_recorded [OF wf assms(2,4,3,6,5)]
      m_isparallel_precise_recorded [OF wf assms(2-6) False]
      m_isparallel_precise_recorded [OF wf assms(2,4,3,6,5)]
    by (cases "mode s") (auto simp: m_isparallel_def)
qed simp

text \<open>On the steps of a reachable graph the order is a strict partial order: of two different
  steps exactly one comes first or they may run in parallel, and coming first is transitive.\<close>

lemma steps_partially_ordered:
  assumes "reachable md nc s" and "is_node s a" "is_node s b" "is_node s c"
    and "type_of s a = WORK" "type_of s b = WORK" and "a \<noteq> b"
  shows "(before (m_tgraph_nodes s) a b \<and> before (m_tgraph_nodes s) b c \<longrightarrow>
           before (m_tgraph_nodes s) a c) \<and>
    (\<not> before (m_tgraph_nodes s) a b \<longrightarrow>
       before (m_tgraph_nodes s) b a = (\<not> in_parallel (m_tgraph_nodes s) a b)) \<and>
    (before (m_tgraph_nodes s) a b \<longrightarrow>
       \<not> before (m_tgraph_nodes s) b a \<and> \<not> in_parallel (m_tgraph_nodes s) a b)"
proof -
  note wf = reachable_wf [OF assms(1)]
  note n = is_node_node_of [OF wf assms(2)] is_node_node_of [OF wf assms(3)]
    is_node_node_of [OF wf assms(4)]
  show ?thesis
    using before_trans [OF n] order_trichotomy [OF n(1,2) assms(7,5,6)] by blast
qed

text \<open>C13: \<open>m_lca\<close> always returns. When the remote step is at most one level deeper than the
  current one it returns their least common ancestor; when the remote step is two levels deeper
  or more, it returns index 0, which is no node: the branch lacks the loop of its counterpart.\<close>

theorem m_lca_result:
  assumes "reachable md nc s" and "is_node s a" "is_node s b"
    and "type_of s a = WORK" "type_of s b = WORK" and "a \<noteq> b"
  shows "\<exists>d < m_depth (m_tgraph_nodes s a). splits (m_tgraph_nodes s) a b d \<and> m_lca s a b =
    Inr (if m_depth (m_tgraph_nodes s b) \<le> Suc (m_depth (m_tgraph_nodes s a))
         then at_depth (m_tgraph_nodes s) a d else 0)"
proof -
  let ?g = "m_tgraph_nodes s"
  note wf = reachable_wf [OF assms(1)]
  note n = is_node_node_of [OF wf assms(2)] is_node_node_of [OF wf assms(3)]
  obtain d where sp: "splits ?g a b d"
    using steps_at_split [OF wf assms(2,3,6,4,5)] by blast
  have "m_lca s a b = Inr 0" if deep: "\<not> m_depth (?g b) \<le> Suc (m_depth (?g a))"
  proof -
    obtain e where e: "m_depth (?g b) = Suc e" using deep by (cases "m_depth (?g b)") auto
    have "\<exists>p q. meet ?g (a, 0) (par ?g b, 0) = Some ((0, p), (0, q))"
      using meet_uneven [OF n(1)] depth_par [OF n(2) e] deep e by simp
    then show ?thesis using deep by (auto simp: m_lca_def Let_def)
  qed
  then show ?thesis
    using m_lca_split [OF wf assms(2,3) sp] sp by (auto simp: splits_def)
qed

theorem m_lca_result_witness: "m_lca (run_state Fast task_run) 2 15 = Inr 0"
proof -
  let ?s = "run_state Fast task_run"
  have "is_node ?s 2" "type_of ?s 2 = WORK" "m_depth (m_tgraph_nodes ?s 2) = 1"
    "m_depth (m_tgraph_nodes ?s 15) = 6"
    by (simp add: run_eval is_node_def cong: and_then_weak_cong)+
  then show ?thesis
    using m_lca_result [OF task_state_reachable _ task_state_steps(3) _ task_state_steps(6), of Fast 2]
    by simp
qed


end
