(* ===== verification/Callback_Frame.thy ===== *)
theory Callback_Frame
  imports Ordering
begin

text \<open>
  The graph callbacks change neither the recorded races nor the fields that the access checks
  add to the detector (its shadow memory).
\<close>

section \<open>What callbacks leave alone\<close>

definition same_rest :: "'a detector_scheme \<Rightarrow> 'a detector_scheme \<Rightarrow> bool" where
  "same_rest s s' \<longleftrightarrow> m_violations s' = m_violations s \<and>
     m_violations_count s' = m_violations_count s \<and> detector.more s' = detector.more s"

lemma same_rest_refl [simp, intro]: "same_rest s s"
  by (simp add: same_rest_def)

lemma same_rest_trans: "same_rest s t \<Longrightarrow> same_rest t u \<Longrightarrow> same_rest s u"
  by (simp add: same_rest_def)

definition quiet :: "('a detector_scheme \<Rightarrow> 'a detector_scheme result) \<Rightarrow> bool" where
  "quiet f \<longleftrightarrow> (\<forall>s s'. f s = Inr s' \<longrightarrow> same_rest s s')"

lemma quiet_block: "list_all quiet fs \<Longrightarrow> quiet (block fs)"
proof (induction fs)
  case Nil
  then show ?case by (simp add: quiet_def)
next
  case (Cons f fs)
  then have "quiet f" "quiet (block fs)" by simp_all
  then show ?case unfolding quiet_def block.simps using same_rest_trans by blast
qed

lemma quiet_primitives:
  "quiet (pop_back t)" "quiet (push_back x t)" "quiet (m_pop_step_node t)" "quiet (m_cleanup_finish_node t)"
  by (auto simp: quiet_def pop_back_Inr push_back_Inr m_pop_step_node_eq m_cleanup_finish_node_def
      stack_back_Inr same_rest_def split: if_splits)

lemma same_rest_update_node [simp]: "same_rest s (update_node i f s)"
  by (simp add: same_rest_def update_node_def)

lemma quiet_create:
  "m_create_node ty t s = Inr (i, s') \<Longrightarrow> same_rest s s'"
  "m_set_nodeparent_info i t s = Inr s' \<Longrightarrow> same_rest s s'"
  "new_child ty t s = Inr (i, s') \<Longrightarrow> same_rest s s'"
  by (auto simp: m_create_node_def m_set_nodeparent_info_def new_child_def Let_def same_rest_def
      update_node_def stack_back_Inr split: if_splits)

lemma quiet_push_new_node: "quiet (push_new_node ty t)" "quiet (m_add_step_node t)"
  by (auto simp: quiet_def push_new_node_def m_add_step_node_eq push_back_Inr
      dest!: quiet_create(3)) (auto simp: same_rest_def)

lemma quietD: "quiet f \<Longrightarrow> f s = Inr s' \<Longrightarrow> same_rest s s'"
  by (simp add: quiet_def)

lemma quiet_and_then:
  "(\<And>s. f s = Inr s' \<Longrightarrow> same_rest s0 s') \<Longrightarrow> f s0 = Inr s' \<Longrightarrow> same_rest s0 s'"
  by blast

lemma same_rest_fields [simp]:
  "same_rest s (s'\<lparr>m_last_nodes := x1\<rparr>) = same_rest s s'"
  "same_rest s (s'\<lparr>m_task_map := x2\<rparr>) = same_rest s s'"
  "same_rest s (s'\<lparr>m_task_dependencies := x3\<rparr>) = same_rest s s'"
  "same_rest s (s'\<lparr>m_num_threads := x4\<rparr>) = same_rest s s'"
  "same_rest s (s'\<lparr>m_impl_end_count := x5\<rparr>) = same_rest s s'"
  "same_rest s (s'\<lparr>m_barrier_count := x6\<rparr>) = same_rest s s'"
  "same_rest s (s'\<lparr>m_pending_finish := x7\<rparr>) = same_rest s s'"
  "same_rest s (s'\<lparr>m_first_dispatch := x8\<rparr>) = same_rest s s'"
  "same_rest s (s'\<lparr>m_par_finish_index := x9\<rparr>) = same_rest s s'"
  "same_rest s (s'\<lparr>omprace_in_parallel := x10\<rparr>) = same_rest s s'"
  "same_rest s (update_node i f s') = same_rest s s'"
  "same_rest (s\<lparr>m_last_nodes := x1\<rparr>) s' = same_rest s s'"
  "same_rest (s\<lparr>m_task_map := x2\<rparr>) s' = same_rest s s'"
  "same_rest (s\<lparr>m_num_threads := x4\<rparr>) s' = same_rest s s'"
  "same_rest (s\<lparr>m_impl_end_count := x5\<rparr>) s' = same_rest s s'"
  "same_rest (s\<lparr>m_barrier_count := x6\<rparr>) s' = same_rest s s'"
  "same_rest (s\<lparr>m_first_dispatch := x8\<rparr>) s' = same_rest s s'"
  "same_rest (update_node i f s) s' = same_rest s s'"
  "same_rest s (set_task_id d j i s') = same_rest s s'"
  "same_rest (set_task_id d j i s) s' = same_rest s s'"
  by (simp_all add: same_rest_def update_node_def set_task_id_def)

lemmas quiet_steps = quiet_primitives quiet_push_new_node

lemma quiet_barrier_finish_node: "quiet (barrier_finish_node t)"
  by (auto simp: quiet_def barrier_finish_node_def push_back_Inr split: if_splits
      dest!: quiet_create(3))

lemma quiet_set_first_dispatch: "quiet (set_first_dispatch v t)"
  by (auto simp: quiet_def set_first_dispatch_def split: if_splits)

lemma quiet_blockD: "block fs s = Inr s' \<Longrightarrow> list_all quiet fs \<Longrightarrow> same_rest s s'"
  using quiet_block quietD by blast

lemmas quiet_rules = quiet_blockD quiet_steps quiet_barrier_finish_node quiet_set_first_dispatch

lemma quiet_look: "quiet (\<lambda>s. and_then (stack_back t s) (\<lambda>x. Inr s))"
  by (auto simp: quiet_def)

lemma quiet_unchanged:
  "quiet (m_capture_thread_begin t)" "quiet (m_capture_thread_end t)"
  "quiet (m_capture_single_begin t)" "quiet (m_capture_single_end t)"
  by (simp_all add: quiet_def m_capture_thread_begin_def m_capture_thread_end_def
      m_capture_single_begin_def m_capture_single_end_def)

lemma quiet_blocks:
  "quiet (m_capture_master_begin t)" "quiet (m_capture_master_end t)"
  "quiet (m_capture_section_begin t)" "quiet (m_capture_section_end t)"
  "quiet (m_capture_task_end t)" "quiet (m_capture_barrier_end t)"
  "quiet (m_capture_taskwait_begin t)" "quiet (m_capture_taskgroup_begin t)"
  "quiet (m_capture_taskgroup_end t)"
  unfolding m_capture_master_begin_def m_capture_master_end_def m_capture_section_begin_def
    m_capture_section_end_def m_capture_task_end_def m_capture_barrier_end_def
    m_capture_taskwait_begin_def m_capture_taskgroup_begin_def m_capture_taskgroup_end_def
  by (rule quiet_steps quiet_block; simp add: quiet_steps quiet_look)+

lemma quiet_loops:
  "quiet (m_capture_loop_begin t)" "quiet (m_capture_loop_end t)" "quiet (m_capture_loop_chunk t)"
proof -
  show "quiet (m_capture_loop_begin t)"
    unfolding m_capture_loop_begin_def [abs_def] quiet_def set_first_dispatch_def
    by (auto split: if_splits)
  have b: "quiet (block [m_pop_step_node t, pop_back t, m_add_step_node t])"
    by (rule quiet_block) (simp add: quiet_steps)
  then show "quiet (m_capture_loop_end t)"
    unfolding quiet_def m_capture_loop_end_def by (auto split: if_splits simp del: block.simps)
  have c: "quiet (block [set_first_dispatch 0 t, m_pop_step_node t])"
      "quiet (block [m_pop_step_node t, pop_back t])"
      "quiet (block [push_new_node PARALLEL t, m_add_step_node t])"
    by (rule quiet_block; simp add: quiet_steps quiet_set_first_dispatch)+
  show "quiet (m_capture_loop_chunk t)"
    unfolding quiet_def
  proof (intro allI impI)
    fix s s' assume run: "m_capture_loop_chunk t s = Inr s'"
    have "\<exists>u. (block [set_first_dispatch 0 t, m_pop_step_node t] s = Inr u \<or>
        block [m_pop_step_node t, pop_back t] s = Inr u) \<and>
        block [push_new_node PARALLEL t, m_add_step_node t] u = Inr s'"
    proof (cases "m_first_dispatch s t = 1")
      case True
      then show ?thesis using run unfolding m_capture_loop_chunk_def
        by (auto simp del: block.simps simp: and_then_eq_Inr split: if_split_asm)
    next
      case False
      then show ?thesis using run unfolding m_capture_loop_chunk_def
        by (auto simp del: block.simps simp: and_then_eq_Inr split: if_split_asm)
    qed
    then show "same_rest s s'" using c quietD same_rest_trans by metis
  qed
qed

lemma quiet_parallel:
  "quiet (m_capture_parallel_begin procs t n)" "quiet (m_capture_parallel_end t)"
proof -
  show "quiet (m_capture_parallel_begin procs t n)"
    unfolding quiet_def
  proof (intro allI impI)
    fix s s' assume "m_capture_parallel_begin procs t n s = Inr s'"
    then obtain u f v f' w where u: "m_pop_step_node t s = Inr u"
      and f: "new_child SERIES t (u\<lparr>m_num_threads := (if n > 0 then n else procs)\<rparr>) = Inr (f, v)"
      and f': "new_child SERIES t (v\<lparr>m_last_nodes := (m_last_nodes v)(t := m_last_nodes v t @ [f])\<rparr>)
          = Inr (f', w)"
      and s': "same_rest w s'"
      unfolding m_capture_parallel_begin_def Let_def by (auto simp: push_back_Inr split: prod.splits)
    show "same_rest s s'"
      using quietD [OF quiet_steps(3) u] quiet_create(3) [OF f] quiet_create(3) [OF f'] s'
      by (simp add: same_rest_def)
  qed
  show "quiet (m_capture_parallel_end t)"
    unfolding quiet_def m_capture_parallel_end_def
    using quietD [OF quiet_block [of "[pop_back t, m_add_step_node t]"]]
    by (auto simp: quiet_steps simp del: block.simps)
qed

lemma quiet_tasks:
  "quiet (m_capture_task_dependences t i ds)" "quiet (m_capture_task_begin t i)"
  "quiet (m_capture_taskwait_end t)"
proof -
  show "quiet (m_capture_task_dependences t i ds)"
    by (auto simp: quiet_def m_capture_task_dependences_def Let_def split: if_splits)
  show "quiet (m_capture_task_begin t i)"
    unfolding quiet_def m_capture_task_begin_def Let_def
    using quietD [OF quiet_block [of "[push_back x t, m_add_step_node t]" for x]]
    by (fastforce simp: quiet_steps simp del: block.simps)
  show "quiet (m_capture_taskwait_end t)"
    unfolding quiet_def
  proof (intro allI impI)
    fix s s' assume run: "m_capture_taskwait_end t s = Inr s'"
    have "m_last_nodes s t \<noteq> []"
      using run by (cases "mode s") (auto simp: m_capture_taskwait_end_def stack_back_Inr
          m_capture_taskwait_end_precise_def m_capture_taskwait_end_fast_def m_cleanup_finish_node_def)
    from taskwait_end_block [OF run this] obtain s1 where
      s1: "s1 = s \<or> s1 = update_node (last (m_last_nodes s t)) (\<lambda>nd. nd\<lparr>st_val := -1\<rparr>) s"
      and b: "block [m_cleanup_finish_node t, m_add_step_node t] s1 = Inr s'" by blast
    have "same_rest s1 s'" using quiet_blockD [OF b] by (simp add: quiet_steps)
    then show "same_rest s s'" using s1 by auto
  qed
qed

lemma quiet_implicit:
  "quiet (m_capture_implicit_task_begin t)" "quiet (m_capture_implicit_task_end t)"
proof -
  show "quiet (m_capture_implicit_task_begin t)"
    unfolding quiet_def
  proof (intro allI impI)
    fix s s' assume run: "m_capture_implicit_task_begin t s = Inr s'"
    have q: "same_rest u v" if "block [push_new_node PARALLEL t, m_add_step_node t] u = Inr v" for u v
      using quiet_blockD [OF that] by (simp add: quiet_steps)
    show "same_rest s s'"
    proof (cases "t = 0")
      case True
      then have "block [push_new_node PARALLEL t, m_add_step_node t] (s\<lparr>m_impl_end_count := 0\<rparr>) = Inr s'"
        using run unfolding m_capture_implicit_task_begin_def
        by (auto simp: and_then_eq_Inr simp del: block.simps split: if_split_asm)
      from q [OF this] show ?thesis by simp
    next
      case False
      then obtain x u y w where x: "push_back x t s = Inr u" and y: "push_back y t u = Inr w"
        and b: "block [push_new_node PARALLEL t, m_add_step_node t] w = Inr s'"
        using run unfolding m_capture_implicit_task_begin_def and_then_eq_Inr
        by (auto simp del: block.simps)
      show ?thesis
        using quietD [OF quiet_steps(2) x] quietD [OF quiet_steps(2) y] q [OF b]
        by (simp add: same_rest_def)
    qed
  qed
  show "quiet (m_capture_implicit_task_end t)"
    unfolding quiet_def m_capture_implicit_task_end_def
    by (auto simp del: block.simps dest!: quiet_blockD simp: quiet_steps)
qed

lemma quiet_barrier_begin: "quiet (m_capture_barrier_begin t)"
  unfolding quiet_def
proof (intro allI impI)
  fix s s' assume run: "m_capture_barrier_begin t s = Inr s'"
  obtain u where u: "block [m_pop_step_node t, m_cleanup_finish_node t, pop_back t, pop_back t] s = Inr u"
    and b: "block [barrier_finish_node t, push_new_node PARALLEL t]
      (u\<lparr>m_barrier_count := (m_barrier_count u)(t := m_barrier_count u t + 1)\<rparr>) = Inr s'"
    using run unfolding m_capture_barrier_begin_def
    by (elim and_then_InrE) (simp del: block.simps split: if_split_asm)
  show "same_rest s s'"
    using quiet_blockD [OF u] quiet_blockD [OF b] same_rest_trans
    by (auto simp: quiet_steps quiet_barrier_finish_node simp del: block.simps)
qed

lemma quiet_task_alloc: "quiet (m_capture_task_alloc t j d)"
  unfolding quiet_def
proof (intro allI impI)
  fix s s' assume run: "m_capture_task_alloc t j d s = Inr s'"
  then obtain u where u: "m_pop_step_node t s = Inr u"
    unfolding m_capture_task_alloc_def by blast
  let ?reg = "\<lambda>i v. v\<lparr>m_task_map := (m_task_map v)(j \<mapsto> i)\<rparr>"
  have "same_rest u s'"
  proof (cases "m_young_ns_child (m_tgraph_nodes u (last (m_last_nodes u t))) = PARALLEL")
    case True
    then obtain i v where i: "new_child PARALLEL t u = Inr (i, v)"
      and a: "m_add_step_node t (?reg i (set_task_id d j i v)) = Inr s'"
      using run u unfolding m_capture_task_alloc_def Let_def
      by (auto simp: stack_back_Inr create_and_link split: prod.splits)
    show ?thesis
      using quiet_create(3) [OF i] quietD [OF quiet_push_new_node(2) a] same_rest_trans by auto
  next
    case False
    then obtain i v w k x where i: "new_child SERIES t u = Inr (i, v)"
      and w: "push_back i t (update_node i st_flags v) = Inr w"
      and k: "new_child PARALLEL t w = Inr (k, x)"
      and a: "m_add_step_node t (?reg k (set_task_id d j k x)) = Inr s'"
      using run u unfolding m_capture_task_alloc_def Let_def
      by (auto simp: stack_back_Inr create_and_link create_number_and_link st_flags_def [abs_def]
          split: prod.splits)
    have "same_rest v w" using quietD [OF quiet_steps(2) w] by simp
    then show ?thesis
      using quiet_create(3) [OF i] quiet_create(3) [OF k] quietD [OF quiet_push_new_node(2) a]
      by (simp add: same_rest_def set_task_id_def update_node_def)
  qed
  then show "same_rest s s'" using quietD [OF quiet_steps(3) u] same_rest_trans by blast
qed

text \<open>No callback touches the recorded races or the shadow memory.\<close>

lemma capture_quiet: "capture c s = Inr s' \<Longrightarrow> same_rest s s'"
  by (cases c) (simp_all add: quietD [OF quiet_unchanged(1)] quietD [OF quiet_unchanged(2)]
      quietD [OF quiet_unchanged(3)] quietD [OF quiet_unchanged(4)] quiet_blocks [THEN quietD]
      quiet_loops [THEN quietD] quiet_parallel [THEN quietD] quiet_tasks [THEN quietD]
      quiet_implicit [THEN quietD] quiet_barrier_begin [THEN quietD] quiet_task_alloc [THEN quietD])

end
