(* ===== verification/Shadow.thy ===== *)
theory Shadow
  imports Ospg "HOL-Library.Word"
begin

unbundle bit_operations_syntax

text \<open>
  The shadow memory: the two-level table that gives every 4-byte word of the program its
  metadata. The first level is \<open>m_primary_trie\<close>, pointers to second-level tables that are
  mapped on demand. A pointer is the number of a table in the heap \<open>m_tables\<close>; \<open>mmap\<close> returns
  the next unused number, and a fresh table holds \<open>unset\<close> everywhere. The metadata is a
  parameter, since the builds keep different records in it.
\<close>

record 'm monitor = detector +
  m_primary_trie :: "nat \<Rightarrow> nat option"
  m_tables :: "nat \<Rightarrow> nat \<Rightarrow> 'm"
  m_next_table :: nat

definition SS_PRIMARY_TABLE_ENTRIES :: nat where
  "SS_PRIMARY_TABLE_ENTRIES = 4 * 1024 * 1024"

definition SS_SEC_TABLE_ENTRIES :: nat where
  "SS_SEC_TABLE_ENTRIES = 16 * 1024 * 1024"

section \<open>Addresses\<close>

definition primary_index :: "64 word \<Rightarrow> nat" where
  "primary_index ad = (let saddr = drop_bit 2 ad in unat (drop_bit 24 saddr AND 0x3fffff))"

definition offset :: "64 word \<Rightarrow> nat" where
  "offset ad = (let saddr = drop_bit 2 ad in unat (saddr AND 0xffffff))"

definition slot :: "64 word \<Rightarrow> nat \<times> nat" where
  "slot ad = (primary_index ad, offset ad)"

lemma primary_index_mod: "primary_index ad = unat ad div 2 ^ 26 mod 2 ^ 22"
proof -
  have m: "(0x3fffff :: 64 word) = mask 22" by (simp add: mask_eq_exp_minus_1)
  show ?thesis
    by (simp only: primary_index_def Let_def m unsigned_take_bit_eq unat_drop_bit_eq
        flip: take_bit_eq_mask) (simp add: take_bit_eq_mod drop_bit_eq_div div_mult2_eq [symmetric])
qed

lemma offset_mod: "offset ad = unat ad div 2 ^ 2 mod 2 ^ 24"
proof -
  have m: "(0xffffff :: 64 word) = mask 24" by (simp add: mask_eq_exp_minus_1)
  show ?thesis
    by (simp only: offset_def Let_def m unsigned_take_bit_eq unat_drop_bit_eq
        flip: take_bit_eq_mask) (simp only: take_bit_eq_mod drop_bit_eq_div)
qed

lemma slot_bounds:
  "primary_index ad < SS_PRIMARY_TABLE_ENTRIES" "offset ad < SS_SEC_TABLE_ENTRIES"
  by (simp_all add: primary_index_mod offset_mod SS_PRIMARY_TABLE_ENTRIES_def
      SS_SEC_TABLE_ENTRIES_def)

lemma slot_eq_iff: "slot a = slot b \<longleftrightarrow> unat a div 4 mod 2 ^ 46 = unat b div 4 mod 2 ^ 46"
proof -
  have s: "x div 4 mod 2 ^ 46 = x div 2 ^ 26 mod 2 ^ 22 * 2 ^ 24 + x div 2 ^ 2 mod 2 ^ 24" for x :: nat
    using mod_mult2_eq [of "x div 4" "2 ^ 24" "2 ^ 22"] by (simp add: div_mult2_eq [symmetric] mult.commute)
  have lt: "x mod 2 ^ 24 < 2 ^ 24" for x :: nat by simp
  have inj: "p * 2 ^ 24 + o1 = q * 2 ^ 24 + o2 \<longleftrightarrow> p = q \<and> o1 = o2"
    if "o1 < 2 ^ 24" "o2 < 2 ^ 24" for p q o1 o2 :: nat
  proof
    assume eq: "p * 2 ^ 24 + o1 = q * 2 ^ 24 + o2"
    then have "(p * 2 ^ 24 + o1) div 2 ^ 24 = (q * 2 ^ 24 + o2) div 2 ^ 24" by simp
    then have "p = q" using that by simp
    then show "p = q \<and> o1 = o2" using eq by simp
  qed simp
  show ?thesis
    unfolding slot_def primary_index_mod offset_mod s prod.inject by (rule inj [OF lt lt, symmetric])
qed

section \<open>Tables\<close>

text \<open>
  The lookup at the start of \<open>m_instrument_access\<close>. The compare-and-swap is on the local
  variable \<open>primary_ptr\<close>, which is null there, so it always succeeds, and the thread then
  stores its own table; \<open>find_table\<close> is the whole lookup done at once, \<open>read_primary\<close> and
  \<open>install_table\<close> are its two accesses to shared memory.
\<close>

definition read_primary :: "nat \<Rightarrow> ('m, 'a) monitor_scheme \<Rightarrow> nat option" where
  "read_primary i s = m_primary_trie s i"

definition install_table ::
  "'m \<Rightarrow> nat \<Rightarrow> nat option \<Rightarrow> ('m, 'a) monitor_scheme \<Rightarrow> nat \<times> ('m, 'a) monitor_scheme" where
  "install_table unset i primary_ptr s =
     (case primary_ptr of
        Some t \<Rightarrow> (t, s)
      | None \<Rightarrow>
          let new_primary_ptr = m_next_table s;
              s = s\<lparr>m_next_table := Suc new_primary_ptr,
                    m_tables := (m_tables s)(new_primary_ptr := (\<lambda>_. unset))\<rparr>;
              primary_ptr = new_primary_ptr
          in (primary_ptr, s\<lparr>m_primary_trie := (m_primary_trie s)(i \<mapsto> primary_ptr)\<rparr>))"

definition find_table ::
  "'m \<Rightarrow> nat \<Rightarrow> ('m, 'a) monitor_scheme \<Rightarrow> nat \<times> ('m, 'a) monitor_scheme" where
  "find_table unset i s = install_table unset i (read_primary i s) s"

definition get_metadata :: "nat \<Rightarrow> nat \<Rightarrow> ('m, 'a) monitor_scheme \<Rightarrow> 'm" where
  "get_metadata table ofs s = m_tables s table ofs"

definition put_metadata ::
  "nat \<Rightarrow> nat \<Rightarrow> 'm \<Rightarrow> ('m, 'a) monitor_scheme \<Rightarrow> ('m, 'a) monitor_scheme" where
  "put_metadata table ofs x s =
     s\<lparr>m_tables := (m_tables s)(table := (m_tables s table)(ofs := x))\<rparr>"

section \<open>Clearing a range\<close>

text \<open>\<open>clear_metadata\<close>: one entry per 4 bytes from \<open>start_addr\<close> until an address is not below
  \<open>end_addr\<close>, and it returns at the first address whose table is not there. \<open>clear\<close> is the body
  for an entry.\<close>

partial_function (option) clear_metadata ::
  "('m \<Rightarrow> 'm) \<Rightarrow> 64 word \<Rightarrow> 64 word \<Rightarrow> ('m, 'a) monitor_scheme \<Rightarrow> ('m, 'a) monitor_scheme option"
  where
  "clear_metadata clear saddr end_addr s =
     (if saddr < end_addr
      then case read_primary (primary_index saddr) s of
             None \<Rightarrow> Some s
           | Some t \<Rightarrow>
               clear_metadata clear (saddr + 4) end_addr
                 (put_metadata t (offset saddr) (clear (get_metadata t (offset saddr) s)) s)
      else Some s)"

section \<open>Well-formed tables\<close>

text \<open>Every pointer is a mapped table, and two first-level entries never share one.\<close>

definition wf_tables :: "('m, 'a) monitor_scheme \<Rightarrow> bool" where
  "wf_tables s \<longleftrightarrow>
     (\<forall>i t. m_primary_trie s i = Some t \<longrightarrow> t < m_next_table s) \<and>
     (\<forall>i j t. m_primary_trie s i = Some t \<and> m_primary_trie s j = Some t \<longrightarrow> i = j)"

text \<open>The abstract shadow memory: the metadata of the word at an address.\<close>

definition metadata_at :: "'m \<Rightarrow> 64 word \<Rightarrow> ('m, 'a) monitor_scheme \<Rightarrow> 'm" where
  "metadata_at unset a s =
     (case m_primary_trie s (primary_index a) of None \<Rightarrow> unset | Some t \<Rightarrow> m_tables s t (offset a))"

definition store_at :: "'m \<Rightarrow> 64 word \<Rightarrow> 'm \<Rightarrow> ('m, 'a) monitor_scheme \<Rightarrow> ('m, 'a) monitor_scheme"
  where
  "store_at unset a x s =
     (let (t, s) = find_table unset (primary_index a) s in put_metadata t (offset a) x s)"

lemma find_table_spec:
  assumes "wf_tables s" and "find_table unset (primary_index a) s = (t, s')"
  shows "wf_tables s'" and "m_primary_trie s' (primary_index a) = Some t"
    and "metadata_at unset b s' = metadata_at unset b s"
    and "get_metadata t (offset a) s' = metadata_at unset a s"
proof -
  have lt: "m_primary_trie s i = Some u \<Longrightarrow> u < m_next_table s" for i u
    using assms(1) by (auto simp: wf_tables_def)
  have new: "m_primary_trie s i \<noteq> Some (m_next_table s)" for i
    using lt [of i "m_next_table s"] by auto
  show "wf_tables s'" "m_primary_trie s' (primary_index a) = Some t"
    "metadata_at unset b s' = metadata_at unset b s"
    "get_metadata t (offset a) s' = metadata_at unset a s"
    using assms new lt less_SucI [OF lt]
    by (auto simp: find_table_def install_table_def read_primary_def wf_tables_def metadata_at_def
        get_metadata_def Let_def split: option.splits if_splits)
qed

lemma put_metadata_spec:
  assumes "wf_tables s" and "m_primary_trie s (primary_index a) = Some t"
  shows "wf_tables (put_metadata t (offset a) x s)"
    and "metadata_at unset b (put_metadata t (offset a) x s) =
           (if slot b = slot a then x else metadata_at unset b s)"
  using assms
  by (auto simp: put_metadata_def wf_tables_def metadata_at_def slot_def split: option.splits)

lemma store_at_spec:
  assumes "wf_tables s"
  shows "wf_tables (store_at unset a x s)"
    and "metadata_at unset b (store_at unset a x s) =
           (if slot b = slot a then x else metadata_at unset b s)"
proof -
  obtain t u where u: "find_table unset (primary_index a) s = (t, u)" by fastforce
  note f = find_table_spec [OF assms u]
  show "wf_tables (store_at unset a x s)"
    using put_metadata_spec(1) [OF f(1,2)] u by (simp add: store_at_def)
  show "metadata_at unset b (store_at unset a x s) =
           (if slot b = slot a then x else metadata_at unset b s)"
    using put_metadata_spec(2) [OF f(1,2)] u f(3) by (simp add: store_at_def)
qed

section \<open>The interface the access checks rely on\<close>

text \<open>
  A memory of metadata: what a lookup returns after a store, at the same word and at another
  one. The client runs updates of single words; the metadata of a word is then the result of
  the updates of this word, in their order.
\<close>

locale word_memory =
  fixes get :: "'k \<Rightarrow> 's \<Rightarrow> 'm" and put :: "'k \<Rightarrow> 'm \<Rightarrow> 's \<Rightarrow> 's"
    and same :: "'k \<Rightarrow> 'k \<Rightarrow> bool" and ok :: "'s \<Rightarrow> bool"
  assumes ok_put: "ok s \<Longrightarrow> ok (put a x s)"
    and get_put: "ok s \<Longrightarrow> get b (put a x s) = (if same b a then x else get b s)"
begin

fun updates :: "('k \<times> ('m \<Rightarrow> 'm)) list \<Rightarrow> 's \<Rightarrow> 's" where
  "updates [] s = s"
| "updates ((a, f) # us) s = updates us (put a (f (get a s)) s)"

lemma ok_updates: "ok s \<Longrightarrow> ok (updates us s)"
  by (induction us s rule: updates.induct) (auto intro: ok_put)

text \<open>Updates of other words do not matter.\<close>

lemma get_updates:
  assumes "ok s" and "\<And>c d x. same c d \<Longrightarrow> ok x \<Longrightarrow> get c x = get d x"
  shows "get b (updates us s) =
    fold (\<lambda>(a, f). f) (filter (\<lambda>(a, f). same b a) us) (get b s)"
  using assms(1)
proof (induction us s rule: updates.induct)
  case (1 s)
  then show ?case by simp
next
  case (2 a f us s)
  have "get b (updates us (put a (f (get a s)) s)) =
      fold (\<lambda>(a, f). f) (filter (\<lambda>(a, f). same b a) us) (get b (put a (f (get a s)) s))"
    using 2 ok_put by blast
  then show ?case using 2(2) assms(2) [of b a s] by (simp add: get_put)
qed

lemma put_other: "ok s \<Longrightarrow> \<not> same b a \<Longrightarrow> get b (put a x s) = get b s"
  by (simp add: get_put)

end

text \<open>The two-level table is such a memory; two addresses are the same word when they have the
  same slot.\<close>

interpretation trie: word_memory "metadata_at unset" "store_at unset" "\<lambda>a b. slot a = slot b" wf_tables
  for unset
  by unfold_locales (auto simp: store_at_spec)

lemma metadata_at_slot: "slot a = slot b \<Longrightarrow> metadata_at unset a s = metadata_at unset b s"
  by (auto simp: metadata_at_def slot_def split: option.splits)

section \<open>Properties\<close>

text \<open>C22: Both table indices are within the tables, and two addresses below 2^48 share a metadata
  entry exactly when they lie in the same aligned 4-byte word.\<close>

theorem slot_injective:
  assumes "unat a < 2 ^ 48" and "unat b < 2 ^ 48"
  shows "primary_index a < SS_PRIMARY_TABLE_ENTRIES \<and> offset a < SS_SEC_TABLE_ENTRIES \<and>
    (slot a = slot b \<longleftrightarrow> unat a div 4 = unat b div 4)"
proof -
  have "unat a div 4 < 2 ^ 46" "unat b div 4 < 2 ^ 46" using assms by simp_all
  then show ?thesis using slot_bounds [of a] slot_eq_iff [of a b] by simp
qed

theorem slot_injective_witness: "slot 0x7fff00001000 = slot 0x7fff00001003"
  using slot_injective [of "0x7fff00001000" "0x7fff00001003"] by simp

text \<open>C23: The trie implements a flat memory: after any sequence of updates, each through a lookup
  that maps missing tables, the metadata of a word is the result of this word's own updates,
  in order, on what it held before; the updates of all other words leave it alone.\<close>

theorem trie_refines_flat_memory:
  assumes "wf_tables s"
  shows "metadata_at unset b (trie.updates unset us s) =
    fold (\<lambda>(a, f). f) (filter (\<lambda>(a, f). slot b = slot a) us) (metadata_at unset b s)"
  by (rule trie.get_updates [OF assms metadata_at_slot])

text \<open>A detector with an empty first level.\<close>

definition new_monitor :: "mode \<Rightarrow> 'm \<Rightarrow> 'm monitor" where
  "new_monitor md unset = detector.extend (OpenmpRaceDetector md False)
     \<lparr>m_primary_trie = Map.empty, m_tables = (\<lambda>_ _. unset), m_next_table = 0\<rparr>"

lemma new_monitor_tables: "wf_tables (new_monitor md unset)"
  by (simp add: wf_tables_def new_monitor_def detector.defs)

theorem trie_refines_flat_memory_witness:
  "metadata_at (0::nat) 16 (trie.updates 0 [(16, Suc), (32, Suc), (19, Suc)] (new_monitor Fast 0)) = 2"
  using trie_refines_flat_memory [OF new_monitor_tables, of "0::nat" 16 "[(16, Suc), (32, Suc), (19, Suc)]" Fast 0]
  by (simp add: slot_eq_iff metadata_at_def new_monitor_def detector.defs)

text \<open>The lookup is not safe between threads: when two threads both read a null pointer
  before either has stored, both install a table, and what the first one then records in its
  table is not found by later lookups of the same word.\<close>

lemma racing_lookups_lose_metadata:
  assumes "wf_tables s" and "m_primary_trie s (primary_index a) = None"
    and "p1 = read_primary (primary_index a) s" and "p2 = read_primary (primary_index a) s"
    and "install_table unset (primary_index a) p1 s = (t1, s1)"
    and "install_table unset (primary_index a) p2 s1 = (t2, s2)"
  shows "t1 \<noteq> t2 \<and> metadata_at unset a (put_metadata t1 (offset a) x s2) = unset"
  using assms by (auto simp: install_table_def read_primary_def metadata_at_def put_metadata_def Let_def)

lemma racing_lookups_example:
  "\<exists>t1 t2 s2. t1 \<noteq> t2 \<and>
     metadata_at (0::nat) 16 (put_metadata t1 (offset 16) 7 (s2 :: nat monitor)) = 0"
proof -
  let ?s = "new_monitor Fast (0::nat)"
  let ?p = "read_primary (primary_index 16) ?s"
  obtain t1 s1 where 1: "install_table 0 (primary_index 16) ?p ?s = (t1, s1)" by fastforce
  obtain t2 s2 where 2: "install_table 0 (primary_index 16) ?p s1 = (t2, s2)" by fastforce
  have "m_primary_trie ?s (primary_index 16) = None" by (simp add: new_monitor_def detector.defs)
  from racing_lookups_lose_metadata [OF new_monitor_tables this refl refl 1 2, of 7]
  show ?thesis by blast
qed

lemma clear_metadata_step:
  fixes x e :: "64 word"
  assumes "unat e + 4 < 2 ^ 64" and "x < e"
  shows "unat (x + 4) = unat x + 4" and "unat e - unat (x + 4) < unat e - unat x"
proof -
  have "unat x < unat e" using assms(2) by (simp add: word_less_nat_alt)
  then show "unat (x + 4) = unat x + 4" using assms(1) by (subst unat_word_ariths) simp
  then show "unat e - unat (x + 4) < unat e - unat x" using \<open>unat x < unat e\<close> by simp
qed

text \<open>What every step of the loop keeps, the loop keeps.\<close>

lemma clear_metadata_keeps:
  assumes run: "clear_metadata clear x e s = Some s'" and "P s"
    and step: "\<And>s x t. P s \<Longrightarrow> read_primary (primary_index x) s = Some t \<Longrightarrow>
      P (put_metadata t (offset x) (clear (get_metadata t (offset x) s)) s)"
  shows "P s'"
proof -
  let ?Q = "\<lambda>c x e s s'. c = clear \<longrightarrow> P s \<longrightarrow> P s'"
  have "?Q clear x e s s'"
  proof (rule clear_metadata.raw_induct [where P = ?Q, OF _ run])
    fix rec c x e s s'
    assume "\<And>c x e s s'. rec c x e s = Some s' \<Longrightarrow> ?Q c x e s s'"
      and "(if x < e
         then case read_primary (primary_index x) s of None \<Rightarrow> Some s
              | Some t \<Rightarrow> rec c (x + 4) e (put_metadata t (offset x) (c (get_metadata t (offset x) s)) s)
         else Some s) = Some s'"
    then show "?Q c x e s s'" using step by (auto split: if_split_asm option.splits)
  qed
  then show ?thesis using assms(2) by blast
qed

lemma clear_metadata_result:
  assumes "wf_tables s" and "unat e + 4 < 2 ^ 64"
    and "\<And>k. unat x + 4 * k < unat e \<Longrightarrow> m_primary_trie s (primary_index (x + of_nat (4 * k))) \<noteq> None"
  shows "\<exists>s'. clear_metadata (\<lambda>_. unset) x e s = Some s' \<and>
    (\<forall>b. metadata_at unset b s' =
       (if \<exists>k. unat x + 4 * k < unat e \<and> slot b = slot (x + of_nat (4 * k)) then unset
        else metadata_at unset b s))"
  using assms(1,3)
proof (induction "unat e - unat x" arbitrary: x s rule: less_induct)
  case less
  show ?case
  proof (cases "x < e")
    case False
    then have "\<not> unat x + 4 * k < unat e" for k by (simp add: word_less_nat_alt)
    then show ?thesis using False by (subst clear_metadata.simps) simp
  next
    case True
    note st = clear_metadata_step [OF assms(2) True]
    have xe: "unat x < unat e" using True by (simp add: word_less_nat_alt)
    obtain t where t: "m_primary_trie s (primary_index x) = Some t"
      using less.prems(2) [of 0] xe by auto
    let ?u = "put_metadata t (offset x) unset s"
    note p = put_metadata_spec [OF less.prems(1) t, where x = unset]
    have trie: "m_primary_trie ?u = m_primary_trie s" by (simp add: put_metadata_def)
    have next_addr: "x + 4 + of_nat (4 * k) = x + of_nat (4 * Suc k)" for k by (simp add: algebra_simps)
    obtain s' where s': "clear_metadata (\<lambda>_. unset) (x + 4) e ?u = Some s'"
      and m: "metadata_at unset b s' =
       (if \<exists>k. unat (x + 4) + 4 * k < unat e \<and> slot b = slot (x + 4 + of_nat (4 * k)) then unset
        else metadata_at unset b ?u)" for b
      using less.hyps [OF st(2) p(1)] less.prems(2) [of "Suc _"] st(1) unfolding trie next_addr
      by fastforce
    have run: "clear_metadata (\<lambda>_. unset) x e s = Some s'"
      using True t s' by (subst clear_metadata.simps) (simp add: read_primary_def)
    have ex: "(\<exists>k. unat x + 4 * k < unat e \<and> slot b = slot (x + of_nat (4 * k))) \<longleftrightarrow>
        slot b = slot x \<or> (\<exists>k. unat (x + 4) + 4 * k < unat e \<and> slot b = slot (x + 4 + of_nat (4 * k)))"
      for b
    proof -
      have "(\<exists>k. P k) \<longleftrightarrow> P 0 \<or> (\<exists>k. P (Suc k))" for P :: "nat \<Rightarrow> bool"
        by (metis not0_implies_Suc)
      from this [of "\<lambda>k. unat x + 4 * k < unat e \<and> slot b = slot (x + of_nat (4 * k))"]
      show ?thesis using xe by (simp only: next_addr st(1)) (simp add: add.assoc)
    qed
    show ?thesis
      using run m p(2) unfolding ex by auto
  qed
qed

text \<open>C24: \<open>clear_metadata\<close> returns, and when every table of the range is mapped it resets exactly
  the entries of the addresses start, start + 4, ... below the end, and no others.\<close>

theorem clear_metadata_clears:
  assumes "wf_tables s" and "unat e + 4 < 2 ^ 64"
    and "\<And>k. unat x + 4 * k < unat e \<Longrightarrow> m_primary_trie s (primary_index (x + of_nat (4 * k))) \<noteq> None"
  shows "\<exists>s'. clear_metadata (\<lambda>_. unset) x e s = Some s' \<and>
    (\<forall>b. metadata_at unset b s' =
       (if \<exists>k. unat x + 4 * k < unat e \<and> slot b = slot (x + of_nat (4 * k)) then unset
        else metadata_at unset b s))"
  by (rule clear_metadata_result [OF assms])

theorem clear_metadata_clears_witness:
  "\<exists>s'. clear_metadata (\<lambda>_. 0) 16 20 (store_at 0 16 (7::nat) (new_monitor Fast 0)) = Some s' \<and>
     metadata_at 0 16 s' = 0"
proof -
  let ?s = "store_at 0 16 (7::nat) (new_monitor Fast 0)"
  have t: "m_primary_trie ?s (primary_index 16) \<noteq> None"
    by (simp add: store_at_def find_table_def install_table_def read_primary_def new_monitor_def
        put_metadata_def Let_def detector.defs)
  have k: "k = 0" if "unat (16 :: 64 word) + 4 * k < unat (20 :: 64 word)" for k using that by simp
  obtain s' where s': "clear_metadata (\<lambda>_. 0) 16 20 ?s = Some s'" and
    m: "metadata_at 0 b s' =
       (if \<exists>k. unat (16 :: 64 word) + 4 * k < unat (20 :: 64 word) \<and> slot b = slot (16 + of_nat (4 * k))
        then 0 else metadata_at 0 b ?s)" for b
    using clear_metadata_clears [OF store_at_spec(1) [OF new_monitor_tables], of 20 16 0 16 7 Fast 0]
      k t by fastforce
  have "metadata_at 0 16 s' = 0" unfolding m by (intro if_P exI [of _ 0]) simp
  then show ?thesis using s' by blast
qed

text \<open>When the table of the first address is not mapped, \<open>clear_metadata\<close> returns with the whole
  range untouched, the words of later, mapped tables included.\<close>

lemma clear_metadata_stops:
  "x < e \<Longrightarrow> m_primary_trie s (primary_index x) = None \<Longrightarrow> clear_metadata clear x e s = Some s"
  by (subst clear_metadata.simps) (simp add: read_primary_def)

end
