(* ===== verification/Access_Order.thy ===== *)
theory Access_Order
  imports Verdict Shadow
begin

text \<open>
  The history of the accesses of a run, as a list in the order they were made, and what a
  detector that compares every access with the last writer of its word may conclude. The
  argument needs of the graph only that coming first is transitive and that two steps which
  may not run in parallel are ordered: the locale states this, and it is interpreted on the
  graph of any state.
\<close>

record access =
  place :: "nat \<times> nat"
  by_step :: nat
  is_write :: bool

definition accessed :: "64 word \<Rightarrow> nat \<Rightarrow> bool \<Rightarrow> access" where
  "accessed a x ty = \<lparr>place = slot a, by_step = x, is_write = ty\<rparr>"

lemma accessed_simps [simp]:
  "place (accessed a x ty) = slot a" "by_step (accessed a x ty) = x" "is_write (accessed a x ty) = ty"
  by (simp_all add: accessed_def)

text \<open>The last step that wrote a word, 0 when none did.\<close>

definition last_write :: "nat \<times> nat \<Rightarrow> access list \<Rightarrow> nat" where
  "last_write l h = fold (\<lambda>x w. if place x = l \<and> is_write x then by_step x else w) h 0"

lemma last_write_simps [simp]:
  "last_write l [] = 0"
  "last_write l (h @ [x]) = (if place x = l \<and> is_write x then by_step x else last_write l h)"
  by (simp_all add: last_write_def)

text \<open>No access is parallel to the last write before it; no access comes after one of a later
  step.\<close>

definition silent :: "(nat \<Rightarrow> nat \<Rightarrow> bool) \<Rightarrow> access list \<Rightarrow> bool" where
  "silent conc h \<longleftrightarrow> (\<forall>j < length h. last_write (place (h ! j)) (take j h) \<noteq> 0 \<longrightarrow>
     last_write (place (h ! j)) (take j h) \<noteq> by_step (h ! j) \<longrightarrow>
     \<not> conc (by_step (h ! j)) (last_write (place (h ! j)) (take j h)))"

definition in_order :: "(nat \<Rightarrow> nat \<Rightarrow> bool) \<Rightarrow> access list \<Rightarrow> bool" where
  "in_order ord h \<longleftrightarrow> (\<forall>j < length h. \<forall>i < j. \<not> ord (by_step (h ! j)) (by_step (h ! i)))"

lemma silent_simps:
  "silent conc []"
  "silent conc (h @ [x]) \<longleftrightarrow> silent conc h \<and> (last_write (place x) h \<noteq> 0 \<longrightarrow>
     last_write (place x) h \<noteq> by_step x \<longrightarrow> \<not> conc (by_step x) (last_write (place x) h))"
  by (simp_all add: silent_def less_Suc_eq nth_append all_conj_distrib imp_conjL conj_commute)

lemma in_order_snoc:
  "in_order ord (h @ [x]) \<longleftrightarrow> in_order ord h \<and> (\<forall>y \<in> set h. \<not> ord (by_step x) (by_step y))"
  by (auto simp: in_order_def less_Suc_eq nth_append all_set_conv_all_nth)

lemma silent_cong:
  assumes "silent conc h" and "\<And>x y. x \<in> by_step ` set h \<Longrightarrow> y \<in> by_step ` set h \<Longrightarrow> conc' x y = conc x y"
  shows "silent conc' h"
  using assms
proof (induction h rule: rev_induct)
  case Nil
  then show ?case by (simp add: silent_simps)
next
  case (snoc x h)
  have "last_write (place x) h = 0 \<or> last_write (place x) h \<in> by_step ` set h"
    by (induction h rule: rev_induct) auto
  then show ?case using snoc by (auto simp: silent_simps)
qed

lemma silent_take: "silent conc h \<Longrightarrow> silent conc (take n h)"
  by (simp add: silent_def min_def)

lemma in_order_take: "in_order ord h \<Longrightarrow> in_order ord (take n h)"
  by (simp add: in_order_def)

section \<open>The interface\<close>

locale access_order =
  fixes step :: "nat \<Rightarrow> bool" and ord :: "nat \<Rightarrow> nat \<Rightarrow> bool" and conc :: "nat \<Rightarrow> nat \<Rightarrow> bool"
  assumes step_nonzero: "\<not> step 0"
    and ord_trans: "step a \<Longrightarrow> step b \<Longrightarrow> step c \<Longrightarrow> ord a b \<Longrightarrow> ord b c \<Longrightarrow> ord a c"
    and ord_total: "step a \<Longrightarrow> step b \<Longrightarrow> a \<noteq> b \<Longrightarrow> \<not> conc a b \<Longrightarrow> ord a b \<or> ord b a"
begin

lemma last_write_step:
  "\<forall>x \<in> set h. step (by_step x) \<Longrightarrow> last_write l h \<noteq> 0 \<Longrightarrow>
     step (last_write l h) \<and> last_write l h \<in> by_step ` set h"
  by (induction h rule: rev_induct) (auto split: if_splits)

lemma last_write_nonzero:
  "\<forall>x \<in> set h. step (by_step x) \<Longrightarrow> y \<in> set h \<Longrightarrow> is_write y \<Longrightarrow> last_write (place y) h \<noteq> 0"
proof (induction h rule: rev_induct)
  case (snoc x h)
  then show ?case using step_nonzero by (cases "y = x") (auto intro: gr0I)
qed simp

lemma not_before_last_write:
  assumes "\<forall>x \<in> set (h @ [x]). step (by_step x)" and "silent conc (h @ [x])" and "in_order ord (h @ [x])"
    and "last_write (place x) h \<noteq> 0"
  shows "last_write (place x) h = by_step x \<or> ord (last_write (place x) h) (by_step x)"
proof -
  let ?w = "last_write (place x) h"
  have w: "step ?w" "?w \<in> by_step ` set h" using last_write_step [of h] assms(1,4) by auto
  then have "\<not> ord (by_step x) ?w" using assms(3) by (auto simp: in_order_snoc)
  then show ?thesis using ord_total [of "by_step x" ?w] assms(1,2,4) w(1)
    by (cases "?w = by_step x") (auto simp: silent_simps)
qed

text \<open>In a silent history every write comes before the last write of its word, or is by the same
  step.\<close>

lemma writes_before_last:
  assumes "\<forall>x \<in> set h. step (by_step x)" and "silent conc h" and "in_order ord h"
    and "y \<in> set h" "is_write y"
  shows "by_step y = last_write (place y) h \<or> ord (by_step y) (last_write (place y) h)"
  using assms
proof (induction h rule: rev_induct)
  case Nil
  then show ?case by simp
next
  case (snoc x h)
  show ?case
  proof (cases "y \<in> set h \<and> place x = place y \<and> is_write x")
    case False
    then show ?thesis using snoc by (auto simp: silent_simps in_order_snoc)
  next
    case True
    let ?w = "last_write (place x) h"
    have y: "by_step y = ?w \<or> ord (by_step y) ?w"
      using snoc True by (auto simp: silent_simps in_order_snoc)
    have nz: "?w \<noteq> 0" using last_write_nonzero [of h y] snoc.prems True by auto
    have st: "step (by_step y)" "step (by_step x)" "step ?w"
      using snoc.prems True last_write_step [of h "place x"] nz by auto
    show ?thesis
      using not_before_last_write [OF snoc.prems(1-3) nz] y True ord_trans [OF st(1,3,2)] by auto
  qed
qed

lemma silent_writes_ordered:
  assumes steps: "\<forall>x \<in> set h. step (by_step x)" and sil: "silent conc h" and ord: "in_order ord h"
    and ij: "i < j" "j < length h" and same: "place (h ! i) = place (h ! j)" and wr: "is_write (h ! i)"
  shows "by_step (h ! i) = by_step (h ! j) \<or> ord (by_step (h ! i)) (by_step (h ! j))"
proof -
  let ?p = "take j h" and ?w = "last_write (place (h ! j)) (take j h)"
  have p: "take (Suc j) h = ?p @ [h ! j]" by (rule take_Suc_conv_app_nth [OF ij(2)])
  have pre: "silent conc (?p @ [h ! j])" "in_order ord (?p @ [h ! j])"
    unfolding p [symmetric] by (rule silent_take [OF sil], rule in_order_take [OF ord])
  have st: "\<forall>x \<in> set (?p @ [h ! j]). step (by_step x)" using steps set_take_subset [of "Suc j" h] p by auto
  have y: "h ! i \<in> set ?p" using ij by (auto simp: in_set_conv_nth)
  have "by_step (h ! i) = ?w \<or> ord (by_step (h ! i)) ?w"
    using writes_before_last [of ?p "h ! i"] st pre y wr same by (auto simp: silent_simps in_order_snoc)
  moreover have "?w \<noteq> 0" using last_write_nonzero [of ?p "h ! i"] st y wr same by auto
  moreover have "step (by_step (h ! i))" "step ?w" "step (by_step (h ! j))"
    using last_write_step [of ?p "place (h ! j)"] \<open>?w \<noteq> 0\<close> st y by auto
  ultimately show ?thesis using not_before_last_write [OF st pre] ord_trans by metis
qed

end

section \<open>The order of the graph\<close>

text \<open>The steps of a well-formed graph.\<close>

definition work_step :: "'a detector_scheme \<Rightarrow> nat \<Rightarrow> bool" where
  "work_step s x \<longleftrightarrow> wf_state s \<and> is_node s x \<and> type_of s x = WORK"

interpretation graph: access_order "work_step s" "before (m_tgraph_nodes s)"
    "in_parallel (m_tgraph_nodes s)" for s :: "'a detector_scheme"
proof unfold_locales
  show "\<not> work_step s 0" by (simp add: work_step_def is_node_def)
next
  fix a b c assume "work_step s a" "work_step s b" "work_step s c"
  then show "before (m_tgraph_nodes s) a b \<Longrightarrow> before (m_tgraph_nodes s) b c \<Longrightarrow>
      before (m_tgraph_nodes s) a c"
    by (auto simp: work_step_def intro: before_trans is_node_node_of)
next
  fix a b assume "work_step s a" "work_step s b" "a \<noteq> b" "\<not> in_parallel (m_tgraph_nodes s) a b"
  then show "before (m_tgraph_nodes s) a b \<or> before (m_tgraph_nodes s) b a"
    using order_trichotomy [of "m_tgraph_nodes s" _ a b] is_node_node_of [of s]
    by (auto simp: work_step_def)
qed

end
