(* ===== verification/Access_Check.thy ===== *)
theory Access_Check
  imports Verdict Callback_Frame Shadow Violations Access_Order
begin

text \<open>
  One comparison of an access with a recorded one, common to the access handlers of all builds:
  what it reports, what its silence means, that it returns, and that nothing else of the
  detector changes.
\<close>

abbreviation (input) READ :: bool where "READ \<equiv> False"
abbreviation (input) WRITE :: bool where "WRITE \<equiv> True"

text \<open>Report the previous access when it may run in parallel with the current one.\<close>

definition check_race ::
  "64 word \<Rightarrow> nat \<Rightarrow> bool \<Rightarrow> nat \<Rightarrow> bool \<Rightarrow> 'a detector_scheme \<Rightarrow> 'a detector_scheme result" where
  "check_race a curr_step type prev prev_type s =
     and_then (m_isparallel s curr_step prev) (\<lambda>race.
       if race then m_add_violations a curr_step type prev prev_type '''' s else Inr s)"

section \<open>Frame\<close>

text \<open>A state with other recorded races: nothing else sees the difference.\<close>

abbreviation with_races :: "(nat \<Rightarrow> violation) \<Rightarrow> 32 word \<Rightarrow> 'a detector_scheme \<Rightarrow> 'a detector_scheme"
  where "with_races vs n s \<equiv> s\<lparr>m_violations := vs, m_violations_count := n\<rparr>"

lemma m_isparallel_cong:
  assumes "m_tgraph_nodes s' = m_tgraph_nodes s" "m_task_dependencies s' = m_task_dependencies s"
    and "mode s' = mode s"
  shows "m_isparallel s' = m_isparallel s"
proof -
  have at: "dependences_at s' = dependences_at s"
    by (intro ext, unfold dependences_at_def assms) simp
  have dep: "m_are_dependent s' = m_are_dependent s"
    by (intro ext, unfold m_are_dependent_def at assms) simp
  have ver: "verdict_precise s' = verdict_precise s"
    by (intro ext, unfold verdict_precise_def dep assms) simp
  have "m_isparallel_fast s' = m_isparallel_fast s"
    by (intro ext, unfold m_isparallel_fast_def dep assms) simp
  moreover have "m_isparallel_precise s' = m_isparallel_precise s"
    by (intro ext, unfold m_isparallel_precise_def ver assms) simp
  ultimately show ?thesis by (cases "mode s") (simp_all add: m_isparallel_def assms(3))
qed

lemma m_lca_cong: "m_tgraph_nodes s' = m_tgraph_nodes s \<Longrightarrow> m_lca s' = m_lca s"
  by (intro ext, unfold m_lca_def) simp

definition only_races :: "'a detector_scheme \<Rightarrow> 'a detector_scheme \<Rightarrow> bool" where
  "only_races s s' \<longleftrightarrow> with_races (m_violations s') (m_violations_count s') s = s'"

lemma only_races_refl [simp, intro]: "only_races s s"
  by (simp add: only_races_def)

lemma only_races_trans:
  assumes "only_races s t" and "only_races t u"
  shows "only_races s u"
proof -
  have "with_races (m_violations u) (m_violations_count u)
      (with_races (m_violations t) (m_violations_count t) s) = u"
    using assms unfolding only_races_def by simp
  then show ?thesis by (simp add: only_races_def)
qed

lemma only_races_E:
  assumes "only_races s s'"
  obtains vs n where "s' = with_races vs n s"
  using assms unfolding only_races_def by metis

lemma check_race_Inr:
  assumes "check_race a cur ty prev pty s = Inr s'"
  shows "only_races s s'"
  using assms by (auto simp: check_race_def m_add_violations_def only_races_def Let_def split: if_splits)

text \<open>The states that differ in the races and the tables only.\<close>

definition same_graph :: "'a detector_scheme \<Rightarrow> 'b detector_scheme \<Rightarrow> bool" where
  "same_graph s s' \<longleftrightarrow>
     mode s' = mode s \<and> omprace_in_parallel s' = omprace_in_parallel s \<and>
     m_tgraph_nodes s' = m_tgraph_nodes s \<and> m_last_allocated_node s' = m_last_allocated_node s \<and>
     m_last_nodes s' = m_last_nodes s \<and> m_par_finish_index s' = m_par_finish_index s \<and>
     m_task_map s' = m_task_map s \<and> m_task_dependencies s' = m_task_dependencies s \<and>
     m_pending_finish s' = m_pending_finish s"

lemma same_graph_refl [simp, intro]: "same_graph s s"
  by (simp add: same_graph_def)

lemma same_graph_trans: "same_graph s t \<Longrightarrow> same_graph t u \<Longrightarrow> same_graph s u"
  by (simp add: same_graph_def)

lemma only_races_same_graph: "only_races s s' \<Longrightarrow> same_graph s s'"
  by (erule only_races_E) (simp add: same_graph_def)

lemma same_graph_verdicts:
  "same_graph s s' \<Longrightarrow> m_isparallel s' = m_isparallel s" "same_graph s s' \<Longrightarrow> m_lca s' = m_lca s"
  by (auto simp: same_graph_def intro: m_isparallel_cong m_lca_cong)

lemma same_graph_wf:
  assumes "same_graph s s'" and "wf_state s"
  shows "wf_state s'"
proof -
  have "stacked s' = stacked s" using assms(1) by (intro ext) (simp add: stacked_def same_graph_def)
  then show ?thesis
    using assms by (simp add: same_graph_def wf_state_def wf_stack_def wf_handles_def is_node_def)
qed

lemma find_table_graph: "find_table x i s = (t, u) \<Longrightarrow> same_graph s u \<and>
    m_violations u = m_violations s \<and> m_violations_count u = m_violations_count s"
  by (auto simp: find_table_def install_table_def same_graph_def Let_def split: option.splits)

lemma work_step_graph: "same_graph s s' \<Longrightarrow> work_step s x \<Longrightarrow> work_step s' x"
  using same_graph_wf [of s s'] by (auto simp: work_step_def same_graph_def is_node_def)

section \<open>What a comparison finds\<close>

text \<open>No task created so far has dependences.\<close>

definition task_free :: "'a detector_scheme \<Rightarrow> bool" where
  "task_free s \<longleftrightarrow> (\<forall>i < m_last_allocated_node s. m_task_id (m_tgraph_nodes s i) = 0)"

lemma m_isparallel_self:
  assumes "work_step s cur"
  shows "m_isparallel s cur 0 = Inr False" "m_isparallel s cur cur = Inr False"
  using assms m_isparallel_trivial [of cur s]
  by (cases "mode s"; simp add: m_isparallel_def work_step_def is_node_def)+

text \<open>The precise build's answers never depend on the dependences of tasks.\<close>

lemma m_isparallel_precise_answer:
  assumes "mode s = Precise" and a: "work_step s a" and b: "work_step s b" and ab: "a \<noteq> b"
    and ans: "m_isparallel s a b = Inr r"
  shows "r \<longleftrightarrow> in_parallel (m_tgraph_nodes s) a b"
proof -
  let ?g = "m_tgraph_nodes s"
  have n: "wf_state s" "is_node s a" "is_node s b" "type_of s a = WORK" "type_of s b = WORK"
    using a b by (simp_all add: work_step_def)
  obtain d where sp: "splits ?g a b d" using steps_at_split [OF n(1-3) ab n(4,5)] by blast
  have left: "r \<longleftrightarrow> type_of s x = PARALLEL" if "verdict_precise s l x y z k = Inr r" for l x y z k
    using that by (auto simp: verdict_precise_def Let_def split: if_splits)
  show ?thesis
    using m_isparallel_precise_at_split [OF n(1-3) ab sp] ans assms(1) left
      at_split(3) [OF is_node_node_of [OF n(1,2)] is_node_node_of [OF n(1,3)] sp]
    by (auto simp: m_isparallel_def split: if_splits)
qed

lemma m_isparallel_fast_answer:
  assumes "mode s = Fast" and a: "work_step s a" and b: "work_step s b" and ab: "a \<noteq> b"
    and ans: "m_isparallel s a b = Inr r"
  shows "r \<Longrightarrow> in_parallel (m_tgraph_nodes s) a b"
    and "\<not> r \<Longrightarrow> task_free s \<Longrightarrow> \<not> in_parallel (m_tgraph_nodes s) a b"
proof -
  let ?g = "m_tgraph_nodes s"
  have n: "wf_state s" "is_node s a" "is_node s b" "type_of s a = WORK" "type_of s b = WORK"
    using a b by (simp_all add: work_step_def)
  have fast: "m_isparallel_fast s a b = Inr r" using assms(1) ans by (simp add: m_isparallel_def)
  obtain d where sp: "splits ?g a b d" and ch: "is_node s (at_depth ?g a (Suc d))"
    using steps_at_split [OF n(1-3) ab n(4,5)] by blast
  show "in_parallel ?g a b" if r
    using m_isparallel_fast_at_split [OF n(1-3) ab sp] fast that
      at_split(3) [OF is_node_node_of [OF n(1,2)] is_node_node_of [OF n(1,3)] sp]
    by (auto simp: verdict_fast_def split: if_splits)
  show "\<not> in_parallel ?g a b" if free: "\<not> r" "task_free s"
  proof -
    have "\<not> dependent s a b"
      using dependent_at_split [OF n(1-3) sp] free(2) ch
      by (simp add: tasks_conflict_def deps_of_def task_free_def is_node_def)
    moreover have "deps_recorded s" using free(2) by (simp add: deps_recorded_def task_free_def)
    ultimately show ?thesis using m_isparallel_fast_recorded [OF n(1) _ n(2-5) ab] fast free(1) by auto
  qed
qed

lemma m_isparallel_answers:
  assumes cur: "work_step s cur" and prev: "prev = 0 \<or> work_step s prev"
    and ans: "m_isparallel s cur prev = Inr r"
  shows "r \<Longrightarrow> prev \<noteq> 0 \<and> in_parallel (m_tgraph_nodes s) cur prev"
    and "\<not> r \<Longrightarrow> mode s = Precise \<or> task_free s \<Longrightarrow> prev \<noteq> 0 \<Longrightarrow> prev \<noteq> cur \<Longrightarrow>
      \<not> in_parallel (m_tgraph_nodes s) cur prev"
proof -
  show "prev \<noteq> 0 \<and> in_parallel (m_tgraph_nodes s) cur prev" if r
  proof -
    have "prev \<noteq> 0 \<and> cur \<noteq> prev"
      using m_isparallel_self [OF cur] ans that by (cases "prev = 0"; cases "cur = prev") auto
    then show ?thesis
      using m_isparallel_fast_answer(1) [of s cur prev] m_isparallel_precise_answer [of s cur prev]
        cur prev ans that by (cases "mode s") auto
  qed
  show "\<not> in_parallel (m_tgraph_nodes s) cur prev"
    if "\<not> r" "mode s = Precise \<or> task_free s" "prev \<noteq> 0" "prev \<noteq> cur"
    using m_isparallel_fast_answer(2) [of s cur prev] m_isparallel_precise_answer [of s cur prev]
      cur prev ans that by (cases "mode s") auto
qed

text \<open>The record \<open>v\<close> is the outcome of one comparison.\<close>

definition found ::
  "'a detector_scheme \<Rightarrow> 64 word \<Rightarrow> nat \<Rightarrow> bool \<Rightarrow> nat \<Rightarrow> bool \<Rightarrow> violation \<Rightarrow> bool" where
  "found s a cur ty prev pty v \<longleftrightarrow> m_isparallel s cur prev = Inr True \<and> m_addr v = a \<and>
     m_task1 v = cur \<and> m_access1 v = ty \<and> m_task2 v = prev \<and> m_access2 v = pty"

lemma m_add_violations_found:
  assumes "m_add_violations a cur ty prev pty w s = Inr s'" and "m_isparallel s cur prev = Inr True"
  shows "m_violations s' i = m_violations s i \<or> found s a cur ty prev pty (m_violations s' i)"
    and "m_violations_count s' \<noteq> 0"
proof -
  show "m_violations s' i = m_violations s i \<or> found s a cur ty prev pty (m_violations s' i)"
    using assms by (auto simp: m_add_violations_def found_def Let_def split: if_splits)
  have "0 \<le> sint (m_violations_count s)"
    using assms(1) by (auto simp: m_add_violations_def Let_def OMP_RACER_MAX_VIOLATIONS_def split: if_splits)
  moreover have "sint (m_violations_count s) = -1" if "m_violations_count s + 1 = 0"
    using that by (simp add: eq_neg_iff_add_eq_0 [symmetric])
  ultimately show "m_violations_count s' \<noteq> 0"
    using assms(1) by (auto simp: m_add_violations_def Let_def split: if_splits)
qed

lemma check_race_found:
  assumes "check_race a cur ty prev pty s = Inr s'"
  shows "m_violations s' i = m_violations s i \<or> found s a cur ty prev pty (m_violations s' i)"
    and "m_violations_count s' = 0 \<Longrightarrow> m_violations_count s = 0 \<and> m_isparallel s cur prev = Inr False"
proof -
  obtain r where r: "m_isparallel s cur prev = Inr r"
    and "(if r then m_add_violations a cur ty prev pty '''' s else Inr s) = Inr s'"
    using assms by (auto simp: check_race_def)
  then show "m_violations s' i = m_violations s i \<or> found s a cur ty prev pty (m_violations s' i)"
    and "m_violations_count s' = 0 \<Longrightarrow> m_violations_count s = 0 \<and> m_isparallel s cur prev = Inr False"
    using m_add_violations_found [of a cur ty prev pty "''''" s s'] by (auto split: if_splits)
qed

lemma only_races_found: "only_races s s' \<Longrightarrow> found s' = found s"
  by (intro ext, unfold found_def same_graph_verdicts(1) [OF only_races_same_graph]) simp

text \<open>The outcome of comparing an access with the recorded accesses \<open>ps\<close>.\<close>

definition compared ::
  "64 word \<Rightarrow> nat \<Rightarrow> bool \<Rightarrow> (nat \<times> bool) set \<Rightarrow> 'a detector_scheme \<Rightarrow> 'a detector_scheme \<Rightarrow> bool" where
  "compared a cur ty ps s s' \<longleftrightarrow> only_races s s' \<and>
     (\<forall>i. m_violations s' i = m_violations s i \<or>
        (\<exists>(p, k) \<in> ps. found s a cur ty p k (m_violations s' i))) \<and>
     (m_violations_count s' = 0 \<longrightarrow> m_violations_count s = 0 \<and>
        (\<forall>(p, k) \<in> ps. m_isparallel s cur p = Inr False))"

lemma compared_refl: "compared a cur ty {} s s"
  by (simp add: compared_def)

lemma check_race_compared:
  "check_race a cur ty p k s = Inr s' \<Longrightarrow> compared a cur ty {(p, k)} s s'"
  using check_race_found [of a cur ty p k s s'] check_race_Inr by (auto simp: compared_def)

lemma compared_trans:
  assumes "compared a cur ty ps s t" and "compared a cur ty qs t u"
  shows "compared a cur ty (ps \<union> qs) s u"
proof -
  have st: "only_races s t" using assms(1) by (simp add: compared_def)
  note f = only_races_found [OF st] same_graph_verdicts(1) [OF only_races_same_graph [OF st]]
  have "m_violations u i = m_violations s i \<or>
      (\<exists>(p, k) \<in> ps \<union> qs. found s a cur ty p k (m_violations u i))" for i
  proof -
    have "m_violations t i = m_violations s i \<or> (\<exists>(p, k) \<in> ps. found s a cur ty p k (m_violations t i))"
      "m_violations u i = m_violations t i \<or> (\<exists>(p, k) \<in> qs. found s a cur ty p k (m_violations u i))"
      using assms unfolding compared_def f by blast+
    then show ?thesis unfolding bex_Un by (elim disjE) simp_all
  qed
  then show ?thesis
    using assms only_races_trans [OF st, of u] unfolding compared_def f by blast
qed

section \<open>A comparison returns\<close>

lemma m_isparallel_returns:
  assumes "deps_recorded s" and cur: "work_step s cur" and "prev = 0 \<or> work_step s prev"
  shows "\<exists>r. m_isparallel s cur prev = Inr r"
proof (cases "prev = 0 \<or> prev = cur")
  case True
  then show ?thesis using m_isparallel_self [OF cur] by auto
next
  case False
  then show ?thesis
    using m_isparallel_fast_recorded [of s cur prev] m_isparallel_precise_recorded [of s cur prev] assms
    by (cases "mode s") (auto simp: m_isparallel_def work_step_def)
qed

lemma m_lca_returns:
  assumes a: "work_step s a" and b: "work_step s b"
  shows "\<exists>x. m_lca s a b = Inr x"
proof (cases "a = b")
  case True
  then show ?thesis by (simp add: m_lca_def meet.simps [of _ "(b, 0)" "(b, 0)"])
next
  case False
  note n = is_node_node_of [of s a] is_node_node_of [of s b]
  obtain d where sp: "splits (m_tgraph_nodes s) a b d"
    using steps_at_split [of s a b] a b False by (auto simp: work_step_def)
  show ?thesis
  proof (cases "m_depth (m_tgraph_nodes s b) \<le> Suc (m_depth (m_tgraph_nodes s a))")
    case True
    then show ?thesis using m_lca_split [OF _ _ _ sp] a b by (auto simp: work_step_def)
  next
    case deep: False
    then obtain e where e: "m_depth (m_tgraph_nodes s b) = Suc e" by (cases "m_depth (m_tgraph_nodes s b)") auto
    have "\<exists>p q. meet (m_tgraph_nodes s) (a, 0) (m_parent (m_tgraph_nodes s b), 0) = Some ((0, p), (0, q))"
      using meet_uneven [OF n(1)] depth_par [OF n(2) e] deep e a b by (simp add: work_step_def)
    then show ?thesis using deep by (auto simp: m_lca_def Let_def)
  qed
qed

text \<open>The counter of races can take \<open>k\<close> more.\<close>

definition race_room :: "nat \<Rightarrow> 'a detector_scheme \<Rightarrow> bool" where
  "race_room k s \<longleftrightarrow> unat (m_violations_count s) + k \<le> 2 ^ 31"

lemma sint_small: "n < 2 ^ 31 \<Longrightarrow> sint (of_nat n :: 32 word) = int n"
  by (simp add: signed_of_nat signed_take_bit_int_eq_self)

lemma check_race_returns:
  assumes "\<exists>r. m_isparallel s cur prev = Inr r" and room: "race_room (Suc k) s"
  shows "\<exists>s'. check_race a cur ty prev pty s = Inr s' \<and> race_room k s' \<and> only_races s s'"
proof -
  let ?c = "m_violations_count s"
  have lt: "unat ?c < 2 ^ 31" using room by (simp add: race_room_def)
  have "0 \<le> sint ?c" using sint_small [OF lt] by simp
  moreover have "unat (?c + 1) = unat ?c + 1"
    using lt by (simp add: unat_word_ariths)
  moreover obtain r where "m_isparallel s cur prev = Inr r" using assms(1) by blast
  ultimately have "\<exists>s'. check_race a cur ty prev pty s = Inr s' \<and> race_room k s'"
    using room by (cases r) (auto simp: check_race_def m_add_violations_def race_room_def Let_def)
  then show ?thesis using check_race_Inr by blast
qed

end
