(* ===== verification/Metadata_Word.thy ===== *)
theory Metadata_Word
  imports Prelude
begin

unbundle bit_operations_syntax

text \<open>
  The access history of one word of memory in the fast build: \<open>struct Metadata\<close> of
  \<open>openmp_dpst.h\<close>, three step ids packed in two 64-bit halves, with the getters and setters of
  the compare-and-swap version (\<open>CAS_META\<close>) and of the locking version (\<open>LOCK_META\<close>).
  The upper half holds the last writer in its lower 32 bits (the upper 32 are flags nobody
  uses), the lower half holds the first reader in its lower and the second in its upper 32 bits.
\<close>

record uint128_t =
  lo :: "64 word"
  hi :: "64 word"

type_synonym GraphType = "32 word"

definition GETU32BIT_M :: "64 word" where
  "GETU32BIT_M = 0xffffffff00000000"

definition GETL32BIT_M :: "64 word" where
  "GETL32BIT_M = 0x00000000ffffffff"

section \<open>Getters\<close>

definition getFlags :: "uint128_t \<Rightarrow> GraphType" where
  "getFlags m = ucast (drop_bit 32 (hi m))"

definition getWrite1 :: "uint128_t \<Rightarrow> GraphType" where
  "getWrite1 m = ucast (hi m)"

definition getRead1 :: "uint128_t \<Rightarrow> GraphType" where
  "getRead1 m = ucast (lo m)"

definition getRead2 :: "uint128_t \<Rightarrow> GraphType" where
  "getRead2 m = ucast (drop_bit 32 (lo m))"

section \<open>Setters with compare and swap\<close>

text \<open>
  \<open>cas\<close> returns what the location holds afterwards and whether it swapped. A setter repeats:
  read the word, compute the new one, swap. \<open>cas_loop\<close> is that loop among other threads: the
  \<open>i\<close>-th entry of its list is what they do to the location between the read and the swap of the
  \<open>i\<close>-th attempt, and after the last entry they leave it alone. The reads of the two halves in
  one attempt are one read.
\<close>

definition cas :: "uint128_t \<Rightarrow> uint128_t \<Rightarrow> uint128_t \<Rightarrow> uint128_t \<times> bool" where
  "cas cur oldv newv = (if cur = oldv then (newv, True) else (cur, False))"

fun cas_loop ::
  "(uint128_t \<Rightarrow> uint128_t) \<Rightarrow> (uint128_t \<Rightarrow> uint128_t) list \<Rightarrow> uint128_t \<Rightarrow> uint128_t" where
  "cas_loop new_of [] m = fst (cas m m (new_of m))"
| "cas_loop new_of (others # rest) m =
     (let exp_val = m; new_val = new_of m; (m', swapped) = cas (others m) exp_val new_val
      in if swapped then m' else cas_loop new_of rest m')"

definition setWrite1 ::
  "GraphType \<Rightarrow> (uint128_t \<Rightarrow> uint128_t) list \<Rightarrow> uint128_t \<Rightarrow> uint128_t" where
  "setWrite1 new_write = cas_loop (\<lambda>m. \<lparr>lo = lo m, hi = ucast new_write\<rparr>)"

definition setRead1 ::
  "GraphType \<Rightarrow> (uint128_t \<Rightarrow> uint128_t) list \<Rightarrow> uint128_t \<Rightarrow> uint128_t" where
  "setRead1 new_read1 =
     cas_loop (\<lambda>m. \<lparr>lo = (lo m AND GETU32BIT_M) OR ucast new_read1, hi = hi m\<rparr>)"

definition setRead2 ::
  "GraphType \<Rightarrow> (uint128_t \<Rightarrow> uint128_t) list \<Rightarrow> uint128_t \<Rightarrow> uint128_t" where
  "setRead2 new_read2 =
     cas_loop (\<lambda>m. \<lparr>lo = push_bit 32 (ucast new_read2) OR (lo m AND GETL32BIT_M), hi = hi m\<rparr>)"

definition setRead12 ::
  "GraphType \<Rightarrow> GraphType \<Rightarrow> (uint128_t \<Rightarrow> uint128_t) list \<Rightarrow> uint128_t \<Rightarrow> uint128_t" where
  "setRead12 new_read1 new_read2 =
     cas_loop (\<lambda>m. \<lparr>lo = push_bit 32 (ucast new_read2) OR ucast new_read1, hi = hi m\<rparr>)"

definition setRead12Write ::
  "GraphType \<Rightarrow> GraphType \<Rightarrow> GraphType \<Rightarrow> (uint128_t \<Rightarrow> uint128_t) list \<Rightarrow> uint128_t \<Rightarrow> uint128_t" where
  "setRead12Write new_read1 new_read2 new_write =
     cas_loop (\<lambda>m. \<lparr>lo = push_bit 32 (ucast new_read2) OR ucast new_read1, hi = ucast new_write\<rparr>)"

section \<open>Setters under a lock\<close>

definition setWrite1_lock :: "GraphType \<Rightarrow> uint128_t \<Rightarrow> uint128_t" where
  "setWrite1_lock new_write m = m\<lparr>hi := ucast new_write\<rparr>"

definition setRead1_lock :: "GraphType \<Rightarrow> uint128_t \<Rightarrow> uint128_t" where
  "setRead1_lock new_read1 m = m\<lparr>lo := (lo m AND GETU32BIT_M) OR ucast new_read1\<rparr>"

definition setRead2_lock :: "GraphType \<Rightarrow> uint128_t \<Rightarrow> uint128_t" where
  "setRead2_lock new_read2 m =
     (let new_lo = ucast new_read2; new_lo = push_bit 32 new_lo
      in m\<lparr>lo := new_lo OR (lo m AND GETL32BIT_M)\<rparr>)"

definition setRead12_lock :: "GraphType \<Rightarrow> GraphType \<Rightarrow> uint128_t \<Rightarrow> uint128_t" where
  "setRead12_lock new_read1 new_read2 m =
     (let new_lo = ucast new_read2; new_lo = push_bit 32 new_lo; new_lo = new_lo OR ucast new_read1
      in m\<lparr>lo := new_lo\<rparr>)"

definition setRead12Write_lock :: "GraphType \<Rightarrow> GraphType \<Rightarrow> GraphType \<Rightarrow> uint128_t \<Rightarrow> uint128_t" where
  "setRead12Write_lock new_read1 new_read2 new_write m =
     (let new_lo = ucast new_read2; new_lo = push_bit 32 new_lo; new_lo = new_lo OR ucast new_read1
      in m\<lparr>lo := new_lo, hi := ucast new_write\<rparr>)"

section \<open>The packing\<close>

lemma low_high:
  fixes r s :: GraphType and x :: "64 word"
  shows "ucast ((x AND GETU32BIT_M) OR ucast r) = r"
    and "ucast (drop_bit 32 ((x AND GETU32BIT_M) OR ucast r)) = (ucast (drop_bit 32 x) :: GraphType)"
    and "ucast (push_bit 32 (ucast s) OR (x AND GETL32BIT_M)) = (ucast x :: GraphType)"
    and "ucast (drop_bit 32 (push_bit 32 (ucast s) OR (x AND GETL32BIT_M))) = s"
    and "ucast (push_bit 32 (ucast s) OR (ucast r :: 64 word)) = r"
    and "ucast (drop_bit 32 (push_bit 32 (ucast s) OR (ucast r :: 64 word))) = s"
    and "(ucast (ucast r :: 64 word) :: GraphType) = r"
proof -
  have mu: "bit GETU32BIT_M i \<longleftrightarrow> 32 \<le> i \<and> i < 64" for i
  proof -
    have eq: "GETU32BIT_M = NOT (mask 32)" by (simp add: GETU32BIT_M_def mask_eq_exp_minus_1)
    show ?thesis by (subst eq) (auto simp: bit_simps)
  qed
  have ml: "bit GETL32BIT_M i \<longleftrightarrow> i < 32" for i
  proof -
    have eq: "GETL32BIT_M = mask 32" by (simp add: GETL32BIT_M_def mask_eq_exp_minus_1)
    show ?thesis by (subst eq) (auto simp: bit_simps)
  qed
  have big: "\<not> bit r i" if "32 \<le> i" for i and r :: GraphType
    using that bit_imp_le_length [of r i] by auto
  show "ucast ((x AND GETU32BIT_M) OR ucast r) = r"
    by (rule bit_word_eqI) (simp add: bit_simps mu)
  show "ucast (drop_bit 32 ((x AND GETU32BIT_M) OR ucast r)) = (ucast (drop_bit 32 x) :: GraphType)"
    by (rule bit_word_eqI) (simp add: bit_simps mu big)
  show "ucast (push_bit 32 (ucast s) OR (x AND GETL32BIT_M)) = (ucast x :: GraphType)"
    by (rule bit_word_eqI) (simp add: bit_simps ml)
  show "ucast (drop_bit 32 (push_bit 32 (ucast s) OR (x AND GETL32BIT_M))) = s"
    by (rule bit_word_eqI) (simp add: bit_simps ml)
  show "ucast (push_bit 32 (ucast s) OR (ucast r :: 64 word)) = r"
    by (rule bit_word_eqI) (simp add: bit_simps)
  show "ucast (drop_bit 32 (push_bit 32 (ucast s) OR (ucast r :: 64 word))) = s"
    by (rule bit_word_eqI) (simp add: bit_simps big)
  show "(ucast (ucast r :: 64 word) :: GraphType) = r"
    by (rule bit_word_eqI) (simp add: bit_simps)
qed

text \<open>The words are triples of step ids: what each setter makes of the three.\<close>

definition history :: "uint128_t \<Rightarrow> GraphType \<times> GraphType \<times> GraphType" where
  "history m = (getWrite1 m, getRead1 m, getRead2 m)"

lemmas packing_defs =
  history_def getWrite1_def getRead1_def getRead2_def

lemma history_cas [simp]:
  "history (setWrite1 w [] m) = (w, getRead1 m, getRead2 m)"
  "history (setRead1 r [] m) = (getWrite1 m, r, getRead2 m)"
  "history (setRead2 r [] m) = (getWrite1 m, getRead1 m, r)"
  "history (setRead12 r r' [] m) = (getWrite1 m, r, r')"
  "history (setRead12Write r r' w [] m) = (w, r, r')"
  by (simp_all add: packing_defs setWrite1_def setRead1_def setRead2_def setRead12_def
      setRead12Write_def cas_def low_high del: drop_bit_or)

lemma history_lock:
  "history (setWrite1_lock w m) = (w, getRead1 m, getRead2 m)"
  "history (setRead1_lock r m) = (getWrite1 m, r, getRead2 m)"
  "history (setRead2_lock r m) = (getWrite1 m, getRead1 m, r)"
  "history (setRead12_lock r r' m) = (getWrite1 m, r, r')"
  "history (setRead12Write_lock r r' w m) = (w, r, r')"
  by (simp_all add: packing_defs setWrite1_lock_def setRead1_lock_def setRead2_lock_def
      setRead12_lock_def setRead12Write_lock_def Let_def low_high del: drop_bit_or)

section \<open>Concurrent setters\<close>

text \<open>A setter takes effect at once, on what the other threads made of the word by then.\<close>

lemma cas_loop_linearizes:
  "\<exists>k \<le> length envs. cas_loop f envs m = f (fold (\<lambda>env. env) (take k envs) m)"
proof (induction envs arbitrary: m)
  case Nil
  then show ?case by (simp add: cas_def)
next
  case (Cons env envs)
  show ?case
  proof (cases "env m = m")
    case True
    then show ?thesis by (intro exI [of _ 0]) (simp add: cas_def)
  next
    case False
    then have "cas_loop f (env # envs) m = cas_loop f envs (env m)" by (simp add: cas_def Let_def)
    then show ?thesis
      using Cons.IH [of "env m"] by (metis Suc_le_mono fold_simps(2) length_Cons take_Suc_Cons)
  qed
qed

text \<open>What the word holds when the swap of a setter succeeds.\<close>

definition at_swap :: "(uint128_t \<Rightarrow> uint128_t) list \<Rightarrow> nat \<Rightarrow> uint128_t \<Rightarrow> uint128_t" where
  "at_swap envs k = fold (\<lambda>env. env) (take k envs)"

lemma cas_loop_at_swap: "\<exists>k \<le> length envs. cas_loop f envs m = cas_loop f [] (at_swap envs k m)"
  using cas_loop_linearizes [of envs f m] by (simp add: at_swap_def cas_def)


text \<open>C21: The locking version of the metadata word stores the same three step ids as the
  compare-and-swap version: for every setter the getters afterwards agree, and return the ids
  that were stored.\<close>

theorem lock_and_cas_agree:
  "history (setWrite1_lock w m) = history (setWrite1 w [] m) \<and>
   history (setRead1_lock r m) = history (setRead1 r [] m) \<and>
   history (setRead2_lock r m) = history (setRead2 r [] m) \<and>
   history (setRead12_lock r r' m) = history (setRead12 r r' [] m) \<and>
   history (setRead12Write_lock r r' w m) = history (setRead12Write r r' w [] m) \<and>
   history (setRead12Write_lock r r' w m) = (w, r, r')"
  by (simp add: history_lock)

end
