(* ===== verification/Fast_Access.thy ===== *)
theory Fast_Access
  imports Access_Check Metadata_Word
begin

text \<open>
  The access check of the fast build (\<open>m_instrument_access\<close> with \<open>CAS_META\<close>): it reads the
  last writer and two readers of the word, reports each of them that may run in parallel with
  the current step and conflicts with it, and records the current step. The handler is one
  atomic step; what concurrent handlers do to one metadata word is in theory \<open>Metadata_Word\<close>,
  and to the first level of the table in theory \<open>Shadow\<close>.
\<close>

type_synonym 'a fast_monitor = "(uint128_t, 'a) monitor_scheme"

definition unset_word :: uint128_t where
  "unset_word = \<lparr>lo = 0, hi = 0\<rparr>"

section \<open>The handler\<close>

text \<open>What a read does to the metadata: \<open>read1\<close> and \<open>read2\<close> are the readers found in it.\<close>

definition record_read ::
  "nat \<Rightarrow> nat \<Rightarrow> nat \<Rightarrow> ((uint128_t \<Rightarrow> uint128_t) \<Rightarrow> 'a fast_monitor \<Rightarrow> 'a fast_monitor) \<Rightarrow>
     'a fast_monitor \<Rightarrow> 'a fast_monitor result" where
  "record_read curr_step read1 read2 update s =
     (if read1 = 0 then Inr (update (setRead1 (of_nat curr_step) []) s)
      else if read2 = 0 then Inr (update (setRead2 (of_nat curr_step) []) s)
      else and_then (m_isparallel s curr_step read1) (\<lambda>cur_r1.
           and_then (m_isparallel s curr_step read2) (\<lambda>cur_r2.
             if \<not> cur_r1 \<and> \<not> cur_r2 then Inr (update (setRead12 (of_nat curr_step) 0 []) s)
             else if cur_r1 \<and> cur_r2
             then and_then (m_lca s read1 read2) (\<lambda>lca12.
                  and_then (m_lca s read1 curr_step) (\<lambda>lca1s.
                    if m_depth (m_tgraph_nodes s lca1s) < m_depth (m_tgraph_nodes s lca12)
                    then Inr (update (setRead1 (of_nat curr_step) []) s) else Inr s))
             else Inr s)))"

definition m_instrument_access ::
  "nat \<Rightarrow> 64 word \<Rightarrow> bool \<Rightarrow> 'a fast_monitor \<Rightarrow> 'a fast_monitor result" where
  "m_instrument_access tid a type s =
     (if \<not> omprace_in_parallel s then Inr s
      else
        let (table, s) = find_table unset_word (primary_index a) s;
            addr_vec = get_metadata table (offset a) s;
            update = (\<lambda>f s. put_metadata table (offset a) (f (get_metadata table (offset a) s)) s)
        in and_then (stack_back tid s) (\<lambda>curr_step.
           let write1 = unat (getWrite1 addr_vec); read1 = unat (getRead1 addr_vec);
               read2 = unat (getRead2 addr_vec) in
           and_then (check_race a curr_step type write1 WRITE s) (\<lambda>s.
             if type = WRITE
             then and_then (check_race a curr_step WRITE read1 READ s) (\<lambda>s.
                  and_then (check_race a curr_step WRITE read2 READ s) (\<lambda>s.
                    Inr (update (setWrite1 (of_nat curr_step) []) s)))
             else record_read curr_step read1 read2 update s)))"

definition clear_metadata_fast ::
  "64 word \<Rightarrow> 64 word \<Rightarrow> 'a fast_monitor \<Rightarrow> 'a fast_monitor option" where
  "clear_metadata_fast = clear_metadata (setRead12Write 0 0 0 [])"

section \<open>The handler on the three step ids\<close>

text \<open>The metadata of a word as step ids, and the same handler on them: what it reports and what
  it leaves, with neither the packing nor the tables.\<close>

definition ids :: "uint128_t \<Rightarrow> nat \<times> nat \<times> nat" where
  "ids m = (unat (getWrite1 m), unat (getRead1 m), unat (getRead2 m))"

abbreviation ids_at :: "64 word \<Rightarrow> 'a fast_monitor \<Rightarrow> nat \<times> nat \<times> nat" where
  "ids_at a s \<equiv> ids (metadata_at unset_word a s)"

fun next_ids ::
  "'a detector_scheme \<Rightarrow> nat \<Rightarrow> bool \<Rightarrow> nat \<times> nat \<times> nat \<Rightarrow> (nat \<times> nat \<times> nat) result" where
  "next_ids s cur type (write1, read1, read2) =
     (if type = WRITE then Inr (cur, read1, read2)
      else if read1 = 0 then Inr (write1, cur, read2)
      else if read2 = 0 then Inr (write1, read1, cur)
      else and_then (m_isparallel s cur read1) (\<lambda>cur_r1.
           and_then (m_isparallel s cur read2) (\<lambda>cur_r2.
             if \<not> cur_r1 \<and> \<not> cur_r2 then Inr (write1, cur, 0)
             else if cur_r1 \<and> cur_r2
             then and_then (m_lca s read1 read2) (\<lambda>lca12.
                  and_then (m_lca s read1 cur) (\<lambda>lca1s.
                    if m_depth (m_tgraph_nodes s lca1s) < m_depth (m_tgraph_nodes s lca12)
                    then Inr (write1, cur, read2) else Inr (write1, read1, read2)))
             else Inr (write1, read1, read2))))"

fun checks :: "64 word \<Rightarrow> nat \<Rightarrow> bool \<Rightarrow> nat \<times> nat \<times> nat \<Rightarrow> 'a detector_scheme \<Rightarrow>
    'a detector_scheme result" where
  "checks a cur type (write1, read1, read2) s =
     (if type = WRITE
      then block [check_race a cur WRITE write1 WRITE, check_race a cur WRITE read1 READ,
                  check_race a cur WRITE read2 READ] s
      else check_race a cur READ write1 WRITE s)"

lemma checks_Inr: "checks a cur ty h s = Inr s' \<Longrightarrow> only_races s s'"
  by (cases h) (auto split: if_splits dest!: check_race_Inr, meson only_races_trans)

lemma unat_id: "x < OMP_RACER_NUM_GRAPH_NODES \<Longrightarrow> unat (of_nat x :: GraphType) = x"
  by (simp add: unat_of_nat OMP_RACER_NUM_GRAPH_NODES_def)

lemma ids_simps:
  "ids (setWrite1 w [] m) = (unat w, snd (ids m))"
  "ids (setRead1 w [] m) = (fst (ids m), unat w, snd (snd (ids m)))"
  "ids (setRead2 w [] m) = (fst (ids m), fst (snd (ids m)), unat w)"
  "ids (setRead12 w w' [] m) = (fst (ids m), unat w, unat w')"
  "ids (setRead12Write w w' w'' [] m) = (unat w'', unat w, unat w')"
  using history_cas(1-3) [of w m] history_cas(4) [of w w' m] history_cas(5) [of w w' w'' m]
  by (simp_all add: ids_def history_def)

lemma record_read_ids:
  assumes "cur < OMP_RACER_NUM_GRAPH_NODES"
    and "record_read cur read1 read2 update s = Inr s'"
    and "ids m = (write1, read1, read2)"
  shows "\<exists>f. (s' = update f s \<or> s' = s \<and> f = id) \<and> next_ids s cur READ (ids m) = Inr (ids (f m))"
proof -
  have m: "fst (ids m) = write1" "fst (snd (ids m)) = read1" "snd (snd (ids m)) = read2"
    using assms(3) by simp_all
  note u = unat_id [OF assms(1)]
  have r: "ids (setRead1 (of_nat cur) [] m) = (write1, cur, read2)"
    "ids (setRead2 (of_nat cur) [] m) = (write1, read1, cur)"
    "ids (setRead12 (of_nat cur) 0 [] m) = (write1, cur, 0)" "ids (id m) = (write1, read1, read2)"
    by (simp_all add: ids_simps m u assms(3))
  consider "read1 = 0" | "read1 \<noteq> 0" "read2 = 0" | "read1 \<noteq> 0" "read2 \<noteq> 0" by blast
  then show ?thesis
  proof cases
    case 1
    then show ?thesis using assms(2,3) r(1) unfolding record_read_def by auto
  next
    case 2
    then show ?thesis using assms(2,3) r(2) unfolding record_read_def by auto
  next
    case 3
    then obtain p1 p2 where p: "m_isparallel s cur read1 = Inr p1" "m_isparallel s cur read2 = Inr p2"
      using assms(2) unfolding record_read_def by auto
    consider "\<not> p1 \<and> \<not> p2" | "p1 \<and> p2" | "p1 \<noteq> p2" by blast
    then show ?thesis
    proof cases
      case 1
      then show ?thesis using 3 assms(2,3) r(3) p unfolding record_read_def by auto
    next
      case 2
      then obtain x y where "m_lca s read1 read2 = Inr x" "m_lca s read1 cur = Inr y"
        using 3 assms(2) p unfolding record_read_def by auto
      then show ?thesis using 2 3 assms(2,3) r(1,4) p unfolding record_read_def
        by (auto split: if_splits)
    next
      assume "p1 \<noteq> p2"
      then show ?thesis using 3 assms(2,3) r(4) p unfolding record_read_def by auto
    qed
  qed
qed

lemma next_ids_cong: "same_graph s s' \<Longrightarrow> next_ids s' = next_ids s"
proof (intro ext)
  fix cur ty and h :: "nat \<times> nat \<times> nat" assume g: "same_graph s s'"
  obtain w r1 r2 where h: "h = (w, r1, r2)" by (cases h) auto
  have n: "m_tgraph_nodes s' = m_tgraph_nodes s" using g by (simp add: same_graph_def)
  show "next_ids s' cur ty h = next_ids s cur ty h"
    unfolding h next_ids.simps same_graph_verdicts [OF g] n ..
qed

text \<open>The handler refines the one on step ids.\<close>

lemma m_instrument_access_ids:
  assumes wf: "wf_state s" "wf_tables s" and par: "omprace_in_parallel s"
    and run: "m_instrument_access tid a type s = Inr s'"
  defines "cur \<equiv> last (m_last_nodes s tid)"
  shows "m_last_nodes s tid \<noteq> []" and "is_node s cur" and "wf_tables s'" and "same_graph s s'"
    and "next_ids s cur type (ids_at a s) = Inr (ids_at a s')"
    and "slot b \<noteq> slot a \<Longrightarrow> metadata_at unset_word b s' = metadata_at unset_word b s"
    and "\<exists>t u v. find_table unset_word (primary_index a) s = (t, u) \<and>
           checks a cur type (ids_at a s) u = Inr v \<and>
           m_violations s' = m_violations v \<and> m_violations_count s' = m_violations_count v"
proof -
  obtain t u where tu: "find_table unset_word (primary_index a) s = (t, u)" by fastforce
  note f = find_table_spec [OF wf(2) tu] and fg = find_table_graph [OF tu]
  let ?h = "metadata_at unset_word a s"
  obtain w r1 r2 where h: "ids ?h = (w, r1, r2)" by (cases "ids ?h") auto
  then have hw: "unat (getWrite1 ?h) = w" "unat (getRead1 ?h) = r1" "unat (getRead2 ?h) = r2"
    by (simp_all add: ids_def)
  let ?up = "\<lambda>f s :: 'a fast_monitor. put_metadata t (offset a) (f (get_metadata t (offset a) s)) s"
  have st: "stack_back tid u = Inr cur" and ne: "m_last_nodes s tid \<noteq> []"
    using run par tu fg
    by (auto simp: m_instrument_access_def Let_def stack_back_Inr cur_def same_graph_def)
  show "m_last_nodes s tid \<noteq> []" by (fact ne)
  show node: "is_node s cur"
    using wf_stateD(3) [OF wf(1), of tid] ne by (auto simp: wf_stack_def cur_def)
  then have cur: "cur < OMP_RACER_NUM_GRAPH_NODES" "unat (of_nat cur :: GraphType) = cur"
    using wf_stateD(2) [OF wf(1)] unat_id by (auto simp: is_node_def)
  obtain v g where v: "checks a cur type (ids ?h) u = Inr v"
    and s': "s' = ?up g v \<or> s' = v \<and> g = id"
    and nx: "next_ids v cur type (ids ?h) = Inr (ids (g ?h))"
  proof (cases type)
    case True
    then obtain v where v: "checks a cur type (ids ?h) u = Inr v"
      and "s' = ?up (setWrite1 (of_nat cur) []) v"
      using run par tu st by (auto simp: m_instrument_access_def Let_def f(4) hw h)
    then show ?thesis using that [of v "setWrite1 (of_nat cur) []"] v True h cur(2) by (simp add: ids_simps)
  next
    case False
    then obtain v where v: "check_race a cur READ w WRITE u = Inr v"
      and "record_read cur r1 r2 ?up v = Inr s'"
      using run par tu st by (auto simp: m_instrument_access_def Let_def f(4) hw)
    from record_read_ids [OF cur(1) this(2) h] obtain g where
      "s' = ?up g v \<or> s' = v \<and> g = id" "next_ids v cur READ (ids ?h) = Inr (ids (g ?h))" by blast
    then show ?thesis using that [of v g] v False h by simp
  qed
  note r = checks_Inr [OF v]
  have uv: "m_primary_trie v = m_primary_trie u" "m_tables v = m_tables u" "m_next_table v = m_next_table u"
    using r by (auto elim!: only_races_E)
  have gv: "same_graph s v" using same_graph_trans [OF conjunct1 [OF fg] only_races_same_graph [OF r]] .
  have wv: "wf_tables v" and pv: "m_primary_trie v (primary_index a) = Some t"
    using f(1,2) uv by (simp_all add: wf_tables_def)
  have mv: "metadata_at unset_word c v = metadata_at unset_word c s" for c
    using f(3) [of c] unfolding metadata_at_def uv .
  have gm: "get_metadata t (offset a) v = ?h"
    using f(4) uv by (simp add: get_metadata_def)
  have md: "wf_tables s' \<and> metadata_at unset_word c s' =
      (if slot c = slot a then g ?h else metadata_at unset_word c s)" for c
    using s' put_metadata_spec(1) [OF wv pv, of "g ?h"]
      put_metadata_spec(2) [OF wv pv, of unset_word c "g ?h"]
      wv mv gm metadata_at_slot [of c a unset_word s]
    by auto
  have sg: "same_graph v s'" "m_violations s' = m_violations v" "m_violations_count s' = m_violations_count v"
    using s' by (auto simp: put_metadata_def same_graph_def)
  show "wf_tables s'" using md by blast
  show "same_graph s s'" by (rule same_graph_trans [OF gv sg(1)])
  show "next_ids s cur type (ids ?h) = Inr (ids_at a s')"
    using nx md [of a] next_ids_cong [OF gv] by simp
  show "slot b \<noteq> slot a \<Longrightarrow> metadata_at unset_word b s' = metadata_at unset_word b s" using md [of b] by simp
  show "\<exists>t u v. find_table unset_word (primary_index a) s = (t, u) \<and>
           checks a cur type (ids ?h) u = Inr v \<and>
           m_violations s' = m_violations v \<and> m_violations_count s' = m_violations_count v"
    using tu v sg(2,3) by blast
qed

end
