(* ===== verification/Checked_Run.thy ===== *)
theory Checked_Run
  imports Access_Check
begin

text \<open>
  Runs of an instrumented program: graph callbacks and accesses in any interleaving, with the
  history of the accesses beside the state. The locale states what a run needs of the access
  handler of a build - which steps its metadata may hold, that the last writer is among them and
  is always compared, that it reports only what it compared and changes one word - and the
  invariant of a run follows for every build.
\<close>

section \<open>Runs\<close>

text \<open>What an access adds to the history: outside a parallel region it is not checked.\<close>

definition logged :: "nat \<Rightarrow> 64 word \<Rightarrow> bool \<Rightarrow> 'a detector_scheme \<Rightarrow> access list" where
  "logged tid a ty s =
     (if omprace_in_parallel s then [accessed a (last (m_last_nodes s tid)) ty] else [])"

type_synonym 'm handler = "nat \<Rightarrow> 64 word \<Rightarrow> bool \<Rightarrow> 'm monitor \<Rightarrow> 'm monitor result"

text \<open>A run of the build \<open>md\<close> with the access handler \<open>handle\<close>. With \<open>free\<close>, no task has
  dependences when an access is made. With \<open>Some wipe\<close>, ranges of the shadow memory may be cleared
  at any time, each entry by \<open>wipe\<close>; with \<open>None\<close> nothing is cleared.\<close>

inductive checked_run ::
  "mode \<Rightarrow> 'm \<Rightarrow> 'm handler \<Rightarrow> ('m \<Rightarrow> 'm) option \<Rightarrow> bool \<Rightarrow> access list \<Rightarrow> 'm monitor \<Rightarrow> bool"
  for md unset handle cl free where
  start: "m_init_racer t (new_monitor md unset) = Inr s \<Longrightarrow> checked_run md unset handle cl free [] s"
| callback: "checked_run md unset handle cl free h s \<Longrightarrow> allowed c s \<Longrightarrow> capture c s = Inr s' \<Longrightarrow>
    checked_run md unset handle cl free h s'"
| access: "checked_run md unset handle cl free h s \<Longrightarrow> step_on_top tid s \<Longrightarrow> free \<longrightarrow> task_free s \<Longrightarrow>
    handle tid a ty s = Inr s' \<Longrightarrow> checked_run md unset handle cl free (h @ logged tid a ty s) s'"
| clear: "checked_run md unset handle cl free h s \<Longrightarrow> cl = Some wipe \<Longrightarrow>
    clear_metadata wipe lo hi s = Some s' \<Longrightarrow> checked_run md unset handle cl free h s'"

text \<open>The record \<open>v\<close> is a race of the history: two accesses to one word, one of them a write, by
  steps that may run in parallel.\<close>

definition real_race :: "access list \<Rightarrow> 'a detector_scheme \<Rightarrow> violation \<Rightarrow> bool" where
  "real_race h s v \<longleftrightarrow>
     accessed (m_addr v) (m_task1 v) (m_access1 v) \<in> set h \<and>
     accessed (m_addr v) (m_task2 v) (m_access2 v) \<in> set h \<and>
     (m_access1 v \<or> m_access2 v) \<and> in_parallel (m_tgraph_nodes s) (m_task1 v) (m_task2 v)"

lemma real_race_mono: "real_race h s v \<Longrightarrow> same_graph s s' \<Longrightarrow> real_race (h @ h') s' v"
  by (auto simp: real_race_def same_graph_def)

section \<open>What callbacks and the start keep\<close>

lemma work_step_extends: "wf_state s' \<Longrightarrow> extends s s' \<Longrightarrow> work_step s x \<Longrightarrow> work_step s' x"
  by (auto simp: work_step_def extends_def is_node_def)

lemma capture_monitor:
  fixes s :: "('m, 'a) monitor_scheme"
  assumes "capture c s = Inr s'"
  shows "m_violations s' = m_violations s" "m_violations_count s' = m_violations_count s"
    "wf_tables s' = wf_tables s" "metadata_at unset b s' = metadata_at unset b s"
proof -
  have r: "m_violations s' = m_violations s" "m_violations_count s' = m_violations_count s"
      "detector.more s' = detector.more s"
    using capture_quiet [OF assms] by (simp_all add: same_rest_def)
  then have t: "m_primary_trie s' = m_primary_trie s" "m_tables s' = m_tables s"
      "m_next_table s' = m_next_table s"
    by (cases s; cases s'; simp)+
  show "m_violations s' = m_violations s" "m_violations_count s' = m_violations_count s"
    "wf_tables s' = wf_tables s" "metadata_at unset b s' = metadata_at unset b s"
    unfolding wf_tables_def metadata_at_def t by (rule r, rule r, rule refl, rule refl)
qed

lemma new_monitor_initial: "initial (new_monitor md unset)"
  by (simp add: initial_def new_monitor_def OpenmpRaceDetector_def Let_def detector.defs)

lemma m_init_racer_quiet:
  assumes r: "m_init_racer t s = Inr s'" and i: "initial s"
  shows "same_rest s s'"
proof -
  have "quiet (block [push_back 1 t, m_add_step_node t])"
    by (rule quiet_block) (simp add: quiet_primitives quiet_push_new_node)
  then have "same_rest (fresh_root s) s'" using r quietD m_init_racer_fresh_root [OF i, of t] by metis
  then show ?thesis by (simp add: same_rest_def fresh_root_def)
qed

lemma started_monitor:
  assumes "m_init_racer t (new_monitor md unset) = Inr s"
  shows "wf_state s" "mode s = md" "wf_tables s" "metadata_at unset b s = unset"
    "\<not> valid (m_violations s i)" "m_violations_count s = 0"
proof -
  let ?s = "new_monitor md unset"
  have r: "same_rest ?s s" by (rule m_init_racer_quiet [OF assms new_monitor_initial])
  then have t: "m_primary_trie s = m_primary_trie ?s" "m_tables s = m_tables ?s"
      "m_next_table s = m_next_table ?s"
    by (cases s; simp add: same_rest_def new_monitor_def detector.defs)+
  show "\<not> valid (m_violations s i)" "m_violations_count s = 0"
    using r by (simp_all add: same_rest_def new_monitor_def detector.defs OpenmpRaceDetector_def Let_def
        no_violation_def)
  show "metadata_at unset b s = unset"
    unfolding metadata_at_def t by (simp add: new_monitor_def detector.defs)
  show "wf_tables s" using new_monitor_tables [of md unset] t by (simp add: wf_tables_def)
  show "wf_state s" by (rule m_init_racer_wf(1) [OF new_monitor_initial assms])
  show "mode s = md"
    using m_init_racer_wf(2) [OF new_monitor_initial assms]
    by (simp add: extends_def fresh_root_def new_monitor_def detector.defs OpenmpRaceDetector_def Let_def)
qed

section \<open>The handler of a build\<close>

text \<open>The steps and kinds of access a word's metadata holds are steps of the graph.\<close>

definition holds_steps :: "'a detector_scheme \<Rightarrow> (nat \<times> bool) set \<Rightarrow> bool" where
  "holds_steps s ps \<longleftrightarrow> (\<forall>(p, k) \<in> ps. work_step s p)"

definition access_ready ::
  "'m \<Rightarrow> ('m \<Rightarrow> (nat \<times> bool) set) \<Rightarrow> ('m \<Rightarrow> bool) \<Rightarrow> nat \<Rightarrow> 64 word \<Rightarrow> 'm monitor \<Rightarrow> bool" where
  "access_ready unset steps_of good tid a s \<longleftrightarrow> wf_state s \<and> wf_tables s \<and> step_on_top tid s \<and>
     omprace_in_parallel s \<and> good (metadata_at unset a s) \<and>
     holds_steps s (steps_of (metadata_at unset a s))"

locale access_checker =
  fixes md :: mode and unset :: 'm and handle :: "'m handler"
    and steps_of :: "'m \<Rightarrow> (nat \<times> bool) set" and writer :: "'m \<Rightarrow> nat"
    and good :: "'m \<Rightarrow> bool" and wipe :: "'m \<Rightarrow> 'm"
  assumes unset_empty: "steps_of unset = {}" "writer unset = 0" "good unset"
    and wiped: "steps_of (wipe m) \<subseteq> steps_of m" "good m \<Longrightarrow> good (wipe m)"
    and writer_held: "writer m \<noteq> 0 \<Longrightarrow> (writer m, WRITE) \<in> steps_of m"
    and idle: "\<not> omprace_in_parallel s \<Longrightarrow> handle tid a ty s = Inr s' \<Longrightarrow> s' = s"
    and graph: "access_ready unset steps_of good tid a s \<Longrightarrow> mode s = md \<Longrightarrow> handle tid a ty s = Inr s' \<Longrightarrow>
      same_graph s s' \<and> wf_tables s' \<and> m_last_nodes s tid \<noteq> [] \<and> good (metadata_at unset a s')"
    and others: "access_ready unset steps_of good tid a s \<Longrightarrow> mode s = md \<Longrightarrow> handle tid a ty s = Inr s' \<Longrightarrow>
      slot b \<noteq> slot a \<Longrightarrow> metadata_at unset b s' = metadata_at unset b s"
    and recorded: "access_ready unset steps_of good tid a s \<Longrightarrow> mode s = md \<Longrightarrow> handle tid a ty s = Inr s' \<Longrightarrow>
      steps_of (metadata_at unset a s') \<subseteq>
        insert (last (m_last_nodes s tid), ty) (steps_of (metadata_at unset a s)) \<and>
      writer (metadata_at unset a s') =
        (if ty = WRITE then last (m_last_nodes s tid) else writer (metadata_at unset a s))"
    and reported: "access_ready unset steps_of good tid a s \<Longrightarrow> mode s = md \<Longrightarrow> handle tid a ty s = Inr s' \<Longrightarrow>
      m_violations s' i = m_violations s i \<or>
      (\<exists>(p, k) \<in> steps_of (metadata_at unset a s). (ty \<or> k) \<and>
         found s a (last (m_last_nodes s tid)) ty p k (m_violations s' i))"
    and silence: "access_ready unset steps_of good tid a s \<Longrightarrow> mode s = md \<Longrightarrow> handle tid a ty s = Inr s' \<Longrightarrow>
      m_violations_count s' = 0 \<Longrightarrow> m_violations_count s = 0 \<and>
      (writer (metadata_at unset a s) \<noteq> 0 \<longrightarrow>
         m_isparallel s (last (m_last_nodes s tid)) (writer (metadata_at unset a s)) = Inr False)"
begin

text \<open>The invariant of a run. It is \<open>exact\<close> when no metadata is lost to a clearing.\<close>

definition run_inv :: "bool \<Rightarrow> bool \<Rightarrow> access list \<Rightarrow> 'm monitor \<Rightarrow> bool" where
  "run_inv exact free h s \<longleftrightarrow> wf_state s \<and> mode s = md \<and> wf_tables s \<and>
     (\<forall>x \<in> set h. work_step s (by_step x)) \<and>
     (\<forall>b. \<forall>(p, k) \<in> steps_of (metadata_at unset b s). accessed b p k \<in> set h) \<and>
     (\<forall>b. (exact \<longrightarrow> writer (metadata_at unset b s) = last_write (slot b) h) \<and>
       good (metadata_at unset b s)) \<and>
     (\<forall>i. valid (m_violations s i) \<longrightarrow> real_race h s (m_violations s i)) \<and>
     (exact \<and> (free \<or> md = Precise) \<longrightarrow> m_violations_count s = 0 \<longrightarrow>
        silent (in_parallel (m_tgraph_nodes s)) h)"

lemma run_inv_start:
  "m_init_racer t (new_monitor md unset) = Inr s \<Longrightarrow> run_inv exact free [] s"
  using started_monitor [of t md unset s] unset_empty by (simp add: run_inv_def silent_simps)

lemma run_inv_callback:
  assumes inv: "run_inv exact free h s" and "allowed c s" and run: "capture c s = Inr s'"
  shows "run_inv exact free h s'"
proof -
  have wf: "wf_state s" using inv by (simp add: run_inv_def)
  note e = capture_evolves [OF wf assms(2) run] and m = capture_monitor [OF run]
  have steps: "\<forall>x \<in> set h. work_step s (by_step x)" using inv by (simp add: run_inv_def)
  have ord: "in_parallel (m_tgraph_nodes s') x y = in_parallel (m_tgraph_nodes s) x y"
    if "work_step s x" "work_step s y" for x y
    using extends_order(3) [OF wf e(2)] that by (simp add: work_step_def)
  have "real_race h s' v" if "real_race h s v" for v
    using that ord steps by (fastforce simp: real_race_def accessed_def)
  moreover have "silent (in_parallel (m_tgraph_nodes s')) h" if "silent (in_parallel (m_tgraph_nodes s)) h"
    by (rule silent_cong [OF that]) (use ord steps in auto)
  ultimately show ?thesis
    using inv e work_step_extends [OF e] m by (auto simp: run_inv_def extends_def)
qed

lemma run_inv_access:
  assumes inv: "run_inv exact free h s" and top: "step_on_top tid s" and fr: "free \<longrightarrow> task_free s"
    and par: "omprace_in_parallel s" and run: "handle tid a ty s = Inr s'"
  shows "run_inv exact free (h @ logged tid a ty s) s'"
proof -
  let ?g = "m_tgraph_nodes s" and ?cur = "last (m_last_nodes s tid)" and ?m = "metadata_at unset a s"
  have i: "wf_state s" "mode s = md" "wf_tables s" "\<forall>x \<in> set h. work_step s (by_step x)"
      "\<And>b p k. (p, k) \<in> steps_of (metadata_at unset b s) \<Longrightarrow> accessed b p k \<in> set h"
      "\<And>b. (exact \<longrightarrow> writer (metadata_at unset b s) = last_write (slot b) h) \<and>
        good (metadata_at unset b s)"
      "\<And>k. valid (m_violations s k) \<Longrightarrow> real_race h s (m_violations s k)"
      "exact \<and> (free \<or> md = Precise) \<Longrightarrow> m_violations_count s = 0 \<Longrightarrow> silent (in_parallel ?g) h"
    using inv by (auto simp: run_inv_def)
  have held: "work_step s p" if "(p, k) \<in> steps_of (metadata_at unset b s)" for b p k
    using i(4) i(5) [OF that] by (auto simp: accessed_def)
  have rdy: "access_ready unset steps_of good tid a s"
    using i(1,3) top par held i(6) [of a] by (auto simp: access_ready_def holds_steps_def)
  note g = graph [OF rdy i(2) run]
  let ?h = "h @ [accessed a ?cur ty]"
  have lg: "logged tid a ty s = [accessed a ?cur ty]" using par by (simp add: logged_def)
  have cur: "work_step s ?cur"
    using top wf_stateD(3) [OF i(1), of tid] g i(1) by (auto simp: work_step_def step_on_top_def wf_stack_def)
  have gs: "m_tgraph_nodes s' = ?g" "mode s' = md" using g i(2) by (simp_all add: same_graph_def)
  have held_at: "accessed b p k \<in> set ?h" if "(p, k) \<in> steps_of (metadata_at unset b s')" for b p k
  proof (cases "slot b = slot a")
    case True
    then show ?thesis
      using that recorded [OF rdy i(2) run] i(5) [of p k a] metadata_at_slot [OF True, of unset s']
      by (auto simp: accessed_def)
  next
    case False
    then show ?thesis using that others [OF rdy i(2) run] i(5) [of p k b] by auto
  qed
  have wr: "(exact \<longrightarrow> writer (metadata_at unset b s') = last_write (slot b) ?h) \<and>
      good (metadata_at unset b s')" for b
  proof (cases "slot b = slot a")
    case True
    then show ?thesis
      using recorded [OF rdy i(2) run] i(6) [of a] metadata_at_slot [OF True, of unset s'] g by auto
  next
    case False
    then show ?thesis using others [OF rdy i(2) run False] i(6) [of b] by auto
  qed
  have races: "real_race ?h s' (m_violations s' k)" if v: "valid (m_violations s' k)" for k
    using reported [OF rdy i(2) run, of k]
  proof
    assume "m_violations s' k = m_violations s k"
    then show ?thesis using v real_race_mono [OF i(7)] g by fastforce
  next
    assume "\<exists>(p, t) \<in> steps_of ?m. (ty \<or> t) \<and> found s a ?cur ty p t (m_violations s' k)"
    then obtain p t where p: "(p, t) \<in> steps_of ?m" "ty \<or> t"
      and f: "found s a ?cur ty p t (m_violations s' k)" by auto
    have "in_parallel ?g ?cur p"
      using m_isparallel_answers(1) [OF cur, of p True] held [OF p(1)] f by (simp add: found_def)
    then show ?thesis using f p i(5) [OF p(1)] gs by (auto simp: real_race_def found_def)
  qed
  have sil: "silent (in_parallel ?g) ?h"
    if "exact \<and> (free \<or> md = Precise)" "m_violations_count s' = 0"
  proof -
    note z = silence [OF rdy i(2) run that(2)]
    have "mode s = Precise \<or> task_free s" using that(1) fr i(2) by blast
    then have "\<not> in_parallel ?g ?cur (writer ?m)" if "writer ?m \<noteq> 0" "writer ?m \<noteq> ?cur"
      using m_isparallel_answers(2) [OF cur, of "writer ?m" False] z that held [OF writer_held] by blast
    moreover have "writer ?m = last_write (slot a) h" using i(6) that(1) by blast
    ultimately show ?thesis using i(8) [OF that(1)] z by (auto simp: silent_simps)
  qed
  have steps: "\<forall>x \<in> set ?h. work_step s' (by_step x)"
    using i(4) work_step_graph [of s s'] cur g by auto
  have held: "\<forall>b. \<forall>(p, k) \<in> steps_of (metadata_at unset b s'). accessed b p k \<in> set ?h"
    using held_at by blast
  show ?thesis
    unfolding run_inv_def lg gs
    using steps held same_graph_wf [of s s'] i(1) g races wr sil by blast
qed

lemma run_inv_clear:
  assumes inv: "run_inv exact free h s" and keep: "exact \<Longrightarrow> wipe = id"
    and t: "read_primary (primary_index x) s = Some t"
  shows "run_inv exact free h (put_metadata t (offset x) (wipe (get_metadata t (offset x) s)) s)"
    (is "run_inv _ _ _ ?u")
proof -
  have wf: "wf_tables s" and tr: "m_primary_trie s (primary_index x) = Some t"
    using inv t by (simp_all add: run_inv_def read_primary_def)
  have m: "metadata_at unset b ?u =
      (if slot b = slot x then wipe (metadata_at unset b s) else metadata_at unset b s)" for b
    using put_metadata_spec(2) [OF wf tr] tr metadata_at_slot [of b x unset s]
    by (simp add: metadata_at_def get_metadata_def)
  have u: "m_violations ?u = m_violations s" "m_violations_count ?u = m_violations_count s"
      "m_tgraph_nodes ?u = m_tgraph_nodes s" "mode ?u = mode s" "wf_tables ?u" "same_graph s ?u"
    using put_metadata_spec(1) [OF wf tr] by (simp_all add: put_metadata_def same_graph_def)
  then have race: "real_race h ?u = real_race h s" by (intro ext) (simp add: real_race_def)
  have held: "steps_of (metadata_at unset b ?u) \<subseteq> steps_of (metadata_at unset b s)"
      and good: "good (metadata_at unset b s) \<Longrightarrow> good (metadata_at unset b ?u)"
      and exact: "exact \<Longrightarrow> metadata_at unset b ?u = metadata_at unset b s" for b
    using wiped m keep by simp_all
  show ?thesis
    unfolding run_inv_def u(1-4) race
  proof (intro conjI)
    show "wf_state ?u" "\<forall>x \<in> set h. work_step ?u (by_step x)"
      using inv same_graph_wf [OF u(6)] work_step_graph [OF u(6)] by (simp_all add: run_inv_def)
    show "\<forall>b. \<forall>(p, k) \<in> steps_of (metadata_at unset b ?u). accessed b p k \<in> set h"
      using inv held unfolding run_inv_def by blast
    show "\<forall>b. (exact \<longrightarrow> writer (metadata_at unset b ?u) = last_write (slot b) h) \<and>
        good (metadata_at unset b ?u)"
      using inv good exact by (simp add: run_inv_def)
  qed (use inv u(5) in \<open>simp_all add: run_inv_def\<close>)
qed

text \<open>A run without clearing, or one whose clearing loses nothing, is exact.\<close>

lemma checked_run_inv:
  assumes "checked_run md unset handle cl free h s" and "cl \<in> {None, Some wipe}"
    and "exact \<Longrightarrow> cl = None \<or> wipe = id"
  shows "run_inv exact free h s"
  using assms(1)
proof (induction rule: checked_run.induct)
  case (access h s tid a ty s')
  show ?case
  proof (cases "omprace_in_parallel s")
    case True
    then show ?thesis using run_inv_access access by blast
  next
    case False
    then show ?thesis using access idle [OF False] by (auto simp: logged_def)
  qed
next
  case (clear h s w lo hi s')
  then have "w = wipe" "exact \<Longrightarrow> wipe = id" using assms(2,3) by auto
  then show ?case
    using clear_metadata_keeps [OF clear(3), of "run_inv exact free h"] run_inv_clear clear.IH by blast
qed (auto intro: run_inv_start run_inv_callback)

text \<open>What follows for the races and for the silence of a run.\<close>

lemma races_are_real:
  assumes "checked_run md unset handle cl free h s" and "cl \<in> {None, Some wipe}"
    and "valid (m_violations s i)"
  shows "real_race h s (m_violations s i)"
  using checked_run_inv [OF assms(1,2), of False] assms(3) by (simp add: run_inv_def)

lemma run_steps:
  assumes "checked_run md unset handle cl free h s" and "cl \<in> {None, Some wipe}"
  shows "\<forall>x \<in> set h. work_step s (by_step x)"
  using checked_run_inv [OF assms, of False] by (simp add: run_inv_def)

lemma silent_run:
  assumes "checked_run md unset handle cl free h s" and "cl = None \<or> cl = Some wipe \<and> wipe = id"
    and "free \<or> md = Precise" and "m_violations_count s = 0"
    and "in_order (before (m_tgraph_nodes s)) h"
    and "i < j" "j < length h" "place (h ! i) = place (h ! j)" "is_write (h ! i)"
  shows "by_step (h ! i) = by_step (h ! j) \<or>
    before (m_tgraph_nodes s) (by_step (h ! i)) (by_step (h ! j))"
  using checked_run_inv [OF assms(1), of True] assms(2-4)
  by (intro graph.silent_writes_ordered assms(5-9)) (auto simp: run_inv_def)

end

section \<open>Concrete runs\<close>

datatype event = Callback callback | Access nat "64 word" bool

text \<open>A list of events, each allowed where it happens, with the history it leaves; no task has
  dependences.\<close>

fun play :: "'m handler \<Rightarrow> event list \<Rightarrow> access list \<Rightarrow> 'm monitor \<Rightarrow> (access list \<times> 'm monitor) option"
  where
  "play handle [] h s = Some (h, s)"
| "play handle (Callback c # es) h s =
     (if allowed c s then case capture c s of Inl e \<Rightarrow> None | Inr s' \<Rightarrow> play handle es h s' else None)"
| "play handle (Access tid a ty # es) h s =
     (if step_on_top tid s \<and> task_free s then case handle tid a ty s of
        Inl e \<Rightarrow> None | Inr s' \<Rightarrow> play handle es (h @ logged tid a ty s) s' else None)"

definition played :: "mode \<Rightarrow> 'm \<Rightarrow> 'm handler \<Rightarrow> event list \<Rightarrow> (access list \<times> 'm monitor) option" where
  "played md unset handle es = (case m_init_racer 0 (new_monitor md unset) of
     Inl e \<Rightarrow> None | Inr s \<Rightarrow> play handle es [] s)"

lemma play_checked_run:
  "checked_run md unset handle cl free h s \<Longrightarrow> play handle es h s = Some (h', s') \<Longrightarrow>
     checked_run md unset handle cl free h' s'"
proof (induction handle es h s rule: play.induct)
  case (2 handle c es h s)
  then show ?case by (auto split: if_splits sum.splits intro: checked_run.callback)
next
  case (3 handle tid a ty es h s)
  then show ?case by (auto split: if_splits sum.splits intro: checked_run.access)
qed simp

lemma played_checked_run:
  "played md unset handle es = Some (h, s) \<Longrightarrow> checked_run md unset handle cl free h s"
  by (auto simp: played_def split: sum.splits intro: play_checked_run checked_run.start)

text \<open>Addresses below 2^28 evaluate through their decimal value.\<close>

lemma index_numeral:
  "primary_index (numeral k) = unat (numeral k :: 64 word) div 2 ^ 26 mod 2 ^ 22"
  "offset (numeral k) = unat (numeral k :: 64 word) div 2 ^ 2 mod 2 ^ 24"
  by (simp_all only: primary_index_mod offset_mod)

lemmas tables_eval = find_table_def read_primary_def install_table_def get_metadata_def
  put_metadata_def check_race_def m_add_violations_def OMP_RACER_MAX_VIOLATIONS_def index_numeral
  Let_def accessed_def slot_def

lemmas play_eval = played_def logged_def new_monitor_def detector.defs task_free_def tables_eval
  run_eval up_numeral

text \<open>Two unordered writes; a write before and one after a barrier; reads by two tasks and by
  a parallel thread, and a write after the tasks.\<close>

definition race_run :: "event list" where
  "race_run = map Callback team_run @ [Access 0 64 WRITE, Access 1 66 READ]"

definition phases_run :: "event list" where
  "phases_run = map Callback team_run @ [Access 0 64 WRITE] @
     map Callback [Barrier_begin 0, Barrier_begin 1, Barrier_end 0, Barrier_end 1] @ [Access 1 64 WRITE]"

definition missed_race_run :: "event list" where
  "missed_race_run = map Callback team_run @
     [Callback (Taskgroup_begin 0), Callback (Task_alloc 0 7 False), Callback (Task_begin 1 7),
      Callback (Task_alloc 1 8 False), Callback (Task_begin 1 8),
      Access 0 64 READ, Access 1 64 READ, Callback (Task_end 1), Callback (Task_end 1),
      Access 1 64 READ, Callback (Taskgroup_end 0), Access 0 64 WRITE]"

text \<open>Two accesses whose steps split at a known place are in order when the first is on the left.\<close>

lemma two_in_order:
  assumes steps: "\<forall>x \<in> set h. work_step s (by_step x)" and len: "length h = 2"
    and sp: "splits (m_tgraph_nodes s) (by_step (h ! 1)) (by_step (h ! 0)) d"
      "m_seqnum (branch (m_tgraph_nodes s) (by_step (h ! 0)) d) <
         m_seqnum (branch (m_tgraph_nodes s) (by_step (h ! 1)) d)"
  shows "in_order (before (m_tgraph_nodes s)) h"
proof -
  have n: "node_of (m_tgraph_nodes s) (m_last_allocated_node s) (by_step (h ! j))" if "j < length h" for j
    using bspec [OF steps nth_mem [OF that]] by (simp add: work_step_def is_node_node_of)
  from at_split(2) [OF n n sp(1)] sp(2) len
  have "\<not> before (m_tgraph_nodes s) (by_step (h ! 1)) (by_step (h ! 0))" by simp
  then show ?thesis using len by (auto simp: in_order_def numeral_2_eq_2 less_Suc_eq)
qed

end
