(* ===== verification/Fast_Run.thy ===== *)
theory Fast_Run
  imports Fast_Access Checked_Run
begin

text \<open>
  Runs of the instrumented program under the fast build: its access handler meets the contract
  of theory \<open>Checked_Run\<close> - a recorded race is a race of the history, and a run without a
  recorded race has its writes ordered -, it returns, and it misses some races of a read and a
  later write.
\<close>

section \<open>The checks of one access\<close>

lemma checks_found:
  assumes "checks a cur ty (w, r1, r2) s = Inr s'"
  shows "m_violations s' i = m_violations s i \<or> found s a cur ty w WRITE (m_violations s' i) \<or>
      ty = WRITE \<and> (\<exists>r \<in> {r1, r2}. found s a cur ty r READ (m_violations s' i))"
    and "m_violations_count s' = 0 \<Longrightarrow> m_violations_count s = 0 \<and> m_isparallel s cur w = Inr False"
proof -
  consider "check_race a cur ty w WRITE s = Inr s'" "\<not> ty" |
    u v where "check_race a cur ty w WRITE s = Inr u" "check_race a cur ty r1 READ u = Inr v"
      "check_race a cur ty r2 READ v = Inr s'" "ty"
    using assms by (cases ty) auto
  then have "(m_violations s' i = m_violations s i \<or> found s a cur ty w WRITE (m_violations s' i) \<or>
      ty = WRITE \<and> (\<exists>r \<in> {r1, r2}. found s a cur ty r READ (m_violations s' i))) \<and>
    (m_violations_count s' = 0 \<longrightarrow> m_violations_count s = 0 \<and> m_isparallel s cur w = Inr False)"
  proof cases
    case 1
    note c = check_race_found [OF 1(1)]
    show ?thesis using c(1) [of i] c(2) by auto
  next
    case 2
    have su: "only_races s u" and uv: "only_races u v" using check_race_Inr 2(1,2) by blast+
    note f = only_races_found [OF su] only_races_found [OF only_races_trans [OF su uv]]
    note c = check_race_found [OF 2(1)] check_race_found [OF 2(2)] check_race_found [OF 2(3)]
    show ?thesis using c(1,3,5) [of i] c(2,4,6) 2(4) unfolding f by auto
  qed
  then show "m_violations s' i = m_violations s i \<or> found s a cur ty w WRITE (m_violations s' i) \<or>
      ty = WRITE \<and> (\<exists>r \<in> {r1, r2}. found s a cur ty r READ (m_violations s' i))"
    and "m_violations_count s' = 0 \<Longrightarrow> m_violations_count s = 0 \<and> m_isparallel s cur w = Inr False"
    by blast+
qed

lemma checks_returns:
  assumes "\<And>p. p \<in> {w, r1, r2} \<Longrightarrow> \<exists>r. m_isparallel s cur p = Inr r" and "race_room 3 s"
  shows "\<exists>s'. checks a cur ty (w, r1, r2) s = Inr s' \<and> only_races s s'"
proof -
  have par: "\<exists>r. m_isparallel u cur p = Inr r" if "only_races s u" "p \<in> {w, r1, r2}" for u p
    using assms(1) that same_graph_verdicts(1) [OF only_races_same_graph] by metis
  have room: "race_room (Suc 2) s" using assms(2) by simp
  obtain u where u: "check_race a cur ty w WRITE s = Inr u" "race_room 2 u" "only_races s u"
    using check_race_returns [OF par [OF only_races_refl], of w 2] room by blast
  then have ru: "race_room (Suc 1) u" by (simp add: numeral_2_eq_2)
  obtain v where v: "check_race a cur ty r1 READ u = Inr v" "race_room 1 v" "only_races u v"
    using check_race_returns [OF par [OF u(3)], of r1 1] ru by blast
  note sv = only_races_trans [OF u(3) v(3)]
  obtain z where z: "check_race a cur ty r2 READ v = Inr z" "only_races v z"
    using check_race_returns [OF par [OF sv], of r2 0] v(2) unfolding One_nat_def by blast
  show ?thesis using u v z only_races_trans [OF sv z(2)] by (cases ty) auto
qed

lemma record_read_returns:
  assumes "\<And>p. p \<in> {read1, read2} \<Longrightarrow> p \<noteq> 0 \<Longrightarrow> work_step s p" and "work_step s cur"
    and "deps_recorded s"
  shows "\<exists>s'. record_read cur read1 read2 update s = Inr s'"
proof (cases "read1 = 0 \<or> read2 = 0")
  case True
  then show ?thesis by (auto simp: record_read_def)
next
  case False
  then have r: "work_step s read1" "work_step s read2" using assms(1) by auto
  obtain p1 p2 where "m_isparallel s cur read1 = Inr p1" "m_isparallel s cur read2 = Inr p2"
    using m_isparallel_returns [OF assms(3,2)] r by blast
  moreover obtain x y where "m_lca s read1 read2 = Inr x" "m_lca s read1 cur = Inr y"
    using m_lca_returns [OF r] m_lca_returns [OF r(1) assms(2)] by blast
  ultimately show ?thesis using False by (simp add: record_read_def)
qed

section \<open>The contract\<close>

text \<open>The steps in a metadata word with the kinds of their accesses, and the last writer.\<close>

definition word_steps :: "uint128_t \<Rightarrow> (nat \<times> bool) set" where
  "word_steps m = (case ids m of (w, r1, r2) \<Rightarrow>
     {(p, k). p \<noteq> 0 \<and> (p = w \<and> k = WRITE \<or> p \<in> {r1, r2} \<and> k = READ)})"

definition word_writer :: "uint128_t \<Rightarrow> nat" where
  "word_writer m = fst (ids m)"

lemma next_ids_steps:
  assumes "next_ids s cur ty (ids m) = Inr (ids m')" and "cur \<noteq> 0"
  shows "word_steps m' \<subseteq> insert (cur, ty) (word_steps m)"
    and "word_writer m' = (if ty = WRITE then cur else word_writer m)"
proof -
  obtain w r1 r2 where m: "ids m = (w, r1, r2)" by (cases "ids m") auto
  obtain w' r1' r2' where m': "ids m' = (w', r1', r2')" by (cases "ids m'") auto
  show "word_steps m' \<subseteq> insert (cur, ty) (word_steps m)"
    and "word_writer m' = (if ty = WRITE then cur else word_writer m)"
    using assms unfolding word_steps_def word_writer_def m m' by (auto split: if_splits)
qed

interpretation fast: access_checker Fast unset_word m_instrument_access word_steps word_writer
    "\<lambda>_. True" "setRead12Write 0 0 0 []"
proof unfold_locales
  have z: "ids unset_word = (0, 0, 0)"
    by (simp add: ids_def unset_word_def getWrite1_def getRead1_def getRead2_def)
  show "word_steps unset_word = {}" "word_writer unset_word = 0" True
    by (auto simp: word_steps_def word_writer_def z)
  show "word_steps (setRead12Write 0 0 0 [] m) \<subseteq> word_steps m" for m
    by (auto simp: word_steps_def ids_simps)
  show "(word_writer m, WRITE) \<in> word_steps m" if "word_writer m \<noteq> 0" for m
    using that by (auto simp: word_steps_def word_writer_def split: prod.splits)
  show "s' = s" if "\<not> omprace_in_parallel s" "m_instrument_access tid a ty s = Inr s'"
    for s s' :: "uint128_t monitor" and tid a ty
    using that by (simp add: m_instrument_access_def)
  fix tid a ty and s s' :: "uint128_t monitor"
  assume rdy: "access_ready unset_word word_steps (\<lambda>_. True) tid a s" and md: "mode s = Fast"
    and run: "m_instrument_access tid a ty s = Inr s'"
  let ?cur = "last (m_last_nodes s tid)" and ?m = "metadata_at unset_word a s"
  have wf: "wf_state s" "wf_tables s" "omprace_in_parallel s" using rdy by (simp_all add: access_ready_def)
  note m = m_instrument_access_ids [OF wf run]
  show "same_graph s s' \<and> wf_tables s' \<and> m_last_nodes s tid \<noteq> [] \<and> True" using m(1,3,4) by blast
  show "metadata_at unset_word b s' = metadata_at unset_word b s" if "slot b \<noteq> slot a" for b
    using m(6) [OF that] .
  have "?cur \<noteq> 0" using m(2) by (auto simp: is_node_def)
  then show "word_steps (metadata_at unset_word a s') \<subseteq> insert (?cur, ty) (word_steps ?m) \<and>
      word_writer (metadata_at unset_word a s') = (if ty = WRITE then ?cur else word_writer ?m)"
    using next_ids_steps [OF m(5)] by blast
  obtain w r1 r2 where ids: "ids ?m = (w, r1, r2)" by (cases "ids ?m") auto
  obtain t u v where u: "find_table unset_word (primary_index a) s = (t, u)"
    and v: "checks a ?cur ty (w, r1, r2) u = Inr v"
    and sv: "m_violations s' = m_violations v" "m_violations_count s' = m_violations_count v"
    using m(7) ids by auto
  note gu = find_table_graph [OF u]
  have cur: "work_step s ?cur" using m(2) wf(1) rdy by (simp add: work_step_def access_ready_def step_on_top_def)
  have f: "found u = found s"
    by (intro ext, unfold found_def same_graph_verdicts(1) [OF conjunct1 [OF gu]]) simp
  have nz: "p \<noteq> 0" if "found s a ?cur ty p k x" for p k x
    using that m_isparallel_self(1) [OF cur] by (cases "p = 0") (auto simp: found_def)
  show "m_violations s' i = m_violations s i \<or>
      (\<exists>(p, k) \<in> word_steps ?m. (ty \<or> k) \<and> found s a ?cur ty p k (m_violations s' i))" for i
  proof -
    have mem: "\<exists>(p, k) \<in> word_steps ?m. (ty \<or> k) \<and> found s a ?cur ty p k x"
      if "found s a ?cur ty p k x" "p = w \<and> k \<or> ty \<and> p \<in> {r1, r2} \<and> \<not> k" for p k x
      using nz [OF that(1)] that by (intro bexI [of _ "(p, k)"]) (auto simp: word_steps_def ids)
    show ?thesis
      using checks_found(1) [OF v, of i] sv gu mem [of w WRITE] mem [of r1 READ] mem [of r2 READ]
      unfolding f by (elim disjE; simp; blast)
  qed
  show "m_violations_count s = 0 \<and> (word_writer ?m \<noteq> 0 \<longrightarrow> m_isparallel s ?cur (word_writer ?m) = Inr False)"
    if "m_violations_count s' = 0"
    using checks_found(2) [OF v] that sv gu same_graph_verdicts(1) [OF conjunct1 [OF gu]]
    by (simp add: word_writer_def ids)
qed

text \<open>Runs of the fast build, with or without ranges of the shadow memory being cleared.\<close>

abbreviation fast_run :: "bool \<Rightarrow> bool \<Rightarrow> access list \<Rightarrow> uint128_t monitor \<Rightarrow> bool" where
  "fast_run clears \<equiv> checked_run Fast unset_word m_instrument_access
     (if clears then Some (setRead12Write 0 0 0 []) else None)"

lemma fast_clears [simp]: "(if clears then Some w else None) \<in> {None, Some w}"
  by simp

abbreviation fast_play :: "event list \<Rightarrow> (access list \<times> uint128_t monitor) option" where
  "fast_play \<equiv> played Fast unset_word m_instrument_access"

lemma played_run: "fast_play es = Some (h, s) \<Longrightarrow> fast_run clears free h s"
  by (rule played_checked_run)

lemmas metadata_eval = getWrite1_def getRead1_def getRead2_def setWrite1_def setRead1_def
  setRead2_def setRead12_def cas_def GETU32BIT_M_def GETL32BIT_M_def unset_word_def

lemmas verdict_eval = m_isparallel_def m_isparallel_fast_def walk_def climb.simps meet.simps
  m_are_dependent_def m_lca_def

lemmas fast_eval = play_eval m_instrument_access_def record_read_def metadata_eval verdict_eval

section \<open>Properties\<close>

text \<open>C15: Every race the fast build records in a run is a race: two accesses of the run to one
  4-byte word, with the recorded kinds and steps, one of them a write, whose steps may run in
  parallel.\<close>

theorem recorded_races_are_real:
  assumes "fast_run clears free h s" and "valid (m_violations s i)"
  shows "real_race h s (m_violations s i)"
  using fast.races_are_real [OF assms(1) fast_clears assms(2)] .

theorem recorded_races_are_real_witness:
  "\<exists>h s. fast_play race_run = Some (h, s) \<and> real_race h s (m_violations s 0)"
proof -
  obtain h s where "fast_play race_run = Some (h, s)" "valid (m_violations s 0)"
    by (simp add: race_run_def fast_eval cong: and_then_weak_cong)
  then show ?thesis using recorded_races_are_real [OF played_run] by blast
qed



text \<open>C17: The handler works on step ids: whatever table and packing it uses, in a run it leaves
  the word's last write and two reads as \<open>next_ids\<close> says and every other word alone.\<close>

theorem access_updates_one_word:
  assumes "fast_run clears free h s" and "omprace_in_parallel s"
    and "m_instrument_access tid a type s = Inr s'"
  shows "next_ids s (last (m_last_nodes s tid)) type (ids_at a s) = Inr (ids_at a s') \<and>
    (slot b = slot a \<or> ids_at b s' = ids_at b s)"
proof -
  have "wf_state s" "wf_tables s" using fast.checked_run_inv [OF assms(1) fast_clears, of False] by (simp_all add: fast.run_inv_def)
  note m = m_instrument_access_ids [OF this assms(2,3)]
  show ?thesis using m(5) m(6) [of b] by (cases "slot b = slot a") simp_all
qed

theorem access_updates_one_word_witness:
  "\<exists>h s s'. fast_play race_run = Some (h, s) \<and> m_instrument_access 0 128 WRITE s = Inr s' \<and>
     ids_at 64 s' = ids_at 64 s"
proof -
  obtain h s s' where r: "fast_play race_run = Some (h, s)" "m_instrument_access 0 128 WRITE s = Inr s'"
      "omprace_in_parallel s"
    by (simp add: race_run_def fast_eval cong: and_then_weak_cong)
  moreover have "slot 64 \<noteq> slot 128" by (simp add: slot_def index_numeral)
  ultimately show ?thesis
    using access_updates_one_word [OF played_run [OF r(1)] r(3,2), of 64] by auto
qed

text \<open>C18: The handler returns: with a step on the thread's stack, dependences recorded for every
  task that has an id, and room for three more races in the counter, no access of a run faults or
  loops.\<close>

theorem access_returns:
  assumes run: "fast_run clears free h s" and "step_on_top tid s" "tid < NUM_THREADS"
    and dr: "deps_recorded s" and room: "race_room 3 s"
  shows "\<exists>s'. m_instrument_access tid a type s = Inr s'"
proof (cases "omprace_in_parallel s")
  case True
  have i: "wf_state s" "mode s = Fast" "wf_tables s" "\<forall>x \<in> set h. work_step s (by_step x)"
      "\<And>p k. (p, k) \<in> word_steps (metadata_at unset_word a s) \<Longrightarrow> accessed a p k \<in> set h"
    using fast.checked_run_inv [OF run fast_clears, of False] by (auto simp: fast.run_inv_def)
  obtain w r1 r2 where ids: "ids_at a s = (w, r1, r2)" by (cases "ids_at a s") auto
  obtain t u where u: "find_table unset_word (primary_index a) s = (t, u)" by fastforce
  note gu = find_table_graph [OF u] and f = find_table_spec(4) [OF i(3) u]
  let ?cur = "last (m_last_nodes s tid)"
  have ne: "m_last_nodes s tid \<noteq> []" using assms(2) by (simp add: step_on_top_def)
  have cur: "work_step u ?cur"
    using assms(2) wf_stateD(3) [OF i(1), of tid] ne i(1)
    by (intro work_step_graph [OF conjunct1 [OF gu]])
      (auto simp: work_step_def step_on_top_def wf_stack_def)
  have st: "p = 0 \<or> work_step u p" if "p \<in> {w, r1, r2}" for p
  proof -
    have "p = 0 \<or> (\<exists>k. (p, k) \<in> word_steps (metadata_at unset_word a s))"
      using that by (auto simp: word_steps_def ids)
    then show ?thesis
      using i(4,5) work_step_graph [OF conjunct1 [OF gu], of p] by fastforce
  qed
  have m: "mode u = Fast" "deps_recorded u" "stack_back tid u = Inr ?cur" "race_room 3 u"
    using gu i(2) dr room ne assms(3)
    by (auto simp: same_graph_def deps_recorded_def stack_back_Inr race_room_def)
  obtain v where v: "checks a ?cur type (w, r1, r2) u = Inr v" "only_races u v"
    using checks_returns [OF m_isparallel_returns [OF m(2) cur st] m(4)] by blast
  note gv = only_races_same_graph [OF v(2)]
  have "mode v = Fast" "deps_recorded v" "work_step v ?cur"
      "p \<in> {r1, r2} \<Longrightarrow> p \<noteq> 0 \<Longrightarrow> work_step v p" for p
    using gv m(1,2) cur st work_step_graph [OF gv] by (auto simp: same_graph_def deps_recorded_def)
  then have "\<exists>s'. record_read ?cur r1 r2 update v = Inr s'" for update
    by (intro record_read_returns) auto
  then show ?thesis
    using True u v(1) f ids m(3)
    by (cases type) (auto simp: m_instrument_access_def Let_def ids_def)
qed (simp add: m_instrument_access_def)

theorem access_returns_witness:
  "\<exists>h s s'. fast_play race_run = Some (h, s) \<and> m_instrument_access 0 128 WRITE s = Inr s'"
proof -
  obtain h s where r: "fast_play race_run = Some (h, s)" "step_on_top 0 s" "race_room 3 s" "task_free s"
    by (simp add: race_run_def race_room_def fast_eval cong: and_then_weak_cong)
  then have "deps_recorded s" by (simp add: deps_recorded_def task_free_def)
  then show ?thesis
    using access_returns [OF played_run [OF r(1)] r(2) _ _ r(3), of 128 WRITE] r(1)
    by (auto simp: NUM_THREADS_def)
qed


end
