(* ===== verification/Precise_Access.thy ===== *)
theory Precise_Access
  imports Checked_Run "HOL-Library.AList"
begin

text \<open>
  The access check of the precise build (\<open>m_instrument_access\<close> with \<open>PRECISE_META\<close>). A word's
  metadata is a list of at most eight entries, each a last writer and two readers, and a hash
  table of further entries: one entry for the program and one for every ST-node above an
  access. The handler compares the access with every entry and updates the program's and those of
  the ST-nodes above the current step, under the lock of the metadata.

  Where the code takes the elements of a hash table one by one their order is whatever the
  table gives; here it is the order of a rank that a parameter \<open>rank\<close> assigns to the keys, which
  may depend on the whole table.
\<close>

section \<open>Metadata\<close>

record MetadataEntry =
  entry_id :: nat
  write1 :: nat
  read1 :: nat
  read2 :: nat

record Metadata =
  entry_count :: nat
  entries :: "nat \<Rightarrow> MetadataEntry"
  entry_map :: "(nat \<times> MetadataEntry) list option"

definition NUM_META_ENTRIES :: nat where
  "NUM_META_ENTRIES = 8"

definition ROOT_INDEX :: nat where
  "ROOT_INDEX = 1"

definition unset_entry :: MetadataEntry where
  "unset_entry = \<lparr>entry_id = 0, write1 = 0, read1 = 0, read2 = 0\<rparr>"

definition unset_metadata :: Metadata where
  "unset_metadata = \<lparr>entry_count = 0, entries = (\<lambda>_. unset_entry), entry_map = None\<rparr>"

type_synonym ranking = "nat list \<Rightarrow> nat \<Rightarrow> nat"

definition in_table_order :: "ranking \<Rightarrow> nat list \<Rightarrow> nat list" where
  "in_table_order rank ks = sort_key (rank ks) ks"

definition table_begin :: "ranking \<Rightarrow> nat list \<Rightarrow> nat" where
  "table_begin rank ks = hd (in_table_order rank ks)"

lemma set_in_table_order [simp]: "set (in_table_order rank ks) = set ks"
  by (simp add: in_table_order_def)

lemma table_begin_in: "ks \<noteq> [] \<Longrightarrow> table_begin rank ks \<in> set ks"
  unfolding table_begin_def by (metis list.set_sel(1) set_empty set_in_table_order)

section \<open>Comparing\<close>

definition check_recorded ::
  "64 word \<Rightarrow> nat \<Rightarrow> bool \<Rightarrow> nat \<Rightarrow> bool \<Rightarrow> 'a detector_scheme \<Rightarrow> 'a detector_scheme result" where
  "check_recorded a cur_w_node type prev prev_type s =
     (if prev \<noteq> 0 then check_race a cur_w_node type prev prev_type s else Inr s)"

definition check_entry ::
  "64 word \<Rightarrow> nat \<Rightarrow> bool \<Rightarrow> MetadataEntry \<Rightarrow> 'a detector_scheme \<Rightarrow> 'a detector_scheme result" where
  "check_entry a cur_w_node type e s =
     and_then (check_recorded a cur_w_node type (write1 e) WRITE s) (\<lambda>s.
       if type = WRITE
       then block [check_recorded a cur_w_node WRITE (read1 e) READ,
                   check_recorded a cur_w_node WRITE (read2 e) READ] s
       else Inr s)"

text \<open>The first level by index, then the second level in table order.\<close>

definition all_entries :: "ranking \<Rightarrow> Metadata \<Rightarrow> MetadataEntry list" where
  "all_entries rank meta =
     map (entries meta) [0..<entry_count meta] @
     (case entry_map meta of None \<Rightarrow> []
      | Some m \<Rightarrow> map (\<lambda>k. the (map_of m k)) (in_table_order rank (map fst m)))"

definition check_entries ::
  "ranking \<Rightarrow> 64 word \<Rightarrow> nat \<Rightarrow> bool \<Rightarrow> Metadata \<Rightarrow> 'a detector_scheme \<Rightarrow> 'a detector_scheme result"
  where
  "check_entries rank a cur_w_node type meta =
     block (map (check_entry a cur_w_node type) (all_entries rank meta))"

section \<open>Updating\<close>

text \<open>The ST-nodes on the path from the parent of the current step to the root.\<close>

partial_function (option) find_st_nodes :: "(nat \<Rightarrow> Node) \<Rightarrow> nat \<Rightarrow> nat list \<Rightarrow> nat list option" where
  "find_st_nodes g parent_index st_nodes =
     (if parent_index \<noteq> ROOT_INDEX
      then find_st_nodes g (m_parent (g parent_index))
             (if m_finish_flag (g parent_index) then List.insert parent_index st_nodes else st_nodes)
      else Some st_nodes)"

text \<open>One entry. A read goes on to the comparisons after it has taken a free place.\<close>

definition update_entry ::
  "'a detector_scheme \<Rightarrow> nat \<Rightarrow> bool \<Rightarrow> MetadataEntry \<Rightarrow> MetadataEntry result" where
  "update_entry s cur_w_node type e =
     (if type = WRITE then Inr (e\<lparr>write1 := cur_w_node\<rparr>)
      else
        let e = (if read1 e = 0 then e\<lparr>read1 := cur_w_node\<rparr>
                 else if read2 e = 0 then e\<lparr>read2 := cur_w_node\<rparr> else e)
        in and_then (m_isparallel s cur_w_node (read1 e)) (\<lambda>cur_r1.
           and_then (m_isparallel s cur_w_node (read2 e)) (\<lambda>cur_r2.
             if \<not> cur_r1 \<and> \<not> cur_r2 then Inr (e\<lparr>read1 := cur_w_node, read2 := 0\<rparr>)
             else if cur_r1 \<and> cur_r2
             then and_then (m_lca s (read1 e) (read2 e)) (\<lambda>lca12.
                  and_then (m_lca s (read1 e) cur_w_node) (\<lambda>lca1s.
                    if m_depth (m_tgraph_nodes s lca1s) < m_depth (m_tgraph_nodes s lca12)
                    then Inr (e\<lparr>read1 := cur_w_node\<rparr>) else Inr e))
             else Inr e)))"

text \<open>The entries in use, each of which takes its ST-node off the list.\<close>

fun update_known ::
  "'a detector_scheme \<Rightarrow> nat \<Rightarrow> bool \<Rightarrow> nat list \<Rightarrow> Metadata \<Rightarrow> nat list \<Rightarrow> (Metadata \<times> nat list) result"
  where
  "update_known s cur_w_node type [] meta st_nodes = Inr (meta, st_nodes)"
| "update_known s cur_w_node type (i # is) meta st_nodes =
     and_then (update_entry s cur_w_node type (entries meta i)) (\<lambda>e.
       update_known s cur_w_node type is (meta\<lparr>entries := (entries meta)(i := e)\<rparr>)
         (removeAll (entry_id e) st_nodes))"

text \<open>The free places of the first level. An entry found in the second level moves up with its
  id; otherwise the id of the place stays what it is.\<close>

definition promote :: "nat \<Rightarrow> nat \<Rightarrow> Metadata \<Rightarrow> Metadata" where
  "promote i new_entry_index meta =
     (case entry_map meta of None \<Rightarrow> meta
      | Some m \<Rightarrow>
          (case map_of m new_entry_index of None \<Rightarrow> meta
           | Some e \<Rightarrow>
               meta\<lparr>entries := (entries meta)(i := \<lparr>entry_id = new_entry_index, write1 = write1 e,
                      read1 = read1 e, read2 = read2 e\<rparr>),
                    entry_map := Some (AList.delete new_entry_index m)\<rparr>))"

fun fill_first_level ::
  "ranking \<Rightarrow> 'a detector_scheme \<Rightarrow> nat \<Rightarrow> bool \<Rightarrow> nat \<Rightarrow> nat list \<Rightarrow> Metadata \<Rightarrow> nat list \<Rightarrow>
     (Metadata \<times> nat list) result" where
  "fill_first_level rank s cur_w_node type remaining_entries [] meta st_nodes = Inr (meta, st_nodes)"
| "fill_first_level rank s cur_w_node type remaining_entries (i # is) meta st_nodes =
     (if remaining_entries = 0 then Inr (meta, st_nodes)
      else
        let new_entry_index = table_begin rank st_nodes; meta = promote i new_entry_index meta
        in and_then (update_entry s cur_w_node type (entries meta i)) (\<lambda>e.
             fill_first_level rank s cur_w_node type (remaining_entries - 1) is
               (meta\<lparr>entries := (entries meta)(i := e), entry_count := entry_count meta + 1\<rparr>)
               (removeAll new_entry_index st_nodes)))"

text \<open>The ST-nodes for which the first level has no place.\<close>

function fill_second_level ::
  "ranking \<Rightarrow> 'a detector_scheme \<Rightarrow> nat \<Rightarrow> bool \<Rightarrow> (nat \<times> MetadataEntry) list \<Rightarrow> nat list \<Rightarrow>
     (nat \<times> MetadataEntry) list result" where
  "fill_second_level rank s cur_w_node type m st_nodes =
     (if st_nodes = [] then Inr m
      else
        let new_entry_index = table_begin rank st_nodes;
            m = (if map_of m new_entry_index = None
                 then AList.update new_entry_index (unset_entry\<lparr>entry_id := new_entry_index\<rparr>) m else m)
        in and_then (update_entry s cur_w_node type (the (map_of m new_entry_index))) (\<lambda>e.
             fill_second_level rank s cur_w_node type (AList.update new_entry_index e m)
               (removeAll new_entry_index st_nodes)))"
  by pat_completeness auto
termination
  by (relation "measure (\<lambda>(rank, s, cur, ty, m, st). length st)")
    (auto intro!: length_removeAll_less table_begin_in)

declare fill_second_level.simps [simp del]

section \<open>The handler\<close>

definition update_metadata ::
  "ranking \<Rightarrow> 'a detector_scheme \<Rightarrow> nat \<Rightarrow> bool \<Rightarrow> Metadata \<Rightarrow> Metadata result" where
  "update_metadata rank s cur_w_node type meta =
     (let meta = (if entry_count meta = 0 then meta\<lparr>entry_count := entry_count meta + 1\<rparr> else meta);
          parent_index = m_parent (m_tgraph_nodes s cur_w_node)
      in and_then (returned (find_st_nodes (m_tgraph_nodes s) parent_index [])) (\<lambda>st_nodes.
         and_then (update_known s cur_w_node type [0..<entry_count meta] meta st_nodes)
           (\<lambda>(meta, st_nodes).
         and_then (if st_nodes \<noteq> [] \<and> NUM_META_ENTRIES - entry_count meta > 0
                   then fill_first_level rank s cur_w_node type (length st_nodes)
                          [entry_count meta..<NUM_META_ENTRIES] meta st_nodes
                   else Inr (meta, st_nodes))
           (\<lambda>(meta, st_nodes).
              if st_nodes = [] then Inr meta
              else if entry_count meta \<noteq> NUM_META_ENTRIES then Inl Assertion_failed
              else and_then (fill_second_level rank s cur_w_node type
                       (case entry_map meta of None \<Rightarrow> [] | Some m \<Rightarrow> m) st_nodes)
                     (\<lambda>m. Inr (meta\<lparr>entry_map := Some m\<rparr>))))))"

definition m_instrument_access_precise ::
  "ranking \<Rightarrow> nat \<Rightarrow> 64 word \<Rightarrow> bool \<Rightarrow> (Metadata, 'a) monitor_scheme \<Rightarrow>
     (Metadata, 'a) monitor_scheme result" where
  "m_instrument_access_precise rank tid a type s =
     (if \<not> omprace_in_parallel s then Inr s
      else
        let (table, s) = find_table unset_metadata (primary_index a) s
        in and_then (stack_back tid s) (\<lambda>cur_w_node.
           let meta = get_metadata table (offset a) s in
           and_then (check_entries rank a cur_w_node type meta s) (\<lambda>s.
           and_then (update_metadata rank s cur_w_node type meta) (\<lambda>meta.
             Inr (put_metadata table (offset a) meta s)))))"

text \<open>Clearing a range leaves the entries as they are in this build.\<close>

definition clear_metadata_precise ::
  "64 word \<Rightarrow> 64 word \<Rightarrow> (Metadata, 'a) monitor_scheme \<Rightarrow> (Metadata, 'a) monitor_scheme option" where
  "clear_metadata_precise = clear_metadata (\<lambda>meta. meta)"

section \<open>What the handler compares\<close>

text \<open>The recorded accesses of an entry and of a word, and those an access is compared with.\<close>

definition entry_steps :: "MetadataEntry \<Rightarrow> (nat \<times> bool) set" where
  "entry_steps e =
     {(p, k). p \<noteq> 0 \<and> (p = write1 e \<and> k = WRITE \<or> p \<in> {read1 e, read2 e} \<and> k = READ)}"

definition map_steps :: "(nat \<times> MetadataEntry) list option \<Rightarrow> (nat \<times> bool) set" where
  "map_steps m = (case m of None \<Rightarrow> {} | Some m \<Rightarrow> \<Union> (entry_steps ` snd ` set m))"

definition meta_steps :: "Metadata \<Rightarrow> (nat \<times> bool) set" where
  "meta_steps meta = (\<Union>i. entry_steps (entries meta i)) \<union> map_steps (entry_map meta)"

definition conflicting :: "bool \<Rightarrow> (nat \<times> bool) set \<Rightarrow> (nat \<times> bool) set" where
  "conflicting ty ps = {(p, k) \<in> ps. ty \<or> k}"

lemma check_recorded_compared:
  assumes "check_recorded a cur ty p k s = Inr s'"
  shows "compared a cur ty (if p = 0 then {} else {(p, k)}) s s'"
  using assms check_race_compared [of a cur ty p k s s'] by (auto simp: check_recorded_def compared_refl split: if_splits)

lemma check_entry_compared:
  assumes "check_entry a cur ty e s = Inr s'"
  shows "compared a cur ty (conflicting ty (entry_steps e)) s s'"
proof -
  let ?c = "\<lambda>p k. if p = 0 then {} else {(p, k)}"
  obtain u where u: "check_recorded a cur ty (write1 e) WRITE s = Inr u"
    and r: "if ty then block [check_recorded a cur WRITE (read1 e) READ,
              check_recorded a cur WRITE (read2 e) READ] u = Inr s' else s' = u"
    using assms by (auto simp: check_entry_def split: if_splits)
  note w = check_recorded_compared [OF u]
  show ?thesis
  proof (cases ty)
    case False
    have "conflicting ty (entry_steps e) = ?c (write1 e) WRITE"
      using False by (auto simp: conflicting_def entry_steps_def)
    then show ?thesis using w r False by simp
  next
    case True
    then obtain v where v: "check_recorded a cur ty (read1 e) READ u = Inr v"
        "check_recorded a cur ty (read2 e) READ v = Inr s'"
      using r by auto
    have "conflicting ty (entry_steps e) =
        (?c (write1 e) WRITE \<union> ?c (read1 e) READ) \<union> ?c (read2 e) READ"
      using True by (auto simp: conflicting_def entry_steps_def split: if_splits)
    then show ?thesis
      using compared_trans [OF compared_trans [OF w check_recorded_compared [OF v(1)]]
          check_recorded_compared [OF v(2)]] by simp
  qed
qed

lemma conflicting_Un: "conflicting ty (ps \<union> qs) = conflicting ty ps \<union> conflicting ty qs"
  by (auto simp: conflicting_def)

lemma check_list_compared:
  "block (map (check_entry a cur ty) es) s = Inr s' \<Longrightarrow>
     compared a cur ty (conflicting ty (\<Union> (entry_steps ` set es))) s s'"
proof (induction es arbitrary: s)
  case Nil
  then show ?case by (simp add: compared_refl conflicting_def)
next
  case (Cons e es)
  then obtain u where "check_entry a cur ty e s = Inr u" "block (map (check_entry a cur ty) es) u = Inr s'"
    by auto
  then show ?case
    using compared_trans [OF check_entry_compared Cons.IH] by (simp add: conflicting_Un)
qed

lemma all_entries_steps: "\<Union> (entry_steps ` set (all_entries rank meta)) \<subseteq> meta_steps meta"
proof -
  have "entry_steps (the (map_of m k)) \<subseteq> map_steps (Some m)" if "k \<in> set (map fst m)" for m k
  proof -
    have "map_of m k \<noteq> None" using that by (simp add: map_of_eq_None_iff)
    then obtain e where e: "map_of m k = Some e" by blast
    then show ?thesis using map_of_SomeD [OF e] by (force simp: map_steps_def)
  qed
  then show ?thesis
    by (fastforce simp: all_entries_def meta_steps_def split: option.splits)
qed

section \<open>What the handler records\<close>

lemma update_entry_steps:
  assumes "update_entry s cur ty e = Inr e'" and "cur \<noteq> 0"
  shows "entry_id e' = entry_id e" "write1 e' = (if ty then cur else write1 e)"
    "entry_steps e' \<subseteq> insert (cur, ty) (entry_steps e)"
  using assms by (cases e; auto simp: update_entry_def entry_steps_def Let_def split: if_splits)+

lemma update_known_steps:
  assumes "update_known s cur ty is meta st = Inr (meta', st')" and "cur \<noteq> 0"
  shows "entry_count meta' = entry_count meta \<and> entry_map meta' = entry_map meta \<and>
    write1 (entries meta' j) = (if ty \<and> j \<in> set is then cur else write1 (entries meta j)) \<and>
    meta_steps meta' \<subseteq> insert (cur, ty) (meta_steps meta) \<and>
    (distinct st \<longrightarrow> distinct st') \<and> set st' \<subseteq> set st"
  using assms
proof (induction s cur ty "is" meta st rule: update_known.induct)
  case (2 s cur ty i "is" meta st)
  then obtain e where e: "update_entry s cur ty (entries meta i) = Inr e"
    and r: "update_known s cur ty is (meta\<lparr>entries := (entries meta)(i := e)\<rparr>)
      (removeAll (entry_id e) st) = Inr (meta', st')"
    by auto
  note u = update_entry_steps [OF e 2(3)]
  have "meta_steps (meta\<lparr>entries := (entries meta)(i := e)\<rparr>) \<subseteq> insert (cur, ty) (meta_steps meta)"
    using u(3) by (fastforce simp: meta_steps_def split: if_splits)
  then show ?case using 2(1) [OF e r 2(3)] u(2) by (auto simp: distinct_removeAll)
qed auto

lemma promote_steps:
  "entry_count (promote i k meta) = entry_count meta" "meta_steps (promote i k meta) \<subseteq> meta_steps meta"
  "j \<noteq> i \<Longrightarrow> entries (promote i k meta) j = entries meta j"
proof -
  show "entry_count (promote i k meta) = entry_count meta"
    "j \<noteq> i \<Longrightarrow> entries (promote i k meta) j = entries meta j"
    by (simp_all add: promote_def split: option.splits)
  have "entry_steps \<lparr>entry_id = k, write1 = write1 e, read1 = read1 e, read2 = read2 e\<rparr> = entry_steps e" for e
    by (simp add: entry_steps_def)
  moreover have "entry_steps e \<subseteq> map_steps (Some m)" if "map_of m k = Some e" for m e
    using map_of_SomeD [OF that] by (force simp: map_steps_def)
  moreover have "map_steps (Some (AList.delete k m)) \<subseteq> map_steps (Some m)" for m
    by (auto simp: map_steps_def AList.delete_eq)
  ultimately show "meta_steps (promote i k meta) \<subseteq> meta_steps meta"
    by (fastforce simp: promote_def meta_steps_def split: option.splits if_splits)
qed

end
