(* ===== verification/Precise_Run.thy ===== *)
theory Precise_Run
  imports Precise_Access
begin

text \<open>
  Runs of the instrumented program under the precise build: its access handler meets the
  contract of theory \<open>Checked_Run\<close> for every order of the hash tables, it returns, and its
  first-level entries lose their ids.
\<close>

section \<open>The two levels\<close>

lemma fill_first_level_steps:
  assumes "fill_first_level rank s cur ty n is meta st = Inr (meta', st')" and "cur \<noteq> 0"
    and "is = [entry_count meta..<NUM_META_ENTRIES]" "entry_count meta \<le> NUM_META_ENTRIES"
    and "distinct st" "n = length st"
  shows "entry_count meta \<le> entry_count meta' \<and> entry_count meta' \<le> NUM_META_ENTRIES \<and>
    (st' = [] \<or> entry_count meta' = NUM_META_ENTRIES) \<and>
    meta_steps meta' \<subseteq> insert (cur, ty) (meta_steps meta) \<and>
    (\<forall>j < entry_count meta. entries meta' j = entries meta j)"
  using assms
proof (induction rank s cur ty n "is" meta st rule: fill_first_level.induct)
  case (1 rank s cur ty n meta st)
  have "entry_count meta = NUM_META_ENTRIES"
    using 1(3,4) upt_conv_Cons [of "entry_count meta" NUM_META_ENTRIES]
    by (cases "entry_count meta < NUM_META_ENTRIES") auto
  then show ?case using 1 by auto
next
  case (2 rank s cur ty n i "is" meta st)
  have i: "i = entry_count meta" "i < NUM_META_ENTRIES" "is = [Suc i..<NUM_META_ENTRIES]"
    using 2(4) upt_conv_Cons [of "entry_count meta" NUM_META_ENTRIES]
    by (cases "entry_count meta < NUM_META_ENTRIES"; simp)+
  show ?case
  proof (cases "n = 0")
    case True
    then show ?thesis using 2(2,5,7) by auto
  next
    case False
    let ?k = "table_begin rank st" and ?p = "promote i (table_begin rank st) meta"
    obtain e where e: "update_entry s cur ty (entries ?p i) = Inr e"
      and r: "fill_first_level rank s cur ty (n - 1) is
        (?p\<lparr>entries := (entries ?p)(i := e), entry_count := entry_count ?p + 1\<rparr>)
        (removeAll ?k st) = Inr (meta', st')"
      using 2(2) False by (auto simp: Let_def)
    let ?m = "?p\<lparr>entries := (entries ?p)(i := e), entry_count := entry_count ?p + 1\<rparr>"
    note p = promote_steps [where i = i and k = ?k and meta = meta]
    have "meta_steps ?m \<subseteq> insert (cur, ty) (meta_steps ?p)"
      using update_entry_steps(3) [OF e 2(3)] by (fastforce simp: meta_steps_def split: if_splits)
    moreover have "?k \<in> set st" using table_begin_in [of st] False 2(7) by auto
    then have "length (removeAll ?k st) = n - 1"
      using 2(6,7) by (simp add: distinct_remove1_removeAll [symmetric] length_remove1)
    ultimately show ?thesis
      using 2(1) [OF False refl refl e r 2(3)] i p 2(6) by (fastforce simp: distinct_removeAll)
  qed
qed

lemma set_AList_update: "set (AList.update k v m) \<subseteq> insert (k, v) (set m)"
  by (induction m) auto

text \<open>The place of an ST-node in the second level, found or made.\<close>

lemma second_level_place:
  fixes m k
  defines "n \<equiv> if map_of m k = None then AList.update k (unset_entry\<lparr>entry_id := k\<rparr>) m else m"
  shows "map_steps (Some n) \<subseteq> map_steps (Some m)" "entry_steps (the (map_of n k)) \<subseteq> map_steps (Some n)"
proof -
  have "entry_steps (unset_entry\<lparr>entry_id := k\<rparr>) = {}" by (auto simp: entry_steps_def unset_entry_def)
  then show "map_steps (Some n) \<subseteq> map_steps (Some m)"
    using set_AList_update [of k "unset_entry\<lparr>entry_id := k\<rparr>" m]
    by (cases "map_of m k = None") (fastforce simp: n_def map_steps_def)+
  have "map_of n k \<noteq> None" by (simp add: n_def update_conv)
  then obtain d where d: "map_of n k = Some d" by blast
  then show "entry_steps (the (map_of n k)) \<subseteq> map_steps (Some n)"
    using map_of_SomeD [OF d] by (force simp: map_steps_def)
qed

lemma fill_second_level_steps:
  "fill_second_level rank s cur ty m st = Inr m' \<Longrightarrow> cur \<noteq> 0 \<Longrightarrow>
     map_steps (Some m') \<subseteq> insert (cur, ty) (map_steps (Some m))"
proof (induction rank s cur ty m st arbitrary: m' rule: fill_second_level.induct)
  case (1 rank s cur ty m st)
  show ?case
  proof (cases "st = []")
    case True
    then show ?thesis using 1(2) by (subst (asm) fill_second_level.simps) auto
  next
    case False
    let ?k = "table_begin rank st"
    let ?n = "if map_of m ?k = None then AList.update ?k (unset_entry\<lparr>entry_id := ?k\<rparr>) m else m"
    obtain e where e: "update_entry s cur ty (the (map_of ?n ?k)) = Inr e"
      and r: "fill_second_level rank s cur ty (AList.update ?k e ?n) (removeAll ?k st) = Inr m'"
      using 1(2) False by (subst (asm) fill_second_level.simps) (auto simp: Let_def)
    note n = second_level_place [of m ?k]
    have "entry_steps e \<subseteq> insert (cur, ty) (map_steps (Some ?n))"
      using update_entry_steps(3) [OF e 1(3)] n(2) by blast
    then have "map_steps (Some (AList.update ?k e ?n)) \<subseteq> insert (cur, ty) (map_steps (Some ?n))"
      using set_AList_update [of ?k e ?n] by (fastforce simp: map_steps_def)
    then show ?thesis using 1(1) [OF False refl refl e r 1(3)] n by blast
  qed
qed

section \<open>The whole update\<close>

text \<open>The entry of the program is in use before anything is recorded.\<close>

definition good_metadata :: "Metadata \<Rightarrow> bool" where
  "good_metadata meta \<longleftrightarrow> entry_count meta \<le> NUM_META_ENTRIES \<and>
     (entry_count meta = 0 \<longrightarrow> write1 (entries meta 0) = 0)"

definition program_writer :: "Metadata \<Rightarrow> nat" where
  "program_writer meta = write1 (entries meta 0)"

lemma find_st_nodes_returns:
  assumes "node_of g n p"
  shows "\<exists>st'. find_st_nodes g p st = Some st' \<and> (distinct st \<longrightarrow> distinct st')"
  using assms
proof (induction "m_depth (g p)" arbitrary: p st)
  case 0
  then have "p = 1" using depth_0_iff by simp
  then show ?case by (subst find_st_nodes.simps) (simp add: ROOT_INDEX_def)
next
  case (Suc e)
  note q = depth_par [OF Suc(3) Suc(2) [symmetric]]
  have "p \<noteq> ROOT_INDEX" using Suc(2) depth_0_iff [OF Suc(3)] by (auto simp: ROOT_INDEX_def)
  then show ?case
    using Suc(1) [of "par g p" "if m_finish_flag (g p) then List.insert p st else st"] q
    by (subst find_st_nodes.simps) (auto split: if_splits)
qed

lemma step_parent: "work_step s cur \<Longrightarrow>
    node_of (m_tgraph_nodes s) (m_last_allocated_node s) (m_parent (m_tgraph_nodes s cur))"
proof -
  assume "work_step s cur"
  then have n: "node_of (m_tgraph_nodes s) (m_last_allocated_node s) cur" "type_of s cur = WORK"
    by (simp_all add: work_step_def is_node_node_of)
  have "cur \<noteq> 1" using n wf_graphD(2) [OF node_ofD(1) [OF n(1)]] by (auto simp: wf_root_def)
  then obtain e where "m_depth (m_tgraph_nodes s cur) = Suc e"
    using depth_0_iff [OF n(1)] by (cases "m_depth (m_tgraph_nodes s cur)") auto
  then show ?thesis using depth_par [OF n(1)] by simp
qed

lemma update_metadata_steps:
  assumes run: "update_metadata rank s cur ty meta = Inr meta'" and "work_step s cur"
    and good: "good_metadata meta"
  shows "good_metadata meta'" "meta_steps meta' \<subseteq> insert (cur, ty) (meta_steps meta)"
    "program_writer meta' = (if ty then cur else program_writer meta)"
proof -
  have cur: "cur \<noteq> 0" using assms(2) by (auto simp: work_step_def is_node_def)
  let ?m0 = "if entry_count meta = 0 then meta\<lparr>entry_count := entry_count meta + 1\<rparr> else meta"
  obtain st where st: "find_st_nodes (m_tgraph_nodes s) (m_parent (m_tgraph_nodes s cur)) [] = Some st"
    "distinct st" using find_st_nodes_returns [OF step_parent [OF assms(2)], of "[]"] by auto
  obtain m1 st1 where m1: "update_known s cur ty [0..<entry_count ?m0] ?m0 st = Inr (m1, st1)"
    using run st(1) by (auto simp: update_metadata_def Let_def)
  obtain m2 st2 where m2: "(if st1 \<noteq> [] \<and> NUM_META_ENTRIES - entry_count m1 > 0
      then fill_first_level rank s cur ty (length st1) [entry_count m1..<NUM_META_ENTRIES] m1 st1
      else Inr (m1, st1)) = Inr (m2, st2)"
    and r: "(if st2 = [] then Inr m2
      else if entry_count m2 \<noteq> NUM_META_ENTRIES then Inl Assertion_failed
      else and_then (fill_second_level rank s cur ty
               (case entry_map m2 of None \<Rightarrow> [] | Some m \<Rightarrow> m) st2)
             (\<lambda>m. Inr (m2\<lparr>entry_map := Some m\<rparr>))) = Inr meta'"
    using run st(1) m1 by (fastforce simp: update_metadata_def Let_def)
  have c0: "0 < entry_count ?m0" "entry_count ?m0 \<le> NUM_META_ENTRIES" "meta_steps ?m0 = meta_steps meta"
      "write1 (entries ?m0 0) = program_writer meta"
    using good by (auto simp: good_metadata_def meta_steps_def program_writer_def NUM_META_ENTRIES_def)
  note k = update_known_steps [OF m1 cur, of 0]
  have c1: "0 < entry_count m1" "entry_count m1 \<le> NUM_META_ENTRIES" "distinct st1"
      "write1 (entries m1 0) = (if ty then cur else program_writer meta)"
      "meta_steps m1 \<subseteq> insert (cur, ty) (meta_steps meta)"
    using k c0 st(2) by auto
  have c2: "0 < entry_count m2" "entry_count m2 \<le> NUM_META_ENTRIES" "entries m2 0 = entries m1 0"
      "meta_steps m2 \<subseteq> insert (cur, ty) (meta_steps m1)"
    using m2 c1 fill_first_level_steps [of rank s cur ty "length st1" _ m1 st1 m2 st2, OF _ cur]
    by (auto split: if_splits)
  have "entry_count meta' = entry_count m2 \<and> entries meta' = entries m2 \<and>
      meta_steps meta' \<subseteq> insert (cur, ty) (meta_steps m2)"
  proof (cases "st2 = []")
    case False
    then obtain m where "fill_second_level rank s cur ty
        (case entry_map m2 of None \<Rightarrow> [] | Some m \<Rightarrow> m) st2 = Inr m" and e: "meta' = m2\<lparr>entry_map := Some m\<rparr>"
      using r by (auto split: if_splits)
    moreover have "map_steps (Some (case entry_map m2 of None \<Rightarrow> [] | Some m \<Rightarrow> m)) = map_steps (entry_map m2)"
      by (simp add: map_steps_def split: option.split)
    ultimately have "map_steps (Some m) \<subseteq> insert (cur, ty) (map_steps (entry_map m2))"
      using fill_second_level_steps [OF _ cur] by metis
    then show ?thesis using e by (auto simp: meta_steps_def)
  qed (use r in auto)
  then show "good_metadata meta'" "meta_steps meta' \<subseteq> insert (cur, ty) (meta_steps meta)"
    "program_writer meta' = (if ty then cur else program_writer meta)"
    using c1 c2 by (auto simp: good_metadata_def program_writer_def)
qed

text \<open>The update looks at the graph only.\<close>

lemma update_metadata_cong:
  assumes "same_graph s s'"
  shows "update_metadata rank s' = update_metadata rank s"
proof -
  have g: "m_tgraph_nodes s' = m_tgraph_nodes s" using assms by (simp add: same_graph_def)
  have e: "update_entry s' = update_entry s"
    by (intro ext, unfold update_entry_def same_graph_verdicts [OF assms] g) simp
  have k: "update_known s' cur ty is meta st = update_known s cur ty is meta st" for cur ty "is" meta st
    by (induction "is" arbitrary: meta st) (simp_all add: e)
  have f: "fill_first_level rank s' cur ty n is meta st = fill_first_level rank s cur ty n is meta st"
    for cur ty n "is" meta st
    by (induction "is" arbitrary: n meta st) (simp_all add: e Let_def)
  have m: "s1 = s' \<Longrightarrow> fill_second_level rank s1 cur ty m st = fill_second_level rank s cur ty m st"
    for s1 cur ty m st
  proof (induction rank s1 cur ty m st rule: fill_second_level.induct)
    case (1 rank s1 cur ty m st)
    then show ?case
      by (subst (1 2) fill_second_level.simps) (auto simp: e Let_def intro!: and_then_cong)
  qed
  show ?thesis by (intro ext, unfold update_metadata_def g k f m [OF refl]) simp
qed

section \<open>The contract\<close>

text \<open>The handler by its parts, in a state where it may be called.\<close>

lemma m_instrument_access_precise_parts:
  fixes s :: "(Metadata, 'a) monitor_scheme"
  assumes wf: "wf_state s" "wf_tables s" and top: "step_on_top tid s" and par: "omprace_in_parallel s"
    and run: "m_instrument_access_precise rank tid a type s = Inr s'"
  defines "cur \<equiv> last (m_last_nodes s tid)" and "meta \<equiv> metadata_at unset_metadata a s"
  obtains u v :: "(Metadata, 'a) monitor_scheme" and meta' where "work_step s cur" "same_graph s u" "m_violations u = m_violations s"
    "m_violations_count u = m_violations_count s"
    "compared a cur type (conflicting type (\<Union> (entry_steps ` set (all_entries rank meta)))) u v"
    "update_metadata rank s cur type meta = Inr meta'" "same_graph s s'" "wf_tables s'"
    "m_violations s' = m_violations v" "m_violations_count s' = m_violations_count v"
    "\<And>b. metadata_at unset_metadata b s' =
      (if slot b = slot a then meta' else metadata_at unset_metadata b s)"
proof -
  obtain t u where u: "find_table unset_metadata (primary_index a) s = (t, u)" by fastforce
  note f = find_table_spec [OF wf(2) u] and gu = find_table_graph [OF u]
  have cur: "work_step s cur"
    using top wf_stateD(3) [OF wf(1), of tid] wf(1)
    by (auto simp: work_step_def step_on_top_def wf_stack_def cur_def)
  have st: "stack_back tid u = Inr cur"
    using run par u gu
    by (auto simp: m_instrument_access_precise_def Let_def stack_back_Inr cur_def same_graph_def)
  obtain v meta' where v: "check_entries rank a cur type meta u = Inr v"
    and m: "update_metadata rank v cur type meta = Inr meta'"
    and s': "s' = put_metadata t (offset a) meta' v"
    using run par u st f(4) by (auto simp: m_instrument_access_precise_def Let_def meta_def)
  have c: "compared a cur type (conflicting type (\<Union> (entry_steps ` set (all_entries rank meta)))) u v"
    using check_list_compared v by (simp add: check_entries_def)
  then have r: "only_races u v" by (simp add: compared_def)
  have gv: "same_graph s v" using same_graph_trans [OF conjunct1 [OF gu] only_races_same_graph [OF r]] .
  have uv: "m_primary_trie v = m_primary_trie u" "m_tables v = m_tables u" "m_next_table v = m_next_table u"
    using r by (auto elim!: only_races_E)
  have wv: "wf_tables v" and pv: "m_primary_trie v (primary_index a) = Some t"
    using f(1,2) uv by (simp_all add: wf_tables_def)
  have mv: "metadata_at unset_metadata b v = metadata_at unset_metadata b s" for b
    using f(3) [of b] unfolding metadata_at_def uv .
  note p = put_metadata_spec [OF wv pv, where x = meta']
  show ?thesis
  proof (rule that [OF cur _ _ _ c])
    show "same_graph s u" "m_violations u = m_violations s" "m_violations_count u = m_violations_count s"
      using gu by auto
    show "update_metadata rank s cur type meta = Inr meta'"
      using m update_metadata_cong [OF gv] by simp
    show "same_graph s s'" "m_violations s' = m_violations v" "m_violations_count s' = m_violations_count v"
      using s' gv by (auto simp: put_metadata_def same_graph_def)
    show "wf_tables s'" using s' p(1) by simp
    show "metadata_at unset_metadata b s' =
        (if slot b = slot a then meta' else metadata_at unset_metadata b s)" for b
      using s' p(2) [of unset_metadata b] mv by simp
  qed
qed

lemma program_entry_compared:
  assumes "good_metadata meta" and "program_writer meta \<noteq> 0"
  shows "(program_writer meta, WRITE) \<in>
    conflicting ty (\<Union> (entry_steps ` set (all_entries rank meta)))"
proof -
  have "entries meta 0 \<in> set (all_entries rank meta)"
    using assms by (auto simp: all_entries_def good_metadata_def program_writer_def intro!: imageI)
  then show ?thesis using assms(2) by (force simp: conflicting_def entry_steps_def program_writer_def)
qed

interpretation precise: access_checker Precise unset_metadata "m_instrument_access_precise rank"
  meta_steps program_writer good_metadata "\<lambda>meta. meta" for rank
proof unfold_locales
  show "meta_steps unset_metadata = {}" "program_writer unset_metadata = 0" "good_metadata unset_metadata"
    by (auto simp: meta_steps_def program_writer_def good_metadata_def unset_metadata_def unset_entry_def
        entry_steps_def map_steps_def)
  show "meta_steps m \<subseteq> meta_steps m" for m ..
  show "(program_writer m, WRITE) \<in> meta_steps m" if "program_writer m \<noteq> 0" for m
    using that by (force simp: program_writer_def meta_steps_def entry_steps_def)
  show "s' = s" if "\<not> omprace_in_parallel s" "m_instrument_access_precise rank tid a ty s = Inr s'"
    for s s' :: "Metadata monitor" and tid a ty
    using that by (simp add: m_instrument_access_precise_def)
  fix tid a ty and s s' :: "Metadata monitor"
  assume rdy: "access_ready unset_metadata meta_steps good_metadata tid a s" and "mode s = Precise"
    and run: "m_instrument_access_precise rank tid a ty s = Inr s'"
  let ?cur = "last (m_last_nodes s tid)" and ?m = "metadata_at unset_metadata a s"
  let ?ps = "conflicting ty (\<Union> (entry_steps ` set (all_entries rank ?m)))"
  have wf: "wf_state s" "wf_tables s" "step_on_top tid s" "omprace_in_parallel s" "good_metadata ?m"
    using rdy by (simp_all add: access_ready_def)
  obtain u v :: "Metadata monitor" and meta' where c: "work_step s ?cur" "same_graph s u" "m_violations u = m_violations s"
    "m_violations_count u = m_violations_count s" "compared a ?cur ty ?ps u v"
    and m: "update_metadata rank s ?cur ty ?m = Inr meta'"
    and s': "same_graph s s'" "wf_tables s'" "m_violations s' = m_violations v"
    "m_violations_count s' = m_violations_count v"
    "\<And>b. metadata_at unset_metadata b s' =
      (if slot b = slot a then meta' else metadata_at unset_metadata b s)"
    by (rule m_instrument_access_precise_parts [OF wf(1-4) run]) (rule that)
  note g = update_metadata_steps [OF m c(1) wf(5)]
  have f: "found u = found s" "m_isparallel u = m_isparallel s"
    by (intro ext, unfold found_def same_graph_verdicts(1) [OF c(2)]) simp_all
  show "same_graph s s' \<and> wf_tables s' \<and> m_last_nodes s tid \<noteq> [] \<and> good_metadata (metadata_at unset_metadata a s')"
    using s' g(1) wf(3) by (simp add: step_on_top_def)
  show "metadata_at unset_metadata b s' = metadata_at unset_metadata b s" if "slot b \<noteq> slot a" for b
    using s'(5) that by simp
  show "meta_steps (metadata_at unset_metadata a s') \<subseteq> insert (?cur, ty) (meta_steps ?m) \<and>
      program_writer (metadata_at unset_metadata a s') = (if ty = WRITE then ?cur else program_writer ?m)"
    using s'(5) [of a] g(2,3) by simp
  show "m_violations s' i = m_violations s i \<or>
      (\<exists>(p, k) \<in> meta_steps ?m. (ty \<or> k) \<and> found s a ?cur ty p k (m_violations s' i))" for i
    using c(3,5) s'(3) all_entries_steps [of rank ?m] unfolding compared_def f
    by (fastforce simp: conflicting_def)
  show "m_violations_count s = 0 \<and>
      (program_writer ?m \<noteq> 0 \<longrightarrow> m_isparallel s ?cur (program_writer ?m) = Inr False)"
    if "m_violations_count s' = 0"
    using c(4,5) s'(4) that program_entry_compared [OF wf(5), of ty rank] unfolding compared_def f by auto
qed

section \<open>The handler returns\<close>

lemma check_recorded_returns:
  assumes "p = 0 \<or> work_step s p" "work_step s cur" "deps_recorded s" "race_room (Suc k) s"
  shows "\<exists>s'. check_recorded a cur ty p kd s = Inr s' \<and> race_room k s' \<and> only_races s s'"
proof (cases "p = 0")
  case True
  then show ?thesis using assms(4) by (auto simp: check_recorded_def race_room_def)
next
  case False
  then show ?thesis
    using check_race_returns [OF m_isparallel_returns [OF assms(3,2,1)] assms(4)]
    by (simp add: check_recorded_def)
qed

lemma only_races_keeps:
  assumes "only_races s s'"
  shows "work_step s' p = work_step s p" "deps_recorded s' = deps_recorded s" "holds_steps s' ps = holds_steps s ps"
proof -
  have "same_graph s s'" by (rule only_races_same_graph [OF assms])
  moreover have "same_graph s' s" using calculation by (simp add: same_graph_def)
  ultimately show w: "work_step s' p = work_step s p" for p using work_step_graph by blast
  show "holds_steps s' ps = holds_steps s ps" by (simp add: holds_steps_def w)
  show "deps_recorded s' = deps_recorded s"
    using \<open>same_graph s s'\<close> by (simp add: deps_recorded_def same_graph_def)
qed

lemma check_entry_returns:
  assumes "holds_steps s (entry_steps e)" "work_step s cur" "deps_recorded s" "race_room (3 + k) s"
  shows "\<exists>s'. check_entry a cur ty e s = Inr s' \<and> race_room k s' \<and> only_races s s'"
proof -
  have st: "p = 0 \<or> work_step s p" if "p \<in> {write1 e, read1 e, read2 e}" for p
    using assms(1) that by (fastforce simp: holds_steps_def entry_steps_def)
  obtain u where u: "check_recorded a cur ty (write1 e) WRITE s = Inr u" "race_room (Suc (Suc k)) u" "only_races s u"
    using check_recorded_returns [OF st assms(2,3), of "write1 e" "Suc (Suc k)" a ty WRITE] assms(4)
    by (simp add: numeral_3_eq_3) blast
  note ku = only_races_keeps [OF u(3)]
  obtain v where v: "check_recorded a cur WRITE (read1 e) READ u = Inr v" "race_room (Suc k) v" "only_races u v"
    using check_recorded_returns [of "read1 e" u cur "Suc k" a WRITE READ] st assms(2,3) u(2) ku
    by (simp add: insert_iff) blast
  note kv = only_races_keeps [OF v(3)]
  obtain z where z: "check_recorded a cur WRITE (read2 e) READ v = Inr z" "race_room k z" "only_races v z"
    using check_recorded_returns [of "read2 e" v cur k a WRITE READ] st assms(2,3) v(2) ku kv
    by (simp add: insert_iff) blast
  have "race_room k u" using u(2) by (simp add: race_room_def)
  then show ?thesis
    using u v z only_races_trans [OF u(3) only_races_trans [OF v(3) z(3)]]
    by (cases ty) (auto simp: check_entry_def)
qed

lemma check_list_returns:
  "\<forall>e \<in> set es. holds_steps s (entry_steps e) \<Longrightarrow> work_step s cur \<Longrightarrow> deps_recorded s \<Longrightarrow>
     race_room (3 * length es) s \<Longrightarrow>
     \<exists>s'. block (map (check_entry a cur ty) es) s = Inr s' \<and> only_races s s'"
proof (induction es arbitrary: s)
  case (Cons e es)
  obtain u where u: "check_entry a cur ty e s = Inr u" "race_room (3 * length es) u" "only_races s u"
    using check_entry_returns [of s e cur "3 * length es" a ty] Cons.prems by simp blast
  then obtain v where "block (map (check_entry a cur ty) es) u = Inr v" "only_races u v"
    using Cons.IH [of u] Cons.prems(1-3) only_races_keeps [OF u(3)] by auto
  then show ?case using u only_races_trans [OF u(3)] by auto
qed auto

lemma update_entry_returns:
  assumes "holds_steps s (entry_steps e)" and cur: "work_step s cur" and dr: "deps_recorded s"
  shows "\<exists>e'. update_entry s cur ty e = Inr e'"
proof (cases ty)
  case False
  define f where "f = (if read1 e = 0 then e\<lparr>read1 := cur\<rparr>
    else if read2 e = 0 then e\<lparr>read2 := cur\<rparr> else e)"
  have "p = 0 \<or> work_step s p" if "p \<in> {read1 e, read2 e}" for p
    using assms(1) that by (fastforce simp: holds_steps_def entry_steps_def)
  then have st: "p = 0 \<or> work_step s p" if "p \<in> {read1 f, read2 f}" for p
    using cur that unfolding f_def by (cases "read1 e = 0"; cases "read2 e = 0") auto
  obtain p1 p2 where p: "m_isparallel s cur (read1 f) = Inr p1" "m_isparallel s cur (read2 f) = Inr p2"
    using m_isparallel_returns [OF dr cur st, of "read1 f"] m_isparallel_returns [OF dr cur st, of "read2 f"]
    by auto
  have "read1 f \<noteq> 0 \<and> read2 f \<noteq> 0" if "p1 \<and> p2"
    using p that m_isparallel_self(1) [OF cur] by (cases "read1 f = 0"; cases "read2 f = 0") auto
  then have lca: "\<exists>x y. m_lca s (read1 f) (read2 f) = Inr x \<and> m_lca s (read1 f) cur = Inr y" if "p1 \<and> p2"
    using that st [of "read1 f"] st [of "read2 f"] m_lca_returns [of s "read1 f" "read2 f"]
      m_lca_returns [of s "read1 f" cur] cur by auto
  have "update_entry s cur ty e =
    (if \<not> p1 \<and> \<not> p2 then Inr (f\<lparr>read1 := cur, read2 := 0\<rparr>)
     else if p1 \<and> p2
     then and_then (m_lca s (read1 f) (read2 f)) (\<lambda>lca12.
          and_then (m_lca s (read1 f) cur) (\<lambda>lca1s.
            if m_depth (m_tgraph_nodes s lca1s) < m_depth (m_tgraph_nodes s lca12)
            then Inr (f\<lparr>read1 := cur\<rparr>) else Inr f))
     else Inr f)"
    using False p by (simp only: update_entry_def f_def [symmetric] Let_def) simp
  then show ?thesis using lca by (cases "p1 \<and> p2") auto
qed (simp add: update_entry_def)

lemma holds_mono: "holds_steps s ps \<Longrightarrow> qs \<subseteq> ps \<Longrightarrow> holds_steps s qs"
  by (auto simp: holds_steps_def)

lemma holds_insert: "holds_steps s ps \<Longrightarrow> work_step s p \<Longrightarrow> holds_steps s (insert (p, k) ps)"
  by (simp add: holds_steps_def)

lemma entry_in_meta: "entry_steps (entries meta i) \<subseteq> meta_steps meta"
  by (auto simp: meta_steps_def)

lemma set_entry_steps:
  "entry_steps e \<subseteq> insert x (meta_steps meta) \<Longrightarrow>
     meta_steps (meta\<lparr>entries := (entries meta)(i := e), entry_count := n\<rparr>) \<subseteq> insert x (meta_steps meta)"
  "entry_steps e \<subseteq> insert x (meta_steps meta) \<Longrightarrow>
     meta_steps (meta\<lparr>entries := (entries meta)(i := e)\<rparr>) \<subseteq> insert x (meta_steps meta)"
  by (fastforce simp: meta_steps_def split: if_splits)+

lemma update_known_returns:
  "holds_steps s (meta_steps meta) \<Longrightarrow> work_step s cur \<Longrightarrow> deps_recorded s \<Longrightarrow>
     \<exists>r. update_known s cur ty is meta st = Inr r"
proof (induction "is" arbitrary: meta st)
  case (Cons i "is")
  have cur: "cur \<noteq> 0" using Cons.prems(2) by (auto simp: work_step_def is_node_def)
  obtain e where e: "update_entry s cur ty (entries meta i) = Inr e"
    using update_entry_returns [OF holds_mono [OF Cons.prems(1) entry_in_meta] Cons.prems(2,3)] by blast
  have "entry_steps e \<subseteq> insert (cur, ty) (meta_steps meta)"
    using update_entry_steps(3) [OF e cur] entry_in_meta [of meta i] by blast
  from holds_mono [OF holds_insert [OF Cons.prems(1,2)] set_entry_steps(2) [OF this]]
  show ?case using e Cons.IH [OF _ Cons.prems(2,3)] by simp
qed simp

lemma fill_first_level_returns:
  "holds_steps s (meta_steps meta) \<Longrightarrow> work_step s cur \<Longrightarrow> deps_recorded s \<Longrightarrow>
     \<exists>r. fill_first_level rank s cur ty n is meta st = Inr r"
proof (induction "is" arbitrary: n meta st)
  case (Cons i "is")
  have cur: "cur \<noteq> 0" using Cons.prems(2) by (auto simp: work_step_def is_node_def)
  let ?p = "promote i (table_begin rank st) meta"
  have p: "holds_steps s (meta_steps ?p)" by (rule holds_mono [OF Cons.prems(1) promote_steps(2)])
  obtain e where e: "update_entry s cur ty (entries ?p i) = Inr e"
    using update_entry_returns [OF holds_mono [OF p entry_in_meta] Cons.prems(2,3)] by blast
  have "entry_steps e \<subseteq> insert (cur, ty) (meta_steps ?p)"
    using update_entry_steps(3) [OF e cur] entry_in_meta [of ?p i] by blast
  from holds_mono [OF holds_insert [OF p Cons.prems(2)] set_entry_steps(1) [OF this]]
  show ?case using e Cons.IH [OF _ Cons.prems(2,3)] by (simp add: Let_def)
qed simp

lemma fill_second_level_returns:
  "holds_steps s (map_steps (Some m)) \<Longrightarrow> work_step s cur \<Longrightarrow> deps_recorded s \<Longrightarrow>
     \<exists>r. fill_second_level rank s cur ty m st = Inr r"
proof (induction rank s cur ty m st rule: fill_second_level.induct)
  case (1 rank s cur ty m st)
  show ?case
  proof (cases "st = []")
    case True
    then show ?thesis by (simp add: fill_second_level.simps)
  next
    case False
    let ?k = "table_begin rank st"
    define n where "n = (if map_of m ?k = None then AList.update ?k (unset_entry\<lparr>entry_id := ?k\<rparr>) m else m)"
    have cur: "cur \<noteq> 0" using 1(3) by (auto simp: work_step_def is_node_def)
    note sub = second_level_place [of m ?k, folded n_def]
    have n: "holds_steps s (map_steps (Some n))" by (rule holds_mono [OF 1(2) sub(1)])
    obtain e where e: "update_entry s cur ty (the (map_of n ?k)) = Inr e"
      using update_entry_returns [OF holds_mono [OF n sub(2)] 1(3,4)] by blast
    have "map_steps (Some (AList.update ?k e n)) \<subseteq> insert (cur, ty) (map_steps (Some n))"
      using update_entry_steps(3) [OF e cur] sub(2) set_AList_update [of ?k e n]
      by (fastforce simp: map_steps_def)
    from holds_mono [OF holds_insert [OF n 1(3)] this]
    obtain r where "fill_second_level rank s cur ty (AList.update ?k e n) (removeAll ?k st) = Inr r"
      using 1(1) [OF False refl n_def e _ 1(3,4)] by blast
    then show ?thesis using False e
      by (subst fill_second_level.simps) (simp add: Let_def n_def [symmetric])
  qed
qed

lemma update_metadata_returns:
  assumes "holds_steps s (meta_steps meta)" "good_metadata meta" and cur: "work_step s cur" and dr: "deps_recorded s"
  shows "\<exists>meta'. update_metadata rank s cur ty meta = Inr meta'"
proof -
  have nz: "cur \<noteq> 0" using cur by (auto simp: work_step_def is_node_def)
  let ?m0 = "if entry_count meta = 0 then meta\<lparr>entry_count := entry_count meta + 1\<rparr> else meta"
  obtain st where st: "find_st_nodes (m_tgraph_nodes s) (m_parent (m_tgraph_nodes s cur)) [] = Some st" "distinct st"
    using find_st_nodes_returns [OF step_parent [OF cur], of "[]"] by auto
  have m0: "meta_steps ?m0 = meta_steps meta" "entry_count ?m0 \<le> NUM_META_ENTRIES"
    using assms(2) by (auto simp: meta_steps_def good_metadata_def NUM_META_ENTRIES_def)
  obtain m1 st1 where m1: "update_known s cur ty [0..<entry_count ?m0] ?m0 st = Inr (m1, st1)"
    using update_known_returns [of s ?m0 cur] assms(1) cur dr m0(1) by fastforce
  note k = update_known_steps [OF m1 nz]
  have h1: "holds_steps s (meta_steps m1)"
    using holds_mono [OF holds_insert [OF assms(1) cur]] k m0(1) by metis
  have c1: "entry_count m1 \<le> NUM_META_ENTRIES" "distinct st1" using k m0(2) st(2) by auto
  obtain m2 st2 where m2: "(if st1 \<noteq> [] \<and> NUM_META_ENTRIES - entry_count m1 > 0
      then fill_first_level rank s cur ty (length st1) [entry_count m1..<NUM_META_ENTRIES] m1 st1
      else Inr (m1, st1)) = Inr (m2, st2)"
    using fill_first_level_returns [OF h1 cur dr] by (cases "st1 \<noteq> [] \<and> NUM_META_ENTRIES - entry_count m1 > 0") force+
  have c2: "st2 = [] \<or> entry_count m2 = NUM_META_ENTRIES" "meta_steps m2 \<subseteq> insert (cur, ty) (meta_steps m1)"
    using m2 c1 fill_first_level_steps [of rank s cur ty "length st1" _ m1 st1 m2 st2, OF _ nz]
    by (auto split: if_splits)
  have "map_steps (Some (case entry_map m2 of None \<Rightarrow> [] | Some m \<Rightarrow> m)) \<subseteq> meta_steps m2"
    by (auto simp: meta_steps_def map_steps_def split: option.split)
  then have "holds_steps s (map_steps (Some (case entry_map m2 of None \<Rightarrow> [] | Some m \<Rightarrow> m)))"
    using holds_mono [OF holds_insert [OF h1 cur]] c2(2) by blast
  from fill_second_level_returns [OF this cur dr]
  obtain m where "fill_second_level rank s cur ty (case entry_map m2 of None \<Rightarrow> [] | Some m \<Rightarrow> m) st2 = Inr m"
    by blast
  then show ?thesis using st(1) m1 m2 c2(1) by (auto simp: update_metadata_def Let_def)
qed

section \<open>Runs of the precise build\<close>

abbreviation precise_run :: "ranking \<Rightarrow> bool \<Rightarrow> access list \<Rightarrow> Metadata monitor \<Rightarrow> bool" where
  "precise_run rank \<equiv> checked_run Precise unset_metadata (m_instrument_access_precise rank)
     (Some (\<lambda>meta. meta))"

abbreviation precise_play :: "ranking \<Rightarrow> event list \<Rightarrow> (access list \<times> Metadata monitor) option" where
  "precise_play rank \<equiv> played Precise unset_metadata (m_instrument_access_precise rank)"

text \<open>A thread that creates a task writes a word twice.\<close>

definition st_node_run :: "event list" where
  "st_node_run = map Callback team_run @
     [Callback (Task_alloc 0 7 False), Access 0 64 WRITE, Access 0 64 WRITE]"

lemmas precise_eval = play_eval m_instrument_access_precise_def check_entries_def all_entries_def
  check_entry_def check_recorded_def update_metadata_def update_entry_def find_st_nodes.simps
  promote_def fill_second_level.simps NUM_META_ENTRIES_def ROOT_INDEX_def unset_metadata_def
  unset_entry_def table_begin_def in_table_order_def m_isparallel_def m_isparallel_precise_def
  walk_counting_def climb_counting.simps meet_counting.simps verdict_precise_def
  m_are_dependent_def m_lca_def climb.simps meet.simps

section \<open>Properties\<close>

text \<open>C27: Every race the precise build records in a run is a race of two accesses of the run to
  one 4-byte word, with the recorded kinds and steps, one of them a write, whose steps may run in
  parallel, in whatever order its hash tables are visited.\<close>

theorem precise_races_are_real:
  assumes "precise_run rank free h s" and "valid (m_violations s i)"
  shows "real_race h s (m_violations s i)"
  using precise.races_are_real [OF assms(1) _ assms(2)] by simp

theorem precise_races_are_real_witness:
  "\<forall>rank. \<exists>h s. precise_play rank race_run = Some (h, s) \<and> real_race h s (m_violations s 0)"
proof
  fix rank
  obtain h s where r: "precise_play rank race_run = Some (h, s)" "valid (m_violations s 0)"
    by (simp add: race_run_def precise_eval cong: and_then_weak_cong)
  show "\<exists>h s. precise_play rank race_run = Some (h, s) \<and> real_race h s (m_violations s 0)" using precise_races_are_real [OF played_checked_run [OF r(1), of "Some (\<lambda>meta. meta)" True] r(2)] r(1) by blast
qed

text \<open>C28: In a run of the precise build that records no race, executed in an order that
  respects the graph, every access after a write to the same word is by the same step or by a step
  the write comes before, whether tasks have dependences or not.\<close>

theorem precise_silent_run_orders_writes:
  assumes "precise_run rank free h s" and "m_violations_count s = 0"
    and "in_order (before (m_tgraph_nodes s)) h"
    and "i < j" "j < length h" "place (h ! i) = place (h ! j)" "is_write (h ! i)"
  shows "by_step (h ! i) = by_step (h ! j) \<or>
    before (m_tgraph_nodes s) (by_step (h ! i)) (by_step (h ! j))"
  using precise.silent_run [OF assms(1)] assms(2-7) by (simp add: id_def)

theorem precise_silent_run_orders_writes_witness:
  "\<forall>rank. \<exists>h s. precise_play rank phases_run = Some (h, s) \<and>
     before (m_tgraph_nodes s) (by_step (h ! 0)) (by_step (h ! 1))"
proof
  fix rank
  obtain h s where r: "precise_play rank phases_run = Some (h, s)" "m_violations_count s = 0"
      "length h = 2" "place (h ! 0) = place (h ! 1)" "is_write (h ! 0)"
      and sp: "splits (m_tgraph_nodes s) (by_step (h ! 1)) (by_step (h ! 0)) 1"
        "m_seqnum (branch (m_tgraph_nodes s) (by_step (h ! 0)) 1) <
           m_seqnum (branch (m_tgraph_nodes s) (by_step (h ! 1)) 1)"
    by (simp add: phases_run_def splits_def at_depth_def precise_eval cong: and_then_weak_cong)
  note run = played_checked_run [OF r(1), of "Some (\<lambda>meta. meta)" True]
  show "\<exists>h s. precise_play rank phases_run = Some (h, s) \<and> before (m_tgraph_nodes s) (by_step (h ! 0)) (by_step (h ! 1))"
    using precise_silent_run_orders_writes [OF run r(2) two_in_order [OF precise.run_steps [OF run, simplified] r(3) sp], of 0 1]
      r sp(1) by (auto simp: splits_def)
qed

text \<open>C29: The handler of the precise build returns: its loops end, its assertion on the number
  of entries holds and no lookup faults, when the thread has a step, the dependences of tasks are
  recorded and the counter of races has room for three for every entry.\<close>

theorem precise_access_returns:
  assumes run: "precise_run rank free h s" and "step_on_top tid s" "tid < NUM_THREADS"
    and dr: "deps_recorded s"
    and room: "race_room (3 * length (all_entries rank (metadata_at unset_metadata a s))) s"
  shows "\<exists>s'. m_instrument_access_precise rank tid a type s = Inr s'"
proof (cases "omprace_in_parallel s")
  case True
  let ?m = "metadata_at unset_metadata a s" and ?cur = "last (m_last_nodes s tid)"
  have i: "wf_state s" "wf_tables s" "\<forall>x \<in> set h. work_step s (by_step x)" "good_metadata ?m"
      "\<And>p k. (p, k) \<in> meta_steps ?m \<Longrightarrow> accessed a p k \<in> set h"
    using precise.checked_run_inv [OF run, of False, simplified] by (auto simp: precise.run_inv_def)
  have held: "holds_steps s (meta_steps ?m)" using i(3,5) by (fastforce simp: holds_steps_def)
  obtain t u where u: "find_table unset_metadata (primary_index a) s = (t, u)" by fastforce
  note gu = find_table_graph [OF u] and f = find_table_spec(4) [OF i(2) u]
  have us: "same_graph u s" using gu by (simp add: same_graph_def)
  have ne: "m_last_nodes s tid \<noteq> []" using assms(2) by (simp add: step_on_top_def)
  have cur: "work_step s ?cur"
    using assms(2) wf_stateD(3) [OF i(1), of tid] ne i(1)
    by (auto simp: work_step_def step_on_top_def wf_stack_def)
  have w: "work_step u p = work_step s p" for p
    using work_step_graph [OF us] work_step_graph [OF conjunct1 [OF gu]] by blast
  have m: "stack_back tid u = Inr ?cur" "deps_recorded u" "work_step u ?cur"
      "race_room (3 * length (all_entries rank ?m)) u" "holds_steps u ps = holds_steps s ps" for ps
    using gu dr room ne assms(3) cur w
    by (auto simp: same_graph_def deps_recorded_def stack_back_Inr race_room_def holds_steps_def)
  have "\<forall>e \<in> set (all_entries rank ?m). holds_steps u (entry_steps e)"
    unfolding m(5) using holds_mono [OF held] all_entries_steps [of rank ?m] by blast
  from check_list_returns [OF this m(3,2,4)]
  obtain v where v: "check_entries rank a ?cur type ?m u = Inr v" "only_races u v"
    by (auto simp: check_entries_def)
  note kv = only_races_keeps [OF v(2)]
  obtain m' where "update_metadata rank v ?cur type ?m = Inr m'"
    using update_metadata_returns [of v ?m ?cur rank type] held i(4) m(2,3,5) kv by auto
  then show ?thesis
    using True u v(1) f m(1) by (simp add: m_instrument_access_precise_def Let_def)
qed (simp add: m_instrument_access_precise_def)

theorem precise_access_returns_witness:
  "\<forall>rank. \<exists>h s s'. precise_play rank race_run = Some (h, s) \<and> m_instrument_access_precise rank 0 128 WRITE s = Inr s'"
proof
  fix rank
  obtain h s where r: "precise_play rank race_run = Some (h, s)" "step_on_top 0 s" "task_free s"
      "race_room (3 * length (all_entries rank (metadata_at unset_metadata 128 s))) s"
    by (simp add: race_run_def race_room_def metadata_at_def precise_eval cong: and_then_weak_cong)
  then have "deps_recorded s" by (simp add: deps_recorded_def task_free_def)
  then show "\<exists>h s s'. precise_play rank race_run = Some (h, s) \<and> m_instrument_access_precise rank 0 128 WRITE s = Inr s'"
    using precise_access_returns [OF played_checked_run [OF r(1), of "Some (\<lambda>meta. meta)" True] r(2) _ _ r(4), of WRITE] r(1)
    by (auto simp: NUM_THREADS_def)
qed

text \<open>A new entry of the first level gets no id: after two writes by one step below one
  ST-node the word has three entries, two of them for that ST-node, and all have the id 0.\<close>

lemma first_level_entries_lose_id:
  "\<exists>h s. precise_play rank st_node_run = Some (h, s) \<and>
     (let m = metadata_at unset_metadata 64 s in
        entry_count m = 3 \<and>
        map (\<lambda>i. (entry_id (entries m i), write1 (entries m i))) [0, 1, 2] = replicate 3 (0, by_step (h ! 1)))"
  by (simp add: st_node_run_def metadata_at_def precise_eval numeral_3_eq_3
      cong: and_then_weak_cong)

text \<open>The builds differ on the same run: where the fast build is silent, the precise build
  records the race of the parallel thread's read and the later write, because its entries for
  ST-nodes keep the read.\<close>

lemma precise_finds_missed_race:
  "\<exists>h s. precise_play rank missed_race_run = Some (h, s) \<and> valid (m_violations s 0) \<and>
     m_task1 (m_violations s 0) = 19 \<and> m_task2 (m_violations s 0) = 8"
  by (simp add: missed_race_run_def precise_eval cong: and_then_weak_cong)

end
