(* ===== verification/Ompt_Run.thy ===== *)
theory Ompt_Run
  imports Ompt_Tool Fast_Run Precise_Run
begin

text \<open>
  The tool refines the detector: an OMPT event performs exactly the detector operations that
  \<open>actions\<close> lists for it, in that order, or stops the program. A run of events from the loading
  of the tool is then a run of theory \<open>Checked_Run\<close>, and what was shown there of the races
  holds for the tool as the runtime drives it.
\<close>

section \<open>The operations of an event\<close>

datatype action =
    Started nat
  | Captured callback
  | Checked nat "64 word" bool
  | Cleared "64 word" "64 word"

fun perform ::
  "(nat \<Rightarrow> 64 word \<Rightarrow> bool \<Rightarrow> 'a detector_scheme \<Rightarrow> 'a detector_scheme result) \<Rightarrow>
   (64 word \<Rightarrow> 64 word \<Rightarrow> 'a detector_scheme \<Rightarrow> 'a detector_scheme result) \<Rightarrow>
   action \<Rightarrow> 'a detector_scheme \<Rightarrow> 'a detector_scheme result" where
  "perform check clear (Started n) = m_init_racer n"
| "perform check clear (Captured c) = capture c"
| "perform check clear (Checked n a ty) = check n a ty"
| "perform check clear (Cleared a b) = clear a b"

definition tid_of :: "nat \<Rightarrow> 'd tool \<Rightarrow> nat" where
  "tid_of th t = tid (the (thread_ptr t th))"

definition id_of :: "nat \<Rightarrow> 'd tool \<Rightarrow> nat" where
  "id_of i t = unat (task_id (the (task_ptr t i)))"

fun sync_callback :: "sync_region_kind \<Rightarrow> scope_endpoint \<Rightarrow> nat \<Rightarrow> callback" where
  "sync_callback Taskwait Scope_begin n = Taskwait_begin n"
| "sync_callback Taskwait Scope_end n = Taskwait_end n"
| "sync_callback Taskgroup Scope_begin n = Taskgroup_begin n"
| "sync_callback Taskgroup Scope_end n = Taskgroup_end n"
| "sync_callback k Scope_begin n = Barrier_begin n"
| "sync_callback k Scope_end n = Barrier_end n"

fun work_callbacks :: "work_kind \<Rightarrow> scope_endpoint \<Rightarrow> nat \<Rightarrow> callback list" where
  "work_callbacks Work_loop Scope_begin n = [Loop_begin n]"
| "work_callbacks Work_loop Scope_end n = [Loop_end n]"
| "work_callbacks Work_single_executor Scope_begin n = [Single_begin n]"
| "work_callbacks Work_single_executor Scope_end n = [Single_end n]"
| "work_callbacks k e n = []"

text \<open>The specification of the tool: what an event does to the detector.\<close>

fun actions :: "ompt_event \<Rightarrow> 'd tool \<Rightarrow> action list" where
  "actions (Sync_region th k e r i) t = [Captured (sync_callback k e (tid_of th t))]"
| "actions (Implicit_task th e r i f) t =
     (if f AND ompt_task_initial \<noteq> 0 then []
      else [Captured (case e of Scope_begin \<Rightarrow> Implicit_task_begin (tid_of th t)
                              | Scope_end \<Rightarrow> Implicit_task_end (tid_of th t))])"
| "actions (Work th k e r i) t = map Captured (work_callbacks k e (tid_of th t))"
| "actions (Master th e r i) t =
     [Captured (case e of Scope_begin \<Rightarrow> Master_begin (tid_of th t)
                        | Scope_end \<Rightarrow> Master_end (tid_of th t))]"
| "actions (Region_begin procs th i r n) t = [Captured (Parallel_begin procs (tid_of th t) n)]"
| "actions (Region_end th) t = [Captured (Parallel_end (tid_of th t))]"
| "actions (Task_create th i j ty d r) t =
     (if ty AND ompt_task_explicit \<noteq> 0
      then [Captured (Task_alloc (tid_of th t) (unat (OMPRACE_TASK_ID t)) d)] else [])"
| "actions (Task_schedule th i st j m f) t =
     (if st \<noteq> Task_complete then [Captured (Task_begin (tid_of th t) (id_of j t))]
      else let d = the (thread_ptr t th); (ok, a, sz) = m
           in [Cleared (lowest_accessed_addr d) (active_task_exit_frame d), Cleared a (a + sz),
               Captured (Task_end (tid_of th t))])"
| "actions (Dependences th i ds) t = [Captured (Task_dependences (tid_of th t) (id_of i t) ds)]"
| "actions (Thread_start th n a sz) t = [Captured (Thread_begin n)]"
| "actions (Dispatch th) t = [Captured (Loop_chunk (tid_of th t))]"
| "actions (Tool_init th i) t = [Started (tid_of th t)]"
| "actions (Instrumented th a ty) t =
     (if omprace_init_flag t then [Checked (tid_of th t) a (ty = 1)] else [])"
| "actions (Section_start th) t = [Captured (Section_begin (tid_of th t))]"
| "actions (Section_stop th) t = [Captured (Section_end (tid_of th t))]"
| "actions ev t = []"

text \<open>Events for which the runtime and the program keep their side: the data the handler reads is
  there, and the event is none of those the tool rejects.\<close>

fun proper :: "ompt_event \<Rightarrow> 'd tool \<Rightarrow> bool" where
  "proper (Sync_region th k e r i) t =
     (thread_ptr t th \<noteq> None \<and> task_ptr t i \<noteq> None \<and> (e = Scope_begin \<longrightarrow> r \<noteq> None) \<and> k \<noteq> Reduction)"
| "proper (Implicit_task th e r i f) t =
     (thread_ptr t th \<noteq> None \<and> (e = Scope_begin \<longrightarrow> r \<noteq> None) \<and>
      (e = Scope_end \<and> f AND ompt_task_initial = 0 \<longrightarrow> task_ptr t i \<noteq> None))"
| "proper (Work th k e r i) t =
     (thread_ptr t th \<noteq> None \<and> (work_callbacks k e 0 \<noteq> [] \<longrightarrow> task_ptr t i \<noteq> None \<and> r \<noteq> None))"
| "proper (Master th e r i) t = (thread_ptr t th \<noteq> None \<and> task_ptr t i \<noteq> None \<and> r \<noteq> None)"
| "proper (Region_begin procs th i r n) t = (thread_ptr t th \<noteq> None \<and> task_ptr t i \<noteq> None)"
| "proper (Task_create th i j ty d r) t =
     (thread_ptr t th \<noteq> None \<and> ty AND ompt_task_initial = 0 \<and>
      (ty AND ompt_task_explicit \<noteq> 0 \<longrightarrow> r \<noteq> None))"
| "proper (Task_schedule th i st j m f) t =
     (thread_ptr t th \<noteq> None \<and> task_ptr t i \<noteq> None \<and> f \<noteq> None \<and>
      (if st = Task_complete then fst m else task_ptr t j \<noteq> None))"
| "proper (Dependences th i ds) t = (thread_ptr t th \<noteq> None \<and> task_ptr t i \<noteq> None)"
| "proper (Tool_init th i) t = (thread_ptr t th \<noteq> None \<and> task_ptr t i \<noteq> None)"
| "proper (Instrumented th a ty) t =
     (omprace_init_flag t \<longrightarrow> thread_ptr t th \<noteq> None \<and> (ty = 0 \<or> ty = 1))"
| "proper (Region_end th) t = (thread_ptr t th \<noteq> None)"
| "proper (Thread_stop th) t = (thread_ptr t th \<noteq> None)"
| "proper (Dispatch th) t = (thread_ptr t th \<noteq> None)"
| "proper (Section_start th) t = (thread_ptr t th \<noteq> None)"
| "proper (Section_stop th) t = (thread_ptr t th \<noteq> None)"
| "proper ev t = True"

section \<open>The tool refines its specification\<close>

text \<open>What an event leaves of the detector.\<close>

definition racer_of :: "'d tool result \<Rightarrow> 'd result" where
  "racer_of r = and_then r (\<lambda>t. Inr (omp_racer t))"

lemma racer_of_simps [simp]:
  "racer_of (Inl e) = Inl e" "racer_of (Inr t) = Inr (omp_racer t)"
  "racer_of (detect f t) = f (omp_racer t)"
  "racer_of (and_then m g) = and_then m (\<lambda>t. racer_of (g t))"
  by (simp_all add: racer_of_def detect_def and_then_assoc and_then_def split: sum.splits)

lemma and_then_end [simp]: "and_then m Inr = m" "and_then m (block []) = m"
  by (cases m; simp)+

lemma detect_then:
  "and_then (detect f t) g = and_then (f (omp_racer t)) (\<lambda>d. g (t\<lparr>omp_racer := d\<rparr>))"
  by (simp add: detect_def and_then_assoc)

lemma registered_needs: "needs ev = Some c \<Longrightarrow> c \<in> set registered \<or> (\<exists>th w. ev = Mutex th c w)"
  by (cases ev) (auto simp: registered_def)

lemma deliver_handles: "deliver check clear ev t = handle_event check clear ev t"
proof (cases "needs ev")
  case (Some c)
  then show ?thesis using registered_needs [OF Some] by (auto simp: deliver_def)
qed (simp add: deliver_def)

lemmas handler_defs =
  on_ompt_callback_sync_region_def on_ompt_callback_implicit_task_def on_ompt_callback_work_def
  on_ompt_callback_master_def on_ompt_callback_parallel_begin_def on_ompt_callback_parallel_end_def
  on_ompt_callback_task_create_def on_ompt_callback_task_schedule_def
  on_ompt_callback_dependences_def on_ompt_callback_thread_begin_def on_ompt_callback_thread_end_def
  on_ompt_callback_dispatch_def omprace_init_def omprace_instrument_access_def
  omprace_section_dispatch_begin_def omprace_section_dispatch_end_def

lemmas data_defs =
  with_ids_def with_task_id_def omw_next_parallel_id_def omw_next_task_id_def
  allocate_and_set_task_data_def allocate_and_set_thread_data_def delete_task_data_def
  delete_thread_data_def new_thread_data_def tid_of_def id_of_def


lemma handle_event_refines:
  assumes "proper ev t"
  shows "racer_of (handle_event check clear ev t) = block (map (perform check clear) (actions ev t)) (omp_racer t)"
proof (cases ev)
  case (Sync_region th k e r i)
  then show ?thesis using assms by (cases k; cases e; auto simp: on_ompt_callback_sync_region_def data_defs)
next
  case (Implicit_task th e r i f)
  then show ?thesis using assms
    by (cases e; auto simp: on_ompt_callback_implicit_task_def data_defs detect_then Let_def)
next
  case (Work th k e r i)
  then show ?thesis using assms by (cases k; cases e; auto simp: on_ompt_callback_work_def data_defs)
next
  case (Master th e r i)
  then show ?thesis using assms by (cases e; auto simp: on_ompt_callback_master_def data_defs)
next
  case (Task_schedule th i st j m f)
  then show ?thesis using assms
    by (cases m; cases f; auto simp: on_ompt_callback_task_schedule_def data_defs detect_then Let_def
        and_then_assoc intro!: and_then_cong)
next
  case (Instrumented th a ty)
  then show ?thesis using assms 
    by (auto simp: omprace_instrument_access_def Let_def tid_of_def)
qed (use assms in \<open>auto simp: handler_defs data_defs Let_def detect_then\<close>)

lemma and_then_fails: "(\<And>x. m = Inr x \<Longrightarrow> \<exists>e. f x = Inl e) \<Longrightarrow> \<exists>e. and_then m f = Inl e"
  by (cases m) auto

lemma improper_stops:
  assumes "\<not> proper ev t"
  shows "\<exists>e. handle_event check clear ev t = Inl e"
proof (cases ev)
  case (Sync_region th k e r i)
  then show ?thesis using assms
    by (cases k; cases e; cases "thread_ptr t th"; cases r; cases "task_ptr t i"; simp add: on_ompt_callback_sync_region_def data_defs)
next
  case (Implicit_task th e r i f)
  then show ?thesis using assms
    by (cases e; cases "thread_ptr t th"; cases r; cases "task_ptr t i"; simp add: on_ompt_callback_implicit_task_def data_defs Let_def)
next
  case (Work th k e r i)
  then show ?thesis using assms
    by (cases k; cases e; cases "thread_ptr t th"; cases r; cases "task_ptr t i"; simp add: on_ompt_callback_work_def data_defs)
next
  case (Task_schedule th i st j m f)
  then show ?thesis using assms
    by (cases m; cases f; cases "thread_ptr t th"; cases "task_ptr t i"; cases "task_ptr t j"; cases "st = Task_complete")
      (auto simp: on_ompt_callback_task_schedule_def data_defs detect_then Let_def intro!: and_then_fails)
next
  case (Master th e r i)
  then show ?thesis using assms
    by (cases e; cases "thread_ptr t th"; cases r; cases "task_ptr t i"; simp add: on_ompt_callback_master_def data_defs)
next
  case (Instrumented th a ty)
  then show ?thesis using assms
    by (cases "thread_ptr t th") (auto simp: omprace_instrument_access_def Let_def)
next
  case (Task_create th i j ty d r)
  then show ?thesis using assms
    by (cases "thread_ptr t th"; cases r) (auto simp: on_ompt_callback_task_create_def data_defs)
qed (use assms in \<open>auto simp: handler_defs data_defs Let_def deref_def split: option.splits\<close>)


section \<open>Runs of the tool\<close>

text \<open>The operations of an event are allowed one after the other: \<open>omprace_init\<close> comes once and
  before everything else on the graph, callbacks come as the protocol of the detector says, and an
  access is made where a step is on top of the stack.\<close>

fun admitted ::
  "(nat \<Rightarrow> 64 word \<Rightarrow> bool \<Rightarrow> 'a detector_scheme \<Rightarrow> 'a detector_scheme result) \<Rightarrow>
   (64 word \<Rightarrow> 64 word \<Rightarrow> 'a detector_scheme \<Rightarrow> 'a detector_scheme result) \<Rightarrow>
   bool \<Rightarrow> bool \<Rightarrow> action list \<Rightarrow> 'a detector_scheme \<Rightarrow> bool" where
  "admitted check clear free init [] s = True"
| "admitted check clear free init (a # as) s =
     ((case a of
         Started n \<Rightarrow> \<not> init \<and> as = []
       | Captured c \<Rightarrow> if init then allowed c s else (\<exists>n. c = Thread_begin n)
       | Checked n ad ty \<Rightarrow> init \<and> step_on_top n s \<and> (free \<longrightarrow> task_free s)
       | Cleared lw hg \<Rightarrow> init) \<and>
      (case perform check clear a s of Inl e \<Rightarrow> True
       | Inr s' \<Rightarrow> admitted check clear free init as s'))"

text \<open>The accesses an event adds to the history.\<close>

fun log_of ::
  "(nat \<Rightarrow> 64 word \<Rightarrow> bool \<Rightarrow> 'a detector_scheme \<Rightarrow> 'a detector_scheme result) \<Rightarrow>
   (64 word \<Rightarrow> 64 word \<Rightarrow> 'a detector_scheme \<Rightarrow> 'a detector_scheme result) \<Rightarrow>
   action list \<Rightarrow> 'a detector_scheme \<Rightarrow> access list" where
  "log_of check clear [] s = []"
| "log_of check clear (a # as) s =
     (case a of Checked n ad ty \<Rightarrow> logged n ad ty s | _ \<Rightarrow> []) @
     (case perform check clear a s of Inl e \<Rightarrow> [] | Inr s' \<Rightarrow> log_of check clear as s')"

text \<open>Clearing in a build whose entries are cleared by \<open>wipe\<close>; a loop that never ends is a fault.\<close>

definition clearing :: "('m \<Rightarrow> 'm) \<Rightarrow> 64 word \<Rightarrow> 64 word \<Rightarrow> 'm monitor \<Rightarrow> 'm monitor result" where
  "clearing wipe a b s = returned (clear_metadata wipe a b s)"

inductive tool_run ::
  "mode \<Rightarrow> 'm \<Rightarrow> 'm handler \<Rightarrow> ('m \<Rightarrow> 'm) \<Rightarrow> bool \<Rightarrow> access list \<Rightarrow> 'm monitor tool \<Rightarrow> bool"
  for md unset check wipe free where
  load: "tool_run md unset check wipe free [] (ompt_initialize (new_monitor md unset))"
| event: "tool_run md unset check wipe free h t \<Longrightarrow>
    admitted check (clearing wipe) free (omprace_init_flag t) (actions ev t) (omp_racer t) \<Longrightarrow>
    deliver check (clearing wipe) ev t = Inr t' \<Longrightarrow>
    tool_run md unset check wipe free (h @ log_of check (clearing wipe) (actions ev t) (omp_racer t)) t'"

text \<open>A run of the tool is a run of the detector, once \<open>omprace_init\<close> has been called.\<close>

definition simulated ::
  "mode \<Rightarrow> 'm \<Rightarrow> 'm handler \<Rightarrow> ('m \<Rightarrow> 'm) \<Rightarrow> bool \<Rightarrow> access list \<Rightarrow> bool \<Rightarrow> 'm monitor \<Rightarrow> bool" where
  "simulated md unset check wipe free h init s \<longleftrightarrow>
     (if init then checked_run md unset check (Some wipe) free h s
      else h = [] \<and> s = new_monitor md unset)"


text \<open>Only \<open>omprace_init\<close> changes the flag.\<close>

lemma detect_flag: "detect f t = Inr t' \<Longrightarrow> omprace_init_flag t' = omprace_init_flag t"
  by (auto simp: detect_def)

lemma event_flag:
  assumes "handle_event check clear ev t = Inr t'"
  shows "omprace_init_flag t' = (omprace_init_flag t \<or> (\<exists>th i. ev = Tool_init th i))"
  using assms
  by (cases ev) (auto simp: handler_defs data_defs Let_def dest!: detect_flag
      split: if_split_asm scope_endpoint.splits sync_region_kind.splits work_kind.splits prod.splits option.splits)

definition starts :: "action list \<Rightarrow> bool" where
  "starts as \<longleftrightarrow> (\<exists>n. Started n \<in> set as)"

lemma starts_simps [simp]: "\<not> starts []" "starts (a # as) \<longleftrightarrow> (\<exists>n. a = Started n) \<or> starts as"
  by (auto simp: starts_def)

lemma starts_actions: "starts (actions ev t) \<longleftrightarrow> (\<exists>th i. ev = Tool_init th i)"
  by (cases ev) (auto simp: starts_def Let_def split: prod.splits)

lemma simulated_actions:
  assumes "simulated md unset check wipe free h init s"
    and "admitted check (clearing wipe) free init as s"
    and "block (map (perform check (clearing wipe)) as) s = Inr s'"
  shows "simulated md unset check wipe free (h @ log_of check (clearing wipe) as s) (init \<or> starts as) s'"
  using assms
proof (induction as arbitrary: h init s)
  case Nil
  then show ?case by simp
next
  case (Cons a as)
  then obtain u where u: "perform check (clearing wipe) a s = Inr u"
    "block (map (perform check (clearing wipe)) as) u = Inr s'" by auto
  note ih = Cons.IH [OF _ _ u(2)]
  show ?case
  proof (cases a)
    case (Started n)
    then show ?thesis using Cons.prems u by (auto simp: simulated_def intro: checked_run.start)
  next
    case (Captured c)
    show ?thesis
    proof (cases init)
      case True
      then have "simulated md unset check wipe free h True u"
        using Cons.prems u(1) Captured by (auto simp: simulated_def intro: checked_run.callback)
      then show ?thesis using ih [of h True] Cons.prems(2) u(1) Captured True by simp
    next
      case False
      then have "u = s" using Cons.prems(2) u(1) Captured by (auto simp: m_capture_thread_begin_def)
      then show ?thesis using ih [of h False] Cons.prems u(1) Captured False by simp
    qed
  next
    case (Checked n ad ty)
    then have "simulated md unset check wipe free (h @ logged n ad ty s) True u" "init"
      using Cons.prems u(1) by (auto simp: simulated_def intro: checked_run.access)
    then show ?thesis using ih [of "h @ logged n ad ty s" True] Cons.prems(2) u(1) Checked by simp
  next
    case (Cleared x y)
    then have "simulated md unset check wipe free h True u" "init"
      using Cons.prems u(1) by (auto simp: simulated_def clearing_def intro: checked_run.clear)
    then show ?thesis using ih [of h True] Cons.prems(2) u(1) Cleared by simp
  qed
qed

lemma tool_run_simulated:
  "tool_run md unset check wipe free h t \<Longrightarrow>
     simulated md unset check wipe free h (omprace_init_flag t) (omp_racer t)"
proof (induction rule: tool_run.induct)
  case load
  then show ?case by (simp add: simulated_def ompt_initialize_def)
next
  case (event h t ev t')
  have run: "handle_event check (clearing wipe) ev t = Inr t'" using event(3) by (simp add: deliver_handles)
  then have "proper ev t" using improper_stops by (metis Inl_Inr_False)
  from handle_event_refines [OF this, of check "clearing wipe"]
  have "block (map (perform check (clearing wipe)) (actions ev t)) (omp_racer t) = Inr (omp_racer t')"
    by (simp add: run)
  from simulated_actions [OF event.IH event(2) this]
  show ?case by (simp add: event_flag [OF run] starts_actions)
qed

section \<open>Task ids\<close>

lemma detect_data: "detect f t = Inr t' \<Longrightarrow> task_ptr t' = task_ptr t \<and> OMPRACE_TASK_ID t' = OMPRACE_TASK_ID t"
  by (auto simp: detect_def)

lemma event_ids:
  assumes "handle_event check clear ev t = Inr t'"
  shows "OMPRACE_TASK_ID t' = OMPRACE_TASK_ID t \<and> task_ptr t' \<subseteq>\<^sub>m task_ptr t \<or>
    (\<exists>i. OMPRACE_TASK_ID t' = OMPRACE_TASK_ID t + 1 \<and>
         task_ptr t' = (task_ptr t)(i \<mapsto> \<lparr>task_id = OMPRACE_TASK_ID t\<rparr>))" (is "?old \<or> (\<exists>i. ?new i)")
proof (cases ev)
  case (Implicit_task th e r i f)
  then have "(e = Scope_begin \<longrightarrow> ?new i) \<and> (e = Scope_end \<longrightarrow> ?old)" using assms
    by (auto simp: on_ompt_callback_implicit_task_def data_defs map_le_def Let_def dest!: detect_data
        split: if_split_asm)
  then show ?thesis by (cases e) blast+
next
  case (Task_create th i j ty d r)
  then have "?new j \<or> ?old" using assms
    by (auto simp: on_ompt_callback_task_create_def data_defs Let_def dest!: detect_data split: if_split_asm)
  then show ?thesis by blast
qed (use assms in \<open>auto simp: handler_defs data_defs Let_def map_le_def dest!: detect_data
  split: if_split_asm scope_endpoint.splits sync_region_kind.splits work_kind.splits prod.splits
    option.splits\<close>)

definition ids_distinct :: "nat \<Rightarrow> 'd tool \<Rightarrow> bool" where
  "ids_distinct n t \<longleftrightarrow> 0 < unat (OMPRACE_TASK_ID t) \<and> unat (OMPRACE_TASK_ID t) \<le> Suc n \<and>
     (\<forall>i a. task_ptr t i = Some a \<longrightarrow> task_id a \<noteq> 0 \<and> task_id a < OMPRACE_TASK_ID t) \<and>
     (\<forall>i j a b. task_ptr t i = Some a \<and> task_ptr t j = Some b \<and> task_id a = task_id b \<longrightarrow> i = j)"

lemma event_ids_distinct:
  assumes "ids_distinct n t" and "handle_event check clear ev t = Inr t'" and "n + 2 < 2 ^ 64"
  shows "ids_distinct (Suc n) t'"
  using event_ids [OF assms(2)]
proof
  assume "OMPRACE_TASK_ID t' = OMPRACE_TASK_ID t \<and> task_ptr t' \<subseteq>\<^sub>m task_ptr t"
  then have "task_ptr t i = Some a" if "task_ptr t' i = Some a" for i a
    using that by (metis domI map_le_def)
  moreover have "OMPRACE_TASK_ID t' = OMPRACE_TASK_ID t"
    using \<open>OMPRACE_TASK_ID t' = OMPRACE_TASK_ID t \<and> _\<close> ..
  ultimately show ?thesis using assms(1) unfolding ids_distinct_def by (simp add: le_Suc_eq) blast
next
  assume "\<exists>i. OMPRACE_TASK_ID t' = OMPRACE_TASK_ID t + 1 \<and>
      task_ptr t' = (task_ptr t)(i \<mapsto> \<lparr>task_id = OMPRACE_TASK_ID t\<rparr>)"
  then obtain k where k: "OMPRACE_TASK_ID t' = OMPRACE_TASK_ID t + 1"
    "task_ptr t' = (task_ptr t)(k \<mapsto> \<lparr>task_id = OMPRACE_TASK_ID t\<rparr>)" by blast
  have i: "0 < unat (OMPRACE_TASK_ID t)" "unat (OMPRACE_TASK_ID t) \<le> Suc n"
      "\<And>i a. task_ptr t i = Some a \<Longrightarrow> task_id a \<noteq> 0 \<and> task_id a < OMPRACE_TASK_ID t"
      "\<And>i j a b. task_ptr t i = Some a \<Longrightarrow> task_ptr t j = Some b \<Longrightarrow> task_id a = task_id b \<Longrightarrow> i = j"
    using assms(1) unfolding ids_distinct_def by blast+
  have n: "unat (OMPRACE_TASK_ID t + 1) = unat (OMPRACE_TASK_ID t) + 1"
    using i(2) assms(3) by (subst unat_word_ariths) simp
  then have lt: "w < OMPRACE_TASK_ID t + 1 \<longleftrightarrow> w < OMPRACE_TASK_ID t \<or> w = OMPRACE_TASK_ID t" for w
    by (auto simp: word_less_nat_alt less_Suc_eq word_unat_eq_iff)
  show ?thesis
    unfolding ids_distinct_def k
  proof (intro conjI allI impI)
    show "0 < unat (OMPRACE_TASK_ID t + 1)" "unat (OMPRACE_TASK_ID t + 1) \<le> Suc (Suc n)"
      using n i(2) by simp_all
    show "task_id a \<noteq> 0" "task_id a < OMPRACE_TASK_ID t + 1"
      if "((task_ptr t)(k \<mapsto> \<lparr>task_id = OMPRACE_TASK_ID t\<rparr>)) j = Some a" for j a
      using that i(1,3) lt by (auto split: if_splits)
    show "ia = j" if "((task_ptr t)(k \<mapsto> \<lparr>task_id = OMPRACE_TASK_ID t\<rparr>)) ia = Some a \<and>
        ((task_ptr t)(k \<mapsto> \<lparr>task_id = OMPRACE_TASK_ID t\<rparr>)) j = Some b \<and> task_id a = task_id b" for ia j a b
      using that i(3,4) by (force split: if_splits)
  qed
qed

lemma events_ids_distinct:
  "ids_distinct n t \<Longrightarrow> block (map (deliver check clear) evs) t = Inr t' \<Longrightarrow> n + length evs + 1 < 2 ^ 64 \<Longrightarrow>
     ids_distinct (n + length evs) t'"
proof (induction evs arbitrary: n t)
  case (Cons ev evs)
  then obtain u where u: "handle_event check clear ev t = Inr u"
    "block (map (deliver check clear) evs) u = Inr t'"
    using deliver_handles [of check clear ev t] by auto
  show ?case using Cons.IH [OF event_ids_distinct [OF Cons.prems(1) u(1)] u(2)] Cons.prems(3) by simp
qed simp


section \<open>Concrete runs\<close>

fun play_events ::
  "'m handler \<Rightarrow> ('m \<Rightarrow> 'm) \<Rightarrow> bool \<Rightarrow> ompt_event list \<Rightarrow> access list \<Rightarrow> 'm monitor tool \<Rightarrow>
     (access list \<times> 'm monitor tool) option" where
  "play_events check wipe free [] h t = Some (h, t)"
| "play_events check wipe free (ev # evs) h t =
     (if admitted check (clearing wipe) free (omprace_init_flag t) (actions ev t) (omp_racer t)
      then case handle_event check (clearing wipe) ev t of
             Inl e \<Rightarrow> None
           | Inr t' \<Rightarrow> play_events check wipe free evs
               (h @ log_of check (clearing wipe) (actions ev t) (omp_racer t)) t'
      else None)"

lemma play_events_tool_run:
  "tool_run md unset check wipe free h t \<Longrightarrow> play_events check wipe free evs h t = Some (h', t') \<Longrightarrow>
     tool_run md unset check wipe free h' t'"
proof (induction check wipe free evs h t rule: play_events.induct)
  case (2 check wipe free ev evs h t)
  then show ?case
    using tool_run.event [unfolded deliver_handles, OF 2(2)]
    by (auto split: if_split_asm sum.splits)
qed simp

text \<open>A region of two threads that access a word, each inside a critical section.\<close>

definition locked_run :: "ompt_event list" where
  "locked_run =
     [Thread_start 0 0 4096 4096, Implicit_task 0 Scope_begin (Some 0) 0 ompt_task_initial,
      Tool_init 0 0, Thread_start 1 1 8192 4096, Region_begin 4 0 0 1 2,
      Implicit_task 0 Scope_begin (Some 1) 1 ompt_task_implicit,
      Implicit_task 1 Scope_begin (Some 1) 2 ompt_task_implicit,
      Mutex 0 CB_mutex_acquired 7, Instrumented 0 64 1, Mutex 0 CB_mutex_released 7,
      Mutex 1 CB_mutex_acquired 7, Instrumented 1 66 0, Mutex 1 CB_mutex_released 7]"

lemmas tool_eval = handler_defs data_defs task_flags detect_def ompt_initialize_def
  set_lowest_accessed_addr_def no_accessed_addr_def locked_run_def

section \<open>What a run of the tool records\<close>

text \<open>Driven by OMPT events in any order the protocol admits, with the stacks and the memory of
  finished tasks cleared, the fast build records only races of the accesses made since
  \<open>omprace_init\<close>.\<close>

lemma tool_run_reports:
  assumes "tool_run Fast unset_word m_instrument_access (setRead12Write 0 0 0 []) free h t"
    and "valid (m_violations (omp_racer t) i)"
  shows "real_race h (omp_racer t) (m_violations (omp_racer t) i)"
proof -
  have sim: "simulated Fast unset_word m_instrument_access (setRead12Write 0 0 0 []) free h
      (omprace_init_flag t) (omp_racer t)" by (rule tool_run_simulated [OF assms(1)])
  show ?thesis
  proof (cases "omprace_init_flag t")
    case True
    then have "fast_run True free h (omp_racer t)" using sim by (simp add: simulated_def)
    then show ?thesis using fast.races_are_real assms(2) by simp
  next
    case False
    then show ?thesis using sim assms(2)
      by (simp add: simulated_def new_monitor_def detector.defs OpenmpRaceDetector_def Let_def no_violation_def)
  qed
qed

section \<open>Properties\<close>



text \<open>C32: The ids of the tasks that are alive are distinct and not 0, the id the detector takes for
  no task, as long as fewer than \<open>2^64 - 1\<close> events have been handled, whatever the events.\<close>

theorem live_task_ids_distinct:
  assumes "block (map (deliver check clear) evs) (ompt_initialize d) = Inr t"
    and "length evs + 1 < 2 ^ 64"
    and "task_ptr t i = Some a" "task_ptr t j = Some b" "i \<noteq> j"
  shows "task_id a \<noteq> task_id b \<and> task_id a \<noteq> 0"
proof -
  have "ids_distinct 0 (ompt_initialize d)" by (simp add: ids_distinct_def ompt_initialize_def)
  from events_ids_distinct [OF this assms(1)] assms(2) have "ids_distinct (length evs) t" by simp
  then show ?thesis using assms(3-5) unfolding ids_distinct_def by blast
qed

theorem live_task_ids_distinct_witness:
  "\<exists>t a b. block (map (deliver m_instrument_access (clearing (setRead12Write 0 0 0 []))) (take 6 locked_run))
     (ompt_initialize (new_monitor Fast unset_word)) = Inr t \<and>
     task_ptr t 0 = Some a \<and> task_ptr t 1 = Some b \<and> task_id a \<noteq> task_id b"
proof -
  obtain t a b where
    "block (map (deliver m_instrument_access (clearing (setRead12Write 0 0 0 []))) (take 6 locked_run))
       (ompt_initialize (new_monitor Fast unset_word)) = Inr t"
    "task_ptr t 0 = Some a" "task_ptr t 1 = Some b"
    unfolding deliver_handles [abs_def]
    by (simp add: tool_eval fast_eval cong: and_then_weak_cong)
  then show ?thesis using live_task_ids_distinct [of _ _ "take 6 locked_run" _ t 0 a 1 b]
    by (auto simp: locked_run_def)
qed


end
