(* ===== verification/Inst_Pass.thy ===== *)
theory Inst_Pass
  imports Prelude "HOL-Library.Sublist" "HOL-Library.Multiset"
begin

text \<open>
  The compiler pass (\<open>inst_pass/*/DataAnnotation.cpp\<close>): it chooses the loads and stores of a
  function that are instrumented and puts a call of \<open>__omprace_instrument_access__\<close> before each.
  What LLVM answers about values and instructions is a parameter, the record \<open>llvm\<close> (documented
  LLVM queries, values are of a type \<open>'v\<close>); counters and messages are left out. The two
  versions of the pass differ in \<open>instrumentLoadOrStore\<close> only, and both are modelled.
\<close>

section \<open>Instructions and what LLVM says of them\<close>

record global_variable =
  gv_section :: "string option"
  gv_name :: string
  gv_constant :: bool

record 'v llvm =
  stripInBoundsOffsets :: "'v \<Rightarrow> 'v"
  as_global :: "'v \<Rightarrow> global_variable option"
  getPointerAddressSpace :: "'v \<Rightarrow> nat"
  gep_pointer :: "'v \<Rightarrow> 'v option"
  loaded_vtable :: "'v \<Rightarrow> bool option"
  underlying_alloca :: "'v \<Rightarrow> bool"
  PointerMayBeCaptured :: "'v \<Rightarrow> bool"
  isSwiftError :: "'v \<Rightarrow> bool"
  getName :: "'v \<Rightarrow> string"
  store_size_in_bits :: "'v \<Rightarrow> nat"
  cnts_section :: string

datatype 'v opcode =
    LoadInst 'v
  | StoreInst 'v 'v
  | AtomicRMWInst
  | AtomicCmpXchgInst
  | FenceInst
  | CallInst bool
  | InvokeInst
  | OtherInst

text \<open>An instruction with its address, whether it is atomic and between threads of one process
  only, and its debug location.\<close>

record 'v instruction =
  inst_ptr :: nat
  opcode :: "'v opcode"
  is_atomic :: bool
  single_thread :: bool
  debug_loc :: "(string \<times> nat) option"

definition is_load :: "'v instruction \<Rightarrow> bool" where
  "is_load I = (case opcode I of LoadInst p \<Rightarrow> True | _ \<Rightarrow> False)"

definition is_store :: "'v instruction \<Rightarrow> bool" where
  "is_store I = (case opcode I of StoreInst v p \<Rightarrow> True | _ \<Rightarrow> False)"

definition pointer_operand :: "'v instruction \<Rightarrow> 'v option" where
  "pointer_operand I = (case opcode I of LoadInst p \<Rightarrow> Some p | StoreInst v p \<Rightarrow> Some p | _ \<Rightarrow> None)"

definition operands :: "'v instruction \<Rightarrow> 'v list" where
  "operands I = (case opcode I of LoadInst p \<Rightarrow> [p] | StoreInst v p \<Rightarrow> [v, p] | _ \<Rightarrow> [])"

definition isAtomic :: "'v instruction \<Rightarrow> bool" where
  "isAtomic I =
     (case opcode I of
        LoadInst p \<Rightarrow> is_atomic I \<and> \<not> single_thread I
      | StoreInst v p \<Rightarrow> is_atomic I \<and> \<not> single_thread I
      | AtomicRMWInst \<Rightarrow> True
      | AtomicCmpXchgInst \<Rightarrow> True
      | FenceInst \<Rightarrow> True
      | _ \<Rightarrow> False)"

definition shouldInstrumentReadWriteFromAddress :: "'v llvm \<Rightarrow> 'v \<Rightarrow> bool" where
  "shouldInstrumentReadWriteFromAddress L Addr =
     (let Addr = stripInBoundsOffsets L Addr in
      (case as_global L Addr of
         None \<Rightarrow> True
       | Some GV \<Rightarrow>
           (case gv_section GV of
              None \<Rightarrow> True
            | Some SectionName \<Rightarrow> \<not> suffix (cnts_section L) SectionName) \<and>
           \<not> (prefix ''__llvm_gcov'' (gv_name GV) \<or> prefix ''__llvm_gcda'' (gv_name GV))) \<and>
      getPointerAddressSpace L Addr = 0)"

definition addrPointsToConstantData :: "'v llvm \<Rightarrow> 'v \<Rightarrow> bool" where
  "addrPointsToConstantData L Addr =
     (let Addr = (case gep_pointer L Addr of None \<Rightarrow> Addr | Some p \<Rightarrow> p) in
      case as_global L Addr of
        Some GV \<Rightarrow> gv_constant GV
      | None \<Rightarrow> loaded_vtable L Addr = Some True)"

section \<open>Choosing what is instrumented\<close>

text \<open>The body of the first loop, from the last instruction of \<open>Local\<close> to the first;
  \<open>Chosen\<close> is the vector \<open>All\<close> of the code.\<close>

definition choose_push :: "'v llvm \<Rightarrow> 'v instruction \<Rightarrow> 'v \<Rightarrow> 'v instruction list \<Rightarrow> 'v instruction list"
  where
  "choose_push L I Addr Chosen =
     (if underlying_alloca L Addr \<and> \<not> PointerMayBeCaptured L Addr then Chosen else Chosen @ [I])"

definition choose_step ::
  "'v llvm \<Rightarrow> 'v instruction \<Rightarrow> 'v set \<times> 'v instruction list \<Rightarrow> 'v set \<times> 'v instruction list" where
  "choose_step L I st =
     (let (WriteTargets, Chosen) = st in
      case opcode I of
        StoreInst v Addr \<Rightarrow>
          if \<not> shouldInstrumentReadWriteFromAddress L Addr then (WriteTargets, Chosen)
          else (insert Addr WriteTargets, choose_push L I Addr Chosen)
      | LoadInst Addr \<Rightarrow>
          if \<not> shouldInstrumentReadWriteFromAddress L Addr then (WriteTargets, Chosen)
          else if Addr \<in> WriteTargets then (WriteTargets, Chosen)
          else if addrPointsToConstantData L Addr then (WriteTargets, Chosen)
          else (WriteTargets, choose_push L I Addr Chosen)
      | _ \<Rightarrow> (WriteTargets, Chosen))"

definition omp_names :: "string list" where
  "omp_names =
     [''.omp.iv'', ''.omp.lb'', ''.omp.ub'', ''.omp.stride'', ''.omp.is_last'', ''.global_tid'']"

definition has_omp_operand :: "'v llvm \<Rightarrow> 'v instruction \<Rightarrow> bool" where
  "has_omp_operand L I \<longleftrightarrow> (\<exists>x \<in> set (operands I). getName L x \<in> set omp_names)"

text \<open>The second loop runs an iterator over \<open>Chosen\<close> and erases where it stands; the iterator then
  steps on, over the element that took the erased one's place.\<close>

function erase_loop :: "('i \<Rightarrow> bool) \<Rightarrow> nat \<Rightarrow> 'i list \<Rightarrow> 'i list" where
  "erase_loop P it Chosen =
     (if it < length Chosen
      then erase_loop P (Suc it) (if P (Chosen ! it) then take it Chosen @ drop (Suc it) Chosen else Chosen)
      else Chosen)"
  by pat_completeness auto
termination by (relation "measure (\<lambda>(P, it, Chosen). length Chosen - it)") auto

declare erase_loop.simps [simp del]

text \<open>\<open>Local\<close> is empty afterwards.\<close>

definition chooseInstructionsToInstrument ::
  "'v llvm \<Rightarrow> 'v instruction list \<Rightarrow> 'v instruction list \<Rightarrow> 'v instruction list" where
  "chooseInstructionsToInstrument L Local Chosen =
     (let (WriteTargets, Chosen) = fold (choose_step L) (rev Local) ({}, Chosen)
      in erase_loop (has_omp_operand L) 0 Chosen)"

section \<open>The function\<close>

text \<open>The traversal of a block; the state is \<open>Local\<close>, \<open>Chosen\<close>. Atomic accesses are collected and not
  instrumented.\<close>

fun collect_block ::
  "'v llvm \<Rightarrow> 'v instruction list \<Rightarrow> 'v instruction list \<Rightarrow> 'v instruction list \<Rightarrow> 'v instruction list"
  where
  "collect_block L [] Local Chosen = chooseInstructionsToInstrument L Local Chosen"
| "collect_block L (I # BB) Local Chosen =
     (if isAtomic I then collect_block L BB Local Chosen
      else case opcode I of
        LoadInst p \<Rightarrow> collect_block L BB (Local @ [I]) Chosen
      | StoreInst v p \<Rightarrow> collect_block L BB (Local @ [I]) Chosen
      | CallInst m \<Rightarrow> collect_block L BB [] (chooseInstructionsToInstrument L Local Chosen)
      | InvokeInst \<Rightarrow> collect_block L BB [] (chooseInstructionsToInstrument L Local Chosen)
      | _ \<Rightarrow> collect_block L BB Local Chosen)"

definition collect_function :: "'v llvm \<Rightarrow> 'v instruction list list \<Rightarrow> 'v instruction list" where
  "collect_function L F = fold (\<lambda>BB Chosen. collect_block L BB [] Chosen) F []"

definition skipped_function :: "string \<Rightarrow> bool \<Rightarrow> bool" where
  "skipped_function functionName available_externally \<longleftrightarrow>
     suffix ''_dtor'' functionName \<or> suffix ''__omprace__'' functionName \<or>
     suffix ''__clang_call_terminate'' functionName \<or>
     prefix ''.omp.reduction.reduction_func'' functionName \<or> available_externally"

text \<open>The call that is put before an instruction: its address, its kind and its location.\<close>

record 'v access_call =
  before_inst :: nat
  call_addr :: 'v
  call_type :: nat
  call_loc :: "string option"

text \<open>The location \<open>File:Line\<close> of an instruction as a string; \<open>decimal\<close> is \<open>std::to_string\<close>.\<close>

fun decimal :: "nat \<Rightarrow> string" where
  "decimal n =
     (if n < 10 then [char_of (48 + n)] else decimal (n div 10) @ [char_of (48 + n mod 10)])"

declare decimal.simps [simp del]

definition location :: "'v instruction \<Rightarrow> string" where
  "location I = (case debug_loc I of None \<Rightarrow> ''none:0'' | Some (File, Line) \<Rightarrow> File @ '':'' @ decimal Line)"

text \<open>The version with locations. \<open>fresh\<close> is the global variable that LLVM makes for the location
  of the instruction; it is remembered in \<open>DontInstrument\<close>.\<close>

definition instrumentLoadOrStore_loc ::
  "'v llvm \<Rightarrow> (nat \<Rightarrow> 'v) \<Rightarrow> 'v instruction \<Rightarrow> 'v set \<times> 'v access_call list \<Rightarrow> 'v set \<times> 'v access_call list"
  where
  "instrumentLoadOrStore_loc L fresh I st =
     (let (DontInstrument, calls) = st; IsWrite = is_store I in
      case pointer_operand I of
        None \<Rightarrow> st
      | Some Addr \<Rightarrow>
          if isSwiftError L Addr then st
          else if Addr \<in> DontInstrument then st
          else (insert (fresh (inst_ptr I)) DontInstrument,
                calls @ [\<lparr>before_inst = inst_ptr I, call_addr = Addr,
                          call_type = (if IsWrite then 1 else 0), call_loc = Some (location I)\<rparr>]))"

text \<open>The version without; accesses of an unusual size are not instrumented.\<close>

definition countTrailingZeros :: "nat \<Rightarrow> nat" where
  "countTrailingZeros n = (if n = 0 then 32 else length (takeWhile (\<lambda>k. n mod 2 ^ Suc k = 0) [0..<32]))"

definition getMemoryAccessFuncIndex :: "'v llvm \<Rightarrow> 'v \<Rightarrow> int" where
  "getMemoryAccessFuncIndex L Addr =
     (let TypeSize = store_size_in_bits L Addr in
      if TypeSize \<noteq> 8 \<and> TypeSize \<noteq> 16 \<and> TypeSize \<noteq> 32 \<and> TypeSize \<noteq> 64 \<and> TypeSize \<noteq> 128 then -1
      else int (countTrailingZeros (TypeSize div 8)))"

definition instrumentLoadOrStore ::
  "'v llvm \<Rightarrow> 'v instruction \<Rightarrow> 'v access_call list \<Rightarrow> 'v access_call list" where
  "instrumentLoadOrStore L I calls =
     (let IsWrite = is_store I in
      case pointer_operand I of
        None \<Rightarrow> calls
      | Some Addr \<Rightarrow>
          if isSwiftError L Addr then calls
          else if getMemoryAccessFuncIndex L Addr < 0 then calls
          else calls @ [\<lparr>before_inst = inst_ptr I, call_addr = Addr,
                         call_type = (if IsWrite then 1 else 0), call_loc = None\<rparr>])"

definition runOnFunction_loc ::
  "'v llvm \<Rightarrow> (nat \<Rightarrow> 'v) \<Rightarrow> string \<Rightarrow> bool \<Rightarrow> 'v instruction list list \<Rightarrow> 'v set \<Rightarrow>
     'v set \<times> 'v access_call list" where
  "runOnFunction_loc L fresh name available_externally F DontInstrument =
     (if skipped_function name available_externally then (DontInstrument, [])
      else fold (instrumentLoadOrStore_loc L fresh) (collect_function L F) (DontInstrument, []))"

definition runOnFunction ::
  "'v llvm \<Rightarrow> string \<Rightarrow> bool \<Rightarrow> 'v instruction list list \<Rightarrow> 'v access_call list" where
  "runOnFunction L name available_externally F =
     (if skipped_function name available_externally then []
      else fold (instrumentLoadOrStore L) (collect_function L F) [])"


section \<open>The loops of the choice\<close>

text \<open>The erasing loop as a recursion on the list: an erased element hides the next one.\<close>

fun erase_and_skip :: "('i \<Rightarrow> bool) \<Rightarrow> 'i list \<Rightarrow> 'i list" where
  "erase_and_skip P [] = []"
| "erase_and_skip P [x] = (if P x then [] else [x])"
| "erase_and_skip P (x # y # ys) =
     (if P x then y # erase_and_skip P ys else x # erase_and_skip P (y # ys))"

lemma erase_loop_skip: "it \<le> length xs \<Longrightarrow> erase_loop P it xs = take it xs @ erase_and_skip P (drop it xs)"
proof (induction "length xs - it" arbitrary: it xs rule: less_induct)
  case less
  show ?case
  proof (cases "it < length xs")
    case False
    then have "erase_loop P it xs = xs" by (simp add: erase_loop.simps [of P it xs])
    then show ?thesis using less.prems False by simp
  next
    case True
    let ?ys = "if P (xs ! it) then take it xs @ drop (Suc it) xs else xs"
    have d: "drop it xs = xs ! it # drop (Suc it) xs" using True by (simp add: Cons_nth_drop_Suc)
    have run: "erase_loop P it xs = erase_loop P (Suc it) ?ys"
      using True by (subst erase_loop.simps) simp
    show ?thesis
    proof (cases "drop (Suc it) xs")
      case Nil
      then have last: "length xs = Suc it" using True by simp
      have "erase_loop P (Suc it) ?ys = ?ys" using last by (subst erase_loop.simps) auto
      then show ?thesis using run d Nil last take_Suc_conv_app_nth [OF True] by simp
    next
      case (Cons y ys)
      then have len: "Suc it < length xs" by (metis drop_all linorder_not_less list.distinct(1))
      have "erase_loop P (Suc it) ?ys = take (Suc it) ?ys @ erase_and_skip P (drop (Suc it) ?ys)"
        by (rule less.hyps) (use len in auto)
      then show ?thesis using run d Cons len True take_Suc_conv_app_nth [OF True] by auto
    qed
  qed
qed

lemma erase_and_skip_subseq: "subseq (erase_and_skip P xs) xs"
  by (induction P xs rule: erase_and_skip.induct) auto

lemma erase_and_skip_keeps: "x \<in> set xs \<Longrightarrow> \<not> P x \<Longrightarrow> x \<in> set (erase_and_skip P xs)"
  by (induction P xs rule: erase_and_skip.induct) auto

lemma erase_loop_0: "erase_loop P 0 xs = erase_and_skip P xs"
  by (simp add: erase_loop_skip)

text \<open>The first loop adds a part of \<open>Local\<close>, from its end to its start.\<close>

lemma choose_step_adds: "\<exists>ys. snd (choose_step L I st) = snd st @ ys \<and> subseq ys [I]"
  by (cases st; cases "opcode I") (auto simp: choose_step_def choose_push_def Let_def)

lemma choose_fold_adds:
  "\<exists>ys. snd (fold (choose_step L) Is st) = snd st @ ys \<and> subseq ys Is"
proof (induction Is arbitrary: st)
  case (Cons I Is)
  obtain ys where ys: "snd (choose_step L I st) = snd st @ ys" "subseq ys [I]"
    using choose_step_adds by blast
  obtain zs where zs: "snd (fold (choose_step L) Is (choose_step L I st)) =
      snd (choose_step L I st) @ zs" "subseq zs Is" using Cons.IH by blast
  have "subseq (ys @ zs) ([I] @ Is)" using ys(2) zs(2) by (rule list_emb_append_mono)
  then show ?case using ys(1) zs(1) by auto
qed simp

text \<open>An access that can take part in a race as far as the pass sees.\<close>

definition shared :: "'v llvm \<Rightarrow> 'v \<Rightarrow> bool" where
  "shared L p \<longleftrightarrow> shouldInstrumentReadWriteFromAddress L p \<and>
     \<not> (underlying_alloca L p \<and> \<not> PointerMayBeCaptured L p)"

definition racy :: "'v llvm \<Rightarrow> 'v instruction \<Rightarrow> bool" where
  "racy L I \<longleftrightarrow> (\<exists>p. pointer_operand I = Some p \<and> shared L p \<and>
     (is_load I \<longrightarrow> \<not> addrPointsToConstantData L p))"

lemma write_targets_stored:
  assumes "fold (choose_step L) (rev post) ({}, A) = (W, B)" and "p \<in> W" and "shared L p"
  shows "\<exists>J \<in> set post. is_store J \<and> pointer_operand J = Some p \<and> J \<in> set B"
  using assms(1,2)
proof (induction post arbitrary: W B)
  case (Cons J post)
  obtain V C where VC: "fold (choose_step L) (rev post) ({}, A) = (V, C)" by fastforce
  have st: "choose_step L J (V, C) = (W, B)" using Cons.prems(1) VC by simp
  have sub: "set C \<subseteq> set B" using choose_step_adds [of L J "(V, C)"] st by auto
  show ?case
  proof (cases "p \<in> V")
    case True
    then show ?thesis using Cons.IH [OF VC] sub by auto
  next
    case False
    then show ?thesis using st Cons.prems(2) assms(3)
      by (cases "opcode J") (auto simp: choose_step_def choose_push_def Let_def is_store_def
          pointer_operand_def shared_def split: if_split_asm)
  qed
qed simp

lemma choose_covers:
  assumes seg: "Local = pre @ I # post" and "racy L I"
    and run: "fold (choose_step L) (rev Local) ({}, A) = (W, B)"
  shows "I \<in> set B \<or>
    is_load I \<and> (\<exists>J \<in> set post. is_store J \<and> pointer_operand J = pointer_operand I \<and> J \<in> set B)"
proof -
  obtain p where p: "pointer_operand I = Some p" "shared L p" "is_load I \<longrightarrow> \<not> addrPointsToConstantData L p"
    using assms(2) by (auto simp: racy_def)
  obtain V C where VC: "fold (choose_step L) (rev post) ({}, A) = (V, C)" by fastforce
  obtain V' C' where st: "choose_step L I (V, C) = (V', C')" by fastforce
  have run': "fold (choose_step L) (rev pre) (V', C') = (W, B)" using run VC st by (simp add: seg)
  have sub: "set C' \<subseteq> set B" using choose_fold_adds [of L "rev pre" "(V', C')"] run' by auto
  have sub': "set C \<subseteq> set C'" using choose_step_adds [of L I "(V, C)"] st by auto
  show ?thesis
  proof (cases "is_load I \<and> p \<in> V")
    case True
    then obtain J where "J \<in> set post" "is_store J" "pointer_operand J = Some p" "J \<in> set C"
      using write_targets_stored [OF VC _ p(2)] by blast
    then show ?thesis using True p(1) sub sub' by auto
  next
    case False
    then have "I \<in> set C'" using st p
      by (cases "opcode I") (auto simp: choose_step_def choose_push_def Let_def is_load_def
          pointer_operand_def shared_def split: if_split_asm)
    then show ?thesis using sub by blast
  qed
qed

section \<open>The traversal\<close>

text \<open>The reference: a block as its segments between calls, without the atomic accesses.\<close>

fun segments :: "'v instruction list \<Rightarrow> 'v instruction list list" where
  "segments [] = [[]]"
| "segments (I # BB) =
     (if isAtomic I then segments BB
      else if is_load I \<or> is_store I then (I # hd (segments BB)) # tl (segments BB)
      else case opcode I of
        CallInst m \<Rightarrow> [] # segments BB
      | InvokeInst \<Rightarrow> [] # segments BB
      | _ \<Rightarrow> segments BB)"

lemma segments_not_Nil [simp]: "segments BB \<noteq> []"
  by (induction BB) (auto split: opcode.splits)

lemma collect_block_segments:
  "collect_block L BB Local A =
     fold (chooseInstructionsToInstrument L) ((Local @ hd (segments BB)) # tl (segments BB)) A"
proof (induction L BB Local A rule: collect_block.induct)
  case (2 L I BB Local A)
  obtain seg segs where s: "segments BB = seg # segs" by (cases "segments BB") simp_all
  show ?case
  proof (cases "isAtomic I")
    case True
    then show ?thesis using 2(1) by simp
  next
    case False
    then show ?thesis using 2(2-)
      by (cases "opcode I") (simp_all add: is_load_def is_store_def s)
  qed
qed simp

lemma collect_function_segments:
  "collect_function L F = fold (chooseInstructionsToInstrument L) (concat (map segments F)) []"
proof -
  have "collect_block L BB [] A = fold (chooseInstructionsToInstrument L) (segments BB) A" for BB A
    using collect_block_segments [of L BB "[]" A] by simp
  then have "fold (\<lambda>BB A. collect_block L BB [] A) F A =
      fold (chooseInstructionsToInstrument L) (concat (map segments F)) A" for A
    by (induction F arbitrary: A) (simp_all add: fold_append)
  then show ?thesis by (simp add: collect_function_def)
qed


section \<open>What is chosen\<close>

lemma choose_adds:
  "\<exists>ys. chooseInstructionsToInstrument L Local A = erase_and_skip (has_omp_operand L) (A @ ys) \<and>
     subseq ys (rev Local)"
proof -
  obtain W B where WB: "fold (choose_step L) (rev Local) ({}, A) = (W, B)" by fastforce
  then show ?thesis
    using choose_fold_adds [of L "rev Local" "({}, A)"]
    by (auto simp: chooseInstructionsToInstrument_def erase_loop_0)
qed

lemma choose_keeps:
  "I \<in> set A \<Longrightarrow> \<not> has_omp_operand L I \<Longrightarrow> I \<in> set (chooseInstructionsToInstrument L Local A)"
  using choose_adds [of L Local A] by (auto intro!: erase_and_skip_keeps)

lemma choose_fold_keeps:
  "I \<in> set A \<Longrightarrow> \<not> has_omp_operand L I \<Longrightarrow> I \<in> set (fold (chooseInstructionsToInstrument L) segs A)"
  by (induction segs arbitrary: A) (auto intro: choose_keeps)

lemma choose_subseq:
  "subseq A xs \<Longrightarrow> subseq (chooseInstructionsToInstrument L Local A) (xs @ rev Local)"
  using choose_adds [of L Local A] erase_and_skip_subseq [of "has_omp_operand L"]
  by (metis list_emb_append_mono subseq_order.trans)

lemma choose_fold_subseq:
  "subseq A xs \<Longrightarrow> subseq (fold (chooseInstructionsToInstrument L) segs A) (xs @ concat (map rev segs))"
proof (induction segs arbitrary: A xs)
  case (Cons seg segs)
  show ?case using Cons.IH [OF choose_subseq [OF Cons.prems, of L seg]] by simp
qed simp

lemma choose_segment_covers:
  assumes "racy L I" and "\<not> has_omp_operand L I"
  shows "I \<in> set (chooseInstructionsToInstrument L (pre @ I # post) A) \<or>
    is_load I \<and> (\<exists>J \<in> set post. is_store J \<and> pointer_operand J = pointer_operand I \<and>
      (J \<in> set (chooseInstructionsToInstrument L (pre @ I # post) A) \<or> has_omp_operand L J))"
proof -
  obtain W B where WB: "fold (choose_step L) (rev (pre @ I # post)) ({}, A) = (W, B)" by fastforce
  then have c: "chooseInstructionsToInstrument L (pre @ I # post) A = erase_and_skip (has_omp_operand L) B"
    by (simp add: chooseInstructionsToInstrument_def erase_loop_0)
  show ?thesis
    using choose_covers [OF refl assms(1) WB] assms(2) erase_and_skip_keeps [of _ B "has_omp_operand L"]
    unfolding c by blast
qed

lemma collect_function_covers:
  assumes "BB \<in> set F" and "pre @ I # post \<in> set (segments BB)" and "racy L I"
    and "\<not> has_omp_operand L I"
  shows "I \<in> set (collect_function L F) \<or>
    is_load I \<and> (\<exists>J \<in> set post. is_store J \<and> pointer_operand J = pointer_operand I \<and>
      (J \<in> set (collect_function L F) \<or> has_omp_operand L J))"
proof -
  have "pre @ I # post \<in> set (concat (map segments F))" using assms(1,2) by auto
  then obtain us vs where s: "concat (map segments F) = us @ (pre @ I # post) # vs"
    using split_list by fastforce
  let ?C = "chooseInstructionsToInstrument L"
  have r: "collect_function L F = fold ?C vs (?C (pre @ I # post) (fold ?C us []))"
    unfolding collect_function_segments s by simp
  show ?thesis
    using choose_segment_covers [OF assms(3,4), of pre post "fold ?C us []"] choose_fold_keeps assms(4)
    unfolding r by metis
qed

lemma segments_accesses:
  "concat (segments BB) = filter (\<lambda>I. \<not> isAtomic I \<and> (is_load I \<or> is_store I)) BB"
proof (induction BB)
  case (Cons I BB)
  obtain seg segs where s: "segments BB = seg # segs" by (cases "segments BB") simp_all
  then show ?case using Cons by (auto simp: is_load_def is_store_def split: opcode.splits)
qed simp

lemma mset_concat_rev: "mset (concat (map rev xs)) = mset (concat xs)"
  by (induction xs) simp_all

lemma collect_function_once:
  assumes "distinct (map inst_ptr (concat F))"
  shows "distinct (map inst_ptr (collect_function L F))"
    and "I \<in> set (collect_function L F) \<Longrightarrow>
      I \<in> set (concat F) \<and> \<not> isAtomic I \<and> (is_load I \<or> is_store I)"
proof -
  let ?acc = "filter (\<lambda>I. \<not> isAtomic I \<and> (is_load I \<or> is_store I)) (concat F)"
  have "concat (concat (map segments F)) = ?acc"
    by (induction F) (simp_all add: segments_accesses)
  then have m: "mset (concat (map rev (concat (map segments F)))) = mset ?acc"
    by (simp add: mset_concat_rev)
  have sub: "subseq (collect_function L F) (concat (map rev (concat (map segments F))))"
    using choose_fold_subseq [of "[]" "[]" L "concat (map segments F)"]
    by (simp add: collect_function_segments)
  have "distinct (map inst_ptr ?acc)" using assms by (rule distinct_map_filter)
  then have "distinct (map inst_ptr (concat (map rev (concat (map segments F)))))"
    using m mset_eq_imp_distinct_iff [of "map inst_ptr (concat (map rev (concat (map segments F))))"
      "map inst_ptr ?acc"] by (simp add: mset_map)
  then show "distinct (map inst_ptr (collect_function L F))"
    using subseq_map [OF sub] subseqs_distinctD by (metis in_set_subseqs)
  show "I \<in> set (concat F) \<and> \<not> isAtomic I \<and> (is_load I \<or> is_store I)" if "I \<in> set (collect_function L F)"
  proof -
    have "I \<in> set (concat (map rev (concat (map segments F))))"
      using list_emb_set [OF sub that] by auto
    then have "I \<in> set ?acc" using m by (metis mset_eq_setD)
    then show ?thesis by simp
  qed
qed


section \<open>The calls\<close>

definition call_for :: "'v instruction \<Rightarrow> 'v \<Rightarrow> string option \<Rightarrow> 'v access_call" where
  "call_for I p loc =
     \<lparr>before_inst = inst_ptr I, call_addr = p, call_type = (if is_store I then 1 else 0), call_loc = loc\<rparr>"

text \<open>An instruction gets its call, unless its address is a \<open>swifterror\<close> value or one of the
  locations that the pass has added.\<close>

lemma instrument_loc_step:
  "instrumentLoadOrStore_loc L fresh I (D, cs) = (D', cs') \<Longrightarrow>
     D \<subseteq> D' \<and> D' \<subseteq> D \<union> range fresh \<and>
     (cs' = cs \<or> (\<exists>p. pointer_operand I = Some p \<and> cs' = cs @ [call_for I p (Some (location I))])) \<and>
     (\<forall>p. pointer_operand I = Some p \<and> \<not> isSwiftError L p \<and> p \<notin> D \<longrightarrow>
        call_for I p (Some (location I)) \<in> set cs')"
  by (auto simp: instrumentLoadOrStore_loc_def call_for_def Let_def split: option.splits if_split_asm)

lemma instrument_loc_fold:
  "fold (instrumentLoadOrStore_loc L fresh) Is (D, cs) = (D', cs') \<Longrightarrow>
     set cs \<subseteq> set cs' \<and>
     (\<exists>Js. subseq Js Is \<and> map before_inst cs' = map before_inst cs @ map inst_ptr Js) \<and>
     (\<forall>c \<in> set cs'. c \<in> set cs \<or>
        (\<exists>I \<in> set Is. \<exists>p. pointer_operand I = Some p \<and> c = call_for I p (Some (location I)))) \<and>
     (\<forall>I \<in> set Is. \<forall>p. pointer_operand I = Some p \<and> \<not> isSwiftError L p \<and> p \<notin> D \<union> range fresh \<longrightarrow>
        call_for I p (Some (location I)) \<in> set cs')"
proof (induction Is arbitrary: D cs)
  case Nil
  then show ?case by auto
next
  case (Cons I Is)
  obtain D1 cs1 where s: "instrumentLoadOrStore_loc L fresh I (D, cs) = (D1, cs1)" by fastforce
  note st = instrument_loc_step [OF s]
  have r: "fold (instrumentLoadOrStore_loc L fresh) Is (D1, cs1) = (D', cs')" using Cons.prems s by simp
  note ih = Cons.IH [OF r]
  obtain Js where Js: "subseq Js Is" "map before_inst cs' = map before_inst cs1 @ map inst_ptr Js"
    using ih by blast
  have "\<exists>Js. subseq Js (I # Is) \<and> map before_inst cs' = map before_inst cs @ map inst_ptr Js"
  proof (cases "cs1 = cs")
    case True
    then show ?thesis using Js by auto
  next
    case False
    then have "map before_inst cs1 = map before_inst cs @ [inst_ptr I]"
      using st by (auto simp: call_for_def)
    then show ?thesis using Js by (intro exI [of _ "I # Js"]) auto
  qed
  moreover have "set cs \<subseteq> set cs1" using st by auto
  moreover have "c \<in> set cs \<or> (\<exists>p. pointer_operand I = Some p \<and> c = call_for I p (Some (location I)))"
    if "c \<in> set cs1" for c using st that by auto
  moreover have "D1 \<union> range fresh = D \<union> range fresh" using st by blast
  ultimately show ?case using ih st by (auto 0 4)
qed

lemma instrument_loc_locations:
  "fold (instrumentLoadOrStore_loc L fresh) Is (D, cs) = (D', cs') \<Longrightarrow> D' \<subseteq> D \<union> range fresh"
proof (induction Is arbitrary: D cs)
  case (Cons I Is)
  obtain D1 cs1 where s: "instrumentLoadOrStore_loc L fresh I (D, cs) = (D1, cs1)" by fastforce
  show ?case using instrument_loc_step [OF s] Cons.IH [of D1 cs1] Cons.prems s by auto
qed simp

lemma runOnFunction_loc_facts:
  assumes "runOnFunction_loc L fresh name ext F D = (D', calls)" and "distinct (map inst_ptr (concat F))"
  shows "D' \<subseteq> D \<union> range fresh"
    and "distinct (map before_inst calls)"
    and "c \<in> set calls \<Longrightarrow> \<exists>I p. I \<in> set (concat F) \<and> \<not> isAtomic I \<and> (is_load I \<or> is_store I) \<and>
      pointer_operand I = Some p \<and> c = call_for I p (Some (location I))"
    and "\<not> skipped_function name ext \<Longrightarrow> I \<in> set (collect_function L F) \<Longrightarrow> pointer_operand I = Some p \<Longrightarrow>
      \<not> isSwiftError L p \<Longrightarrow> p \<notin> D \<union> range fresh \<Longrightarrow> call_for I p (Some (location I)) \<in> set calls"
proof -
  have *: "(\<exists>Is. fold (instrumentLoadOrStore_loc L fresh) Is (D, []) = (D', calls) \<and>
      subseq Is (collect_function L F) \<and> (\<not> skipped_function name ext \<longrightarrow> Is = collect_function L F))"
    using assms(1) by (cases "skipped_function name ext") (auto simp: runOnFunction_loc_def intro: exI [of _ "[]"])
  then obtain Is where f: "fold (instrumentLoadOrStore_loc L fresh) Is (D, []) = (D', calls)"
      "subseq Is (collect_function L F)" "\<not> skipped_function name ext \<longrightarrow> Is = collect_function L F" by blast
  note g = instrument_loc_fold [OF f(1)] and once = collect_function_once [OF assms(2)]
  show "D' \<subseteq> D \<union> range fresh" by (rule instrument_loc_locations [OF f(1)])
  obtain Js where "subseq Js Is" "map before_inst calls = map inst_ptr Js" using g by auto
  then show "distinct (map before_inst calls)"
    using once(1) f(2) subseq_map subseqs_distinctD subseq_order.trans by (metis in_set_subseqs)
  show "\<exists>I p. I \<in> set (concat F) \<and> \<not> isAtomic I \<and> (is_load I \<or> is_store I) \<and>
      pointer_operand I = Some p \<and> c = call_for I p (Some (location I))" if c: "c \<in> set calls"
  proof -
    obtain I p where I: "I \<in> set Is" "pointer_operand I = Some p" "c = call_for I p (Some (location I))"
      using bspec [OF conjunct1 [OF conjunct2 [OF conjunct2 [OF g]]] c] by auto
    then show ?thesis using once(2) list_emb_set [OF f(2) I(1)] by blast
  qed
  show "call_for I p (Some (location I)) \<in> set calls"
    if "\<not> skipped_function name ext" "I \<in> set (collect_function L F)" "pointer_operand I = Some p"
      "\<not> isSwiftError L p" "p \<notin> D \<union> range fresh"
    using g that f(3) by blast
qed

text \<open>A small function: a block that reads and writes a word, calls, and reads it again.\<close>

definition plain_llvm :: "nat llvm" where
  "plain_llvm =
     \<lparr>stripInBoundsOffsets = (\<lambda>v. v), as_global = (\<lambda>_. None), getPointerAddressSpace = (\<lambda>_. 0),
      gep_pointer = (\<lambda>_. None), loaded_vtable = (\<lambda>_. None), underlying_alloca = (\<lambda>_. False),
      PointerMayBeCaptured = (\<lambda>_. True), isSwiftError = (\<lambda>_. False),
      getName = (\<lambda>v. if v = 9 then ''.omp.lb'' else ''x''), store_size_in_bits = (\<lambda>_. 32),
      cnts_section = ''__llvm_prf_cnts''\<rparr>"

definition instr :: "nat \<Rightarrow> nat opcode \<Rightarrow> nat instruction" where
  "instr i op = \<lparr>inst_ptr = i, opcode = op, is_atomic = False, single_thread = False,
                 debug_loc = Some (''a.c'', 7)\<rparr>"

definition sample_block :: "nat instruction list" where
  "sample_block = [instr 0 (LoadInst 5), instr 1 (StoreInst 6 5), instr 2 (CallInst False), instr 3 (LoadInst 5)]"

lemmas pass_eval = runOnFunction_loc_def skipped_function_def collect_function_def
  chooseInstructionsToInstrument_def choose_step_def choose_push_def erase_loop.simps
  has_omp_operand_def omp_names_def operands_def isAtomic_def instrumentLoadOrStore_loc_def
  shouldInstrumentReadWriteFromAddress_def addrPointsToConstantData_def pointer_operand_def
  is_load_def is_store_def plain_llvm_def instr_def sample_block_def location_def decimal.simps
  suffix_to_prefix char_of_def bit_0

section \<open>Properties\<close>



text \<open>C34: Every call the pass adds is for one load or store of the function that is not atomic, with
  its address, kind 1 for a store and 0 for a load, and no instruction gets two calls.\<close>

theorem pass_calls_typed:
  assumes "distinct (map inst_ptr (concat F))"
    and run: "runOnFunction_loc L fresh name ext F D = (D', calls)"
  shows "distinct (map before_inst calls) \<and>
    (\<forall>c \<in> set calls. \<exists>I \<in> set (concat F). \<not> isAtomic I \<and> before_inst c = inst_ptr I \<and>
       pointer_operand I = Some (call_addr c) \<and>
       (is_store I \<and> call_type c = 1 \<or> is_load I \<and> call_type c = 0))"
  using runOnFunction_loc_facts(2,3) [OF run assms(1)] by (fastforce simp: call_for_def)

theorem pass_calls_typed_witness:
  "\<exists>D calls. runOnFunction_loc plain_llvm (\<lambda>i. 100 + i) ''f'' False [sample_block] {} = (D, calls) \<and>
     distinct (map before_inst calls)"
proof -
  obtain D calls where r: "runOnFunction_loc plain_llvm (\<lambda>i. 100 + i) ''f'' False [sample_block] {} = (D, calls)"
    by fastforce
  have "distinct (map inst_ptr (concat [sample_block]))" by (simp add: sample_block_def instr_def)
  from pass_calls_typed [OF this r] show ?thesis using r by blast
qed

text \<open>The two ways in which the erasing loop goes wrong: of two bookkeeping accesses in a row only
  the first is erased, and a read is lost when the store it was left out for is erased.\<close>

lemma erasing_skips_next:
  "collect_function plain_llvm [[instr 0 (LoadInst 9), instr 1 (LoadInst 9)]] = [instr 0 (LoadInst 9)]"
  by (simp add: pass_eval Let_def)

lemma erased_store_hides_read:
  "collect_function plain_llvm [[instr 0 (LoadInst 5), instr 1 (StoreInst 9 5)]] = []"
  by (simp add: pass_eval Let_def)

end
