(* ===== verification/Instrumented_Run.thy ===== *)
theory Instrumented_Run
  imports Ompt_Run Inst_Pass
begin

text \<open>
  The whole chain: a program whose functions went through the compiler pass, executed by threads
  under the OpenMP runtime, with the tool and a detector attached. An executed instruction makes
  the calls that the pass put before it, each call is an event of the tool, each event performs
  its detector operations. What was shown of the parts gives what a report of the whole means, and
  what its silence means.
\<close>

section \<open>Compiled programs\<close>

type_synonym 'v program_function = "string \<times> bool \<times> 'v instruction list list"

text \<open>The pass runs on one function after the other and remembers its location strings.\<close>

fun compiled ::
  "'v llvm \<Rightarrow> (nat \<Rightarrow> 'v) \<Rightarrow> 'v program_function list \<Rightarrow> 'v set \<Rightarrow> 'v access_call list" where
  "compiled L fresh [] D = []"
| "compiled L fresh ((name, ext, F) # fs) D =
     (let (D', calls) = runOnFunction_loc L fresh name ext F D in calls @ compiled L fresh fs D')"

definition instructions :: "'v program_function list \<Rightarrow> 'v instruction list" where
  "instructions fs = concat (map (\<lambda>(name, ext, F). concat F) fs)"

lemma instructions_simps [simp]:
  "instructions [] = []" "instructions ((name, ext, F) # fs) = concat F @ instructions fs"
  by (simp_all add: instructions_def)

text \<open>A store that the pass must not leave out.\<close>

definition checked_store ::
  "'v llvm \<Rightarrow> (nat \<Rightarrow> 'v) \<Rightarrow> 'v program_function list \<Rightarrow> 'v instruction \<Rightarrow> 'v \<Rightarrow> bool" where
  "checked_store L fresh fs I p \<longleftrightarrow>
     (\<exists>(name, ext, F) \<in> set fs. \<not> skipped_function name ext \<and> I \<in> set (concat F)) \<and>
     is_store I \<and> \<not> isAtomic I \<and> pointer_operand I = Some p \<and> shared L p \<and>
     \<not> has_omp_operand L I \<and> \<not> isSwiftError L p \<and> p \<notin> range fresh"

section \<open>Executions\<close>

text \<open>A step of the program: an event of the runtime, or a thread that executes an instruction
  while the values have the addresses \<open>env\<close>. A call is made before its instruction.\<close>

datatype 'v program_step =
    Runtime ompt_event
  | Executes nat "'v instruction" "'v \<Rightarrow> 64 word"

fun step_events :: "'v access_call list \<Rightarrow> 'v program_step \<Rightarrow> ompt_event list" where
  "step_events calls (Runtime ev) = [ev]"
| "step_events calls (Executes th I env) =
     map (\<lambda>c. Instrumented th (env (call_addr c)) (of_nat (call_type c)))
       (filter (\<lambda>c. before_inst c = inst_ptr I) calls)"

definition execute ::
  "'m handler \<Rightarrow> ('m \<Rightarrow> 'm) \<Rightarrow> bool \<Rightarrow> 'v access_call list \<Rightarrow> 'v program_step list \<Rightarrow>
     access list \<times> 'm monitor tool \<Rightarrow> (access list \<times> 'm monitor tool) option" where
  "execute check wipe free calls tr st =
     play_events check wipe free (concat (map (step_events calls) tr)) (fst st) (snd st)"

text \<open>Accesses come from the program only.\<close>

fun runs_program :: "'v program_function list \<Rightarrow> 'v program_step \<Rightarrow> bool" where
  "runs_program fs (Runtime ev) \<longleftrightarrow> (\<forall>th a ty. ev \<noteq> Instrumented th a ty)"
| "runs_program fs (Executes th I env) \<longleftrightarrow> I \<in> set (instructions fs)"

text \<open>The execution has an access of kind \<open>w\<close> to the word at \<open>a\<close>: a load or store that is not
  atomic and whose address was in that word.\<close>

definition has_access ::
  "'v program_function list \<Rightarrow> 'v program_step list \<Rightarrow> nat \<times> nat \<Rightarrow> bool \<Rightarrow> bool" where
  "has_access fs tr b w \<longleftrightarrow>
     (\<exists>th I env p. Executes th I env \<in> set tr \<and> I \<in> set (instructions fs) \<and> \<not> isAtomic I \<and>
        pointer_operand I = Some p \<and> slot (env p) = b \<and> (if w then is_store I else is_load I))"

section \<open>The calls of a program\<close>

lemma compiled_facts:
  assumes "distinct (map inst_ptr (instructions fs))"
  shows "distinct (map before_inst (compiled L fresh fs D)) \<and>
    (\<forall>c \<in> set (compiled L fresh fs D). \<exists>I p. I \<in> set (instructions fs) \<and> \<not> isAtomic I \<and>
       (is_load I \<or> is_store I) \<and> pointer_operand I = Some p \<and> c = call_for I p (Some (location I)))"
  using assms
proof (induction L fresh fs D rule: compiled.induct)
  case (2 L fresh name ext F fs D)
  obtain D' calls where r: "runOnFunction_loc L fresh name ext F D = (D', calls)" by fastforce
  have d: "distinct (map inst_ptr (concat F))" "distinct (map inst_ptr (instructions fs))"
      "inst_ptr ` set (concat F) \<inter> inst_ptr ` set (instructions fs) = {}"
    using 2(2) by auto
  note f = runOnFunction_loc_facts [OF r d(1)] and ih = 2(1) [OF r [symmetric] refl d(2)]
  have "before_inst ` set calls \<subseteq> inst_ptr ` set (concat F)"
    using f(3) by (fastforce simp: call_for_def)
  moreover have "before_inst ` set (compiled L fresh fs D') \<subseteq> inst_ptr ` set (instructions fs)"
    using ih by (fastforce simp: call_for_def)
  ultimately have "before_inst ` set calls \<inter> before_inst ` set (compiled L fresh fs D') = {}"
    using d(3) by blast
  then have "distinct (map before_inst (compiled L fresh ((name, ext, F) # fs) D))"
    using f(2) ih r by simp
  moreover have "\<exists>I p. I \<in> set (instructions ((name, ext, F) # fs)) \<and> \<not> isAtomic I \<and>
      (is_load I \<or> is_store I) \<and> pointer_operand I = Some p \<and> c = call_for I p (Some (location I))"
    if "c \<in> set (compiled L fresh ((name, ext, F) # fs) D)" for c
  proof (cases "c \<in> set calls")
    case True
    from f(3) [OF this] show ?thesis by auto
  next
    case False
    then have "c \<in> set (compiled L fresh fs D')" using that r by simp
    then obtain I p where "I \<in> set (instructions fs)" "\<not> isAtomic I" "is_load I \<or> is_store I"
      "pointer_operand I = Some p" "c = call_for I p (Some (location I))" using ih by meson
    then show ?thesis by auto
  qed
  ultimately show ?case by blast
qed simp

lemma store_in_segment:
  assumes "I \<in> set (concat F)" "is_store I" "\<not> isAtomic I"
  shows "\<exists>BB \<in> set F. \<exists>pre post. pre @ I # post \<in> set (segments BB)"
proof -
  obtain BB where BB: "BB \<in> set F" "I \<in> set BB" using assms(1) by auto
  then have "I \<in> set (concat (segments BB))" using assms(2,3) by (simp add: segments_accesses)
  then obtain seg where "seg \<in> set (segments BB)" "I \<in> set seg" by auto
  then show ?thesis using BB(1) by (metis split_list)
qed

lemma store_not_load: "is_store I \<Longrightarrow> \<not> is_load I"
  by (auto simp: is_load_def is_store_def split: opcode.splits)

lemma compiled_store:
  assumes "checked_store L fresh fs I p" and "distinct (map inst_ptr (instructions fs))"
    and "D \<subseteq> range fresh"
  shows "call_for I p (Some (location I)) \<in> set (compiled L fresh fs D)"
  using assms
proof (induction L fresh fs D rule: compiled.induct)
  case (1 L fresh D)
  then show ?case by (simp add: checked_store_def)
next
  case (2 L fresh name ext F fs D)
  obtain D' calls where r: "runOnFunction_loc L fresh name ext F D = (D', calls)" by fastforce
  have d: "distinct (map inst_ptr (concat F))" "distinct (map inst_ptr (instructions fs))"
    using 2(3) by auto
  note f = runOnFunction_loc_facts [OF r d(1)]
  show ?case
  proof (cases "\<not> skipped_function name ext \<and> I \<in> set (concat F)")
    case True
    have c: "is_store I" "\<not> isAtomic I" "pointer_operand I = Some p" "shared L p"
      "\<not> has_omp_operand L I" "\<not> isSwiftError L p" "p \<notin> D \<union> range fresh"
      using 2(2,4) by (auto simp: checked_store_def)
    then have "racy L I" by (simp add: racy_def store_not_load)
    then have "I \<in> set (collect_function L F)"
      using store_in_segment [of I F] collect_function_covers [OF _ _ _ c(5)] True c(1,2) store_not_load by blast
    then show ?thesis using f(4) True c r by simp
  next
    case False
    then have "checked_store L fresh fs I p" using 2(2) by (auto simp: checked_store_def)
    then show ?thesis using 2(1) [OF r [symmetric] refl _ d(2)] f(1) 2(4) r by auto
  qed
qed

lemma filter_key: "distinct (map f xs) \<Longrightarrow> x \<in> set xs \<Longrightarrow> filter (\<lambda>y. f y = f x) xs = [x]"
  by (induction xs) (auto simp: filter_empty_conv image_iff)

lemma store_events:
  assumes "checked_store L fresh fs I p" and "distinct (map inst_ptr (instructions fs))"
    and "D \<subseteq> range fresh"
  shows "step_events (compiled L fresh fs D) (Executes th I env) = [Instrumented th (env p) 1]"
proof -
  let ?c = "call_for I p (Some (location I))"
  have "filter (\<lambda>c. before_inst c = before_inst ?c) (compiled L fresh fs D) = [?c]"
    using compiled_facts [OF assms(2)] compiled_store [OF assms] by (intro filter_key) blast+
  moreover have "is_store I" using assms(1) by (simp add: checked_store_def)
  ultimately show ?thesis by (simp add: call_for_def)
qed

lemma program_events:
  assumes "ev \<in> set (step_events (compiled L fresh fs D) x)" and "runs_program fs x" and "x \<in> set tr"
    and "distinct (map inst_ptr (instructions fs))" and "ev = Instrumented th a ty"
  shows "has_access fs tr (slot a) (ty = 1)"
proof (cases x)
  case (Runtime e)
  then show ?thesis using assms(1,2,5) by auto
next
  case (Executes u J env)
  then obtain c where c: "c \<in> set (compiled L fresh fs D)" "before_inst c = inst_ptr J"
    "a = env (call_addr c)" "ty = of_nat (call_type c)" using assms(1,5) by auto
  then obtain I p where I: "I \<in> set (instructions fs)" "\<not> isAtomic I" "is_load I \<or> is_store I"
    "pointer_operand I = Some p" "c = call_for I p (Some (location I))"
    using compiled_facts [OF assms(4)] by meson
  have "J \<in> set (instructions fs)" "inst_ptr J = inst_ptr I" using assms(2) Executes c(2) I(5)
    by (simp_all add: call_for_def)
  then have "J = I" using assms(4) I(1) by (auto simp: distinct_map dest: inj_onD)
  then show ?thesis using I c assms(3) Executes store_not_load [of I] unfolding has_access_def
    by (intro exI [of _ u] exI [of _ I] exI [of _ env] exI [of _ p]) (auto simp: call_for_def)
qed

section \<open>The history of an execution\<close>

lemma no_log [simp]: "log_of check clear (map Captured cs) s = []"
  by (induction cs arbitrary: s) (auto split: sum.splits)

lemma logged_events:
  assumes "x \<in> set (log_of check clear (actions ev t) s)"
  shows "\<exists>th a ty. ev = Instrumented th a ty \<and> place x = slot a \<and> is_write x = (ty = 1)"
  using assms
  by (cases ev) (auto simp: logged_def Let_def split: if_split_asm scope_endpoint.splits
      sync_region_kind.splits work_kind.splits prod.splits option.splits sum.splits)

lemma play_events_log:
  "play_events check wipe free evs h t = Some (h', t') \<Longrightarrow> x \<in> set h' \<Longrightarrow> x \<notin> set h \<Longrightarrow>
     \<exists>th a ty. Instrumented th a ty \<in> set evs \<and> place x = slot a \<and> is_write x = (ty = 1)"
proof (induction check wipe free evs h t rule: play_events.induct)
  case (2 check wipe free ev evs h t)
  then show ?case
    using logged_events [of x check "clearing wipe" ev t "omp_racer t"]
    by (auto split: if_split_asm sum.splits)
qed simp

lemma play_events_append:
  "play_events check wipe free (xs @ ys) h t =
     (case play_events check wipe free xs h t of None \<Rightarrow> None
      | Some (h', t') \<Rightarrow> play_events check wipe free ys h' t')"
  by (induction check wipe free xs h t rule: play_events.induct) (auto split: sum.splits)

lemma execute_append:
  "execute check wipe free calls (xs @ ys) st =
     (case execute check wipe free calls xs st of None \<Rightarrow> None
      | Some st' \<Rightarrow> execute check wipe free calls ys st')"
  by (auto simp: execute_def play_events_append split: option.splits)

abbreviation loaded :: "mode \<Rightarrow> 'm \<Rightarrow> access list \<times> 'm monitor tool" where
  "loaded md unset \<equiv> ([], ompt_initialize (new_monitor md unset))"

lemma execute_tool_run:
  "execute check wipe free calls tr (loaded md unset) = Some (h, t) \<Longrightarrow>
     tool_run md unset check wipe free h t"
  by (auto simp: execute_def intro: play_events_tool_run tool_run.load)

lemma history_from_program:
  assumes "execute check wipe free (compiled L fresh fs D) tr (loaded md unset) = Some (h, t)"
    and "\<forall>x \<in> set tr. runs_program fs x" and "distinct (map inst_ptr (instructions fs))"
    and "x \<in> set h"
  shows "has_access fs tr (place x) (is_write x)"
proof -
  obtain th a ty where e: "Instrumented th a ty \<in> set (concat (map (step_events (compiled L fresh fs D)) tr))"
    "place x = slot a" "is_write x = (ty = 1)"
    using play_events_log [OF assms(1) [unfolded execute_def] assms(4)] by auto
  then obtain y where "y \<in> set tr" "Instrumented th a ty \<in> set (step_events (compiled L fresh fs D) y)"
    by auto
  then show ?thesis using program_events [OF _ _ _ assms(3) refl] assms(2) e(2,3) by auto
qed

lemma execute_store:
  assumes "execute check wipe free (compiled L fresh fs D) [Executes th I env] (h, t) = Some (h', t')"
    and "checked_store L fresh fs I p" and "distinct (map inst_ptr (instructions fs))" "D \<subseteq> range fresh"
    and "omprace_init_flag t" "omprace_in_parallel (omp_racer t)"
  shows "h' = h @ [accessed (env p) (last (m_last_nodes (omp_racer t) (tid_of th t))) True]"
  using assms(1,5,6) store_events [OF assms(2-4), of th env]
  by (auto simp: execute_def logged_def split: if_split_asm sum.splits)

lemma play_events_prefix:
  "play_events check wipe free evs h t = Some (h', t') \<Longrightarrow> \<exists>g. h' = h @ g"
  by (induction check wipe free evs h t rule: play_events.induct) (auto split: if_split_asm sum.splits)

lemma execute_prefix: "execute check wipe free calls tr (h, t) = Some (h', t') \<Longrightarrow> \<exists>g. h' = h @ g"
  by (auto simp: execute_def dest: play_events_prefix)

text \<open>The entries that two executed stores leave in the history.\<close>

lemma two_stores:
  assumes run: "execute check wipe free (compiled L fresh fs D)
      (tr1 @ Executes th I env # tr2 @ Executes th' J env' # tr3) st = Some (h, t)"
    and before: "execute check wipe free (compiled L fresh fs D) tr1 st = Some (h1, t1)"
      "execute check wipe free (compiled L fresh fs D) (tr1 @ Executes th I env # tr2) st = Some (h2, t2)"
    and on: "omprace_init_flag t1" "omprace_in_parallel (omp_racer t1)"
      "omprace_init_flag t2" "omprace_in_parallel (omp_racer t2)"
    and stores: "checked_store L fresh fs I p" "checked_store L fresh fs J q"
    and fs: "distinct (map inst_ptr (instructions fs))" "D \<subseteq> range fresh"
  shows "length h1 < length h2 \<and> length h2 < length h \<and>
    h ! length h1 = accessed (env p) (last (m_last_nodes (omp_racer t1) (tid_of th t1))) True \<and>
    h ! length h2 = accessed (env' q) (last (m_last_nodes (omp_racer t2) (tid_of th' t2))) True"
proof -
  let ?ex = "execute check wipe free (compiled L fresh fs D)"
  obtain g1 u1 where a: "?ex [Executes th I env] (h1, t1) = Some (g1, u1)" "?ex tr2 (g1, u1) = Some (h2, t2)"
    using before execute_append [of check wipe free "compiled L fresh fs D" tr1 "[Executes th I env] @ tr2" st]
      execute_append [of check wipe free "compiled L fresh fs D" "[Executes th I env]" tr2 "(h1, t1)"]
    by (auto split: option.splits)
  obtain g2 u2 where b: "?ex [Executes th' J env'] (h2, t2) = Some (g2, u2)" "?ex tr3 (g2, u2) = Some (h, t)"
    using run before(2) execute_append [of check wipe free "compiled L fresh fs D"
        "tr1 @ Executes th I env # tr2" "[Executes th' J env'] @ tr3" st]
      execute_append [of check wipe free "compiled L fresh fs D" "[Executes th' J env']" tr3 "(h2, t2)"]
    by (auto split: option.splits)
  show ?thesis
    using execute_store [OF a(1) stores(1) fs on(1,2)] execute_store [OF b(1) stores(2) fs on(3,4)]
      execute_prefix [OF a(2)] execute_prefix [OF b(2)] by (auto simp: nth_append)
qed

section \<open>An example\<close>

text \<open>Two threads run the compiled block: one stores to a word, the other loads from it.\<close>

definition sample_program :: "nat program_function list" where
  "sample_program = [(''f'', False, [sample_block])]"

definition sample_calls :: "nat access_call list" where
  "sample_calls = compiled plain_llvm (\<lambda>i. 100 + i) sample_program {}"

definition sample_run :: "nat program_step list" where
  "sample_run = map Runtime (take 7 locked_run) @
     [Executes 0 (instr 1 (StoreInst 6 5)) (\<lambda>_. 64), Executes 1 (instr 3 (LoadInst 5)) (\<lambda>_. 66)]"

text \<open>The threads store to the word, one before and one after a barrier.\<close>

definition sample_store :: "nat \<Rightarrow> nat program_step" where
  "sample_store th = Executes th (instr 1 (StoreInst 6 5)) (\<lambda>_. 64)"

definition team_start :: "nat program_step list" where
  "team_start = map Runtime (take 7 locked_run)"

definition team_barrier :: "nat program_step list" where
  "team_barrier = map Runtime
     [Sync_region 0 Barrier_explicit Scope_begin (Some 1) 1, Sync_region 1 Barrier_explicit Scope_begin (Some 1) 2,
      Sync_region 0 Barrier_explicit Scope_end None 1, Sync_region 1 Barrier_explicit Scope_end None 2]"

lemma sample_program_facts:
  "distinct (map inst_ptr (instructions sample_program))" "\<forall>x \<in> set sample_run. runs_program sample_program x"
  by (simp_all add: sample_program_def sample_block_def instr_def sample_run_def locked_run_def)

lemma sample_calls_eval:
  "sample_calls = [call_for (instr 1 (StoreInst 6 5)) 5 (Some ''a.c:7''),
     call_for (instr 3 (LoadInst 5)) 5 (Some ''a.c:7'')]"
  by (simp add: sample_calls_def sample_program_def pass_eval Let_def call_for_def)

lemma sample_store_checked:
  "checked_store plain_llvm (\<lambda>i. 100 + i) sample_program (instr 1 (StoreInst 6 5)) 5"
  by (simp add: checked_store_def sample_program_def shared_def pass_eval Let_def image_iff)

section \<open>Properties\<close>

lemma violations_are_races_of_program:
  assumes "distinct (map inst_ptr (instructions fs))" and "\<forall>x \<in> set tr. runs_program fs x"
    and run: "execute m_instrument_access (setRead12Write 0 0 0 []) free (compiled L fresh fs D) tr
      (loaded Fast unset_word) = Some (h, t)"
    and "m_violations (omp_racer t) i = v" "valid v"
  shows "has_access fs tr (slot (m_addr v)) (m_access1 v) \<and>
    has_access fs tr (slot (m_addr v)) (m_access2 v) \<and> (m_access1 v \<or> m_access2 v) \<and>
    in_parallel (m_tgraph_nodes (omp_racer t)) (m_task1 v) (m_task2 v)"
proof -
  have "real_race h (omp_racer t) v"
    using tool_run_reports [OF execute_tool_run [OF run]] assms(4,5) by blast
  then show ?thesis
    using history_from_program [OF run assms(2,1)] by (fastforce simp: real_race_def)
qed



lemma execute_precise_run:
  assumes "execute (m_instrument_access_precise rank) (\<lambda>meta. meta) free calls tr
      (loaded Precise unset_metadata) = Some (h, t)" and "h \<noteq> []"
  shows "precise_run rank free h (omp_racer t)"
  using tool_run_simulated [OF execute_tool_run [OF assms(1)]] assms(2)
  by (auto simp: simulated_def split: if_split_asm)

text \<open>C36: Silence of the precise build means that stores to one word are ordered: if a compiled
  program runs in an order that respects the graph and nothing is recorded, then of two executed
  stores that the pass must not leave out, to one word and inside parallel regions, the earlier is
  of the same step as the later or of a step that comes before it in the graph.\<close>

theorem silence_orders_program_stores:
  assumes fs: "distinct (map inst_ptr (instructions fs))" "D \<subseteq> range fresh"
    and stores: "checked_store L fresh fs I p" "checked_store L fresh fs J q" "slot (env p) = slot (env' q)"
    and run: "execute (m_instrument_access_precise rank) (\<lambda>meta. meta) free (compiled L fresh fs D)
      (tr1 @ Executes th I env # tr2 @ Executes th' J env' # tr3) (loaded Precise unset_metadata) = Some (h, t)"
    and before1: "execute (m_instrument_access_precise rank) (\<lambda>meta. meta) free (compiled L fresh fs D)
      tr1 (loaded Precise unset_metadata) = Some (h1, t1)"
      "omprace_init_flag t1" "omprace_in_parallel (omp_racer t1)"
    and before2: "execute (m_instrument_access_precise rank) (\<lambda>meta. meta) free (compiled L fresh fs D)
      (tr1 @ Executes th I env # tr2) (loaded Precise unset_metadata) = Some (h2, t2)"
      "omprace_init_flag t2" "omprace_in_parallel (omp_racer t2)"
    and silent: "m_violations_count (omp_racer t) = 0" "in_order (before (m_tgraph_nodes (omp_racer t))) h"
    and steps: "x = last (m_last_nodes (omp_racer t1) (tid_of th t1))"
      "y = last (m_last_nodes (omp_racer t2) (tid_of th' t2))"
  shows "x = y \<or> before (m_tgraph_nodes (omp_racer t)) x y"
proof -
  note e = two_stores [OF run before1(1) before2(1) before1(2,3) before2(2,3) stores(1,2) fs]
  then have "precise_run rank free h (omp_racer t)" by (intro execute_precise_run [OF run]) auto
  from precise.silent_run [OF this _ _ silent, of "length h1" "length h2"]
  show ?thesis using e steps stores(3) by (auto simp: id_def)
qed

theorem silence_orders_program_stores_witness:
  "\<forall>rank. \<exists>h t h1 t1 h2 t2.
     execute (m_instrument_access_precise rank) (\<lambda>meta. meta) True sample_calls
       (team_start @ sample_store 0 # team_barrier @ sample_store 1 # []) (loaded Precise unset_metadata) = Some (h, t) \<and>
     execute (m_instrument_access_precise rank) (\<lambda>meta. meta) True sample_calls
       team_start (loaded Precise unset_metadata) = Some (h1, t1) \<and>
     execute (m_instrument_access_precise rank) (\<lambda>meta. meta) True sample_calls
       (team_start @ sample_store 0 # team_barrier) (loaded Precise unset_metadata) = Some (h2, t2) \<and>
     before (m_tgraph_nodes (omp_racer t)) (last (m_last_nodes (omp_racer t1) 0)) (last (m_last_nodes (omp_racer t2) 1))"
proof
  fix rank
  let ?ex = "\<lambda>tr. execute (m_instrument_access_precise rank) (\<lambda>meta. meta) True sample_calls tr (loaded Precise unset_metadata)"
  note ev = execute_def team_start_def team_barrier_def sample_store_def sample_calls_eval call_for_def
    instr_def is_store_def tool_eval
  obtain h1 t1 where r1: "?ex team_start = Some (h1, t1)" "omprace_init_flag t1"
      "omprace_in_parallel (omp_racer t1)" "tid_of 0 t1 = 0"
      "last (m_last_nodes (omp_racer t1) 0) = 6"
    by (simp add: ev precise_eval cong: and_then_weak_cong)
  obtain h2 t2 where r2: "?ex (team_start @ sample_store 0 # team_barrier) = Some (h2, t2)" "omprace_init_flag t2"
      "omprace_in_parallel (omp_racer t2)" "tid_of 1 t2 = 1"
      "last (m_last_nodes (omp_racer t2) 1) \<noteq> 6"
    by (simp add: ev precise_eval cong: and_then_weak_cong)
  obtain h t where r: "?ex (team_start @ sample_store 0 # team_barrier @ sample_store 1 # []) = Some (h, t)"
      "m_violations_count (omp_racer t) = 0" "length h = 2"
      "splits (m_tgraph_nodes (omp_racer t)) (by_step (h ! 1)) (by_step (h ! 0)) 1"
      "m_seqnum (branch (m_tgraph_nodes (omp_racer t)) (by_step (h ! 0)) 1) <
         m_seqnum (branch (m_tgraph_nodes (omp_racer t)) (by_step (h ! 1)) 1)"
    by (simp add: ev splits_def at_depth_def precise_eval cong: and_then_weak_cong)
  have "h \<noteq> []" using r(3) by auto
  then show "\<exists>h t h1 t1 h2 t2. ?ex (team_start @ sample_store 0 # team_barrier @ sample_store 1 # []) = Some (h, t) \<and>
     ?ex team_start = Some (h1, t1) \<and> ?ex (team_start @ sample_store 0 # team_barrier) = Some (h2, t2) \<and>
     before (m_tgraph_nodes (omp_racer t)) (last (m_last_nodes (omp_racer t1) 0)) (last (m_last_nodes (omp_racer t2) 1))"
    using silence_orders_program_stores [OF sample_program_facts(1) _ sample_store_checked sample_store_checked
        refl r(1) [unfolded sample_store_def sample_calls_def]
        r1(1) [unfolded sample_calls_def] r1(2,3) r2(1) [unfolded sample_store_def sample_calls_def] r2(2,3) r(2)
        two_in_order [OF precise.run_steps [OF execute_precise_run [OF r(1)], simplified] r(3,4,5)] refl refl]
      r(1,3) r1 r2 by (intro exI conjI) (auto simp: sample_store_def [symmetric] sample_calls_def [symmetric])
qed

end
