(* ===== verification/Lock_Set.thy ===== *)
theory Lock_Set
  imports Prelude "HOL-Library.Word"
begin

unbundle bit_operations_syntax

text \<open>
  Lock sets (\<open>LockSet.h\<close>, \<open>LockSet.cpp\<close>): the locks a task holds as a bit map, in which a lock
  that is held has its bit cleared. The table that numbers the locks is shared by all lock sets;
  its own mutex makes \<open>getLockId\<close> atomic. The lemmas show that the bit map is the set of the locks
  held as long as no lock is taken twice and at most 64 locks exist.
\<close>

record lock_table =
  lock_count :: nat
  lockid_map :: "64 word \<rightharpoonup> 64 word"

record LockSet =
  lockset :: "64 word"
  locks :: "64 word list"

definition no_locks :: lock_table where
  "no_locks = \<lparr>lock_count = 0, lockid_map = Map.empty\<rparr>"

definition empty_LockSet :: LockSet where
  "empty_LockSet = \<lparr>lockset = 0xffffffffffffffff, locks = []\<rparr>"

definition getLockset :: "LockSet \<Rightarrow> 64 word" where
  "getLockset L = lockset L"

definition addLockToStack :: "64 word \<Rightarrow> LockSet \<Rightarrow> LockSet" where
  "addLockToStack lockId L = L\<lparr>locks := lockId # locks L\<rparr>"

text \<open>A shift of a 64-bit number by 64 or more places is undefined.\<close>

definition getLockId :: "64 word \<Rightarrow> lock_table \<Rightarrow> (64 word \<times> lock_table) result" where
  "getLockId lock_held tb =
     (case lockid_map tb lock_held of
        None \<Rightarrow>
          if lock_count tb \<ge> 64 then Inl Undefined_behaviour
          else let lockId = NOT (push_bit (lock_count tb) 1)
               in Inr (lockId, tb\<lparr>lock_count := lock_count tb + 1,
                                 lockid_map := (lockid_map tb)(lock_held \<mapsto> lockId)\<rparr>)
      | Some lockId \<Rightarrow> Inr (lockId, tb))"

definition addLockToLockset :: "64 word \<Rightarrow> LockSet \<Rightarrow> lock_table \<Rightarrow> (LockSet \<times> lock_table) result" where
  "addLockToLockset lock_held L tb =
     and_then (getLockId lock_held tb) (\<lambda>(lockId, tb).
       let L = addLockToStack lockId L
       in Inr (L\<lparr>lockset := lockset L AND lockId\<rparr>, tb))"

text \<open>The top of an empty stack is undefined.\<close>

definition removeLockFromLockset :: "LockSet \<Rightarrow> LockSet result" where
  "removeLockFromLockset L =
     (case locks L of
        [] \<Rightarrow> Inl Undefined_behaviour
      | lockId # rest \<Rightarrow> Inr (L\<lparr>lockset := lockset L OR NOT lockId, locks := rest\<rparr>))"

text \<open>The test of the access handler for two lock sets without a common lock.\<close>

definition no_common_lock :: "64 word \<Rightarrow> 64 word \<Rightarrow> bool" where
  "no_common_lock a b \<longleftrightarrow> NOT a AND NOT b = 0"

section \<open>The table\<close>

definition lock_bit :: "nat \<Rightarrow> 64 word" where
  "lock_bit n = NOT (push_bit n 1)"

lemma bit_lock_bit: "bit (lock_bit n) k \<longleftrightarrow> k < 64 \<and> k \<noteq> n"
  by (auto simp: lock_bit_def bit_not_iff bit_exp_iff)

lemma lock_bit_inject: "n < 64 \<Longrightarrow> lock_bit n = lock_bit k \<longleftrightarrow> n = k"
  using bit_lock_bit [of n n] bit_lock_bit [of k n] by auto

text \<open>Every lock in the table has a bit of its own.\<close>

definition wf_table :: "lock_table \<Rightarrow> bool" where
  "wf_table tb \<longleftrightarrow> lock_count tb \<le> 64 \<and>
     (\<forall>l w. lockid_map tb l = Some w \<longrightarrow> (\<exists>n < lock_count tb. w = lock_bit n)) \<and>
     (\<forall>l k w. lockid_map tb l = Some w \<and> lockid_map tb k = Some w \<longrightarrow> l = k)"

lemma wf_no_locks: "wf_table no_locks"
  by (simp add: wf_table_def no_locks_def)

lemma wf_table_bit: "wf_table tb \<Longrightarrow> lockid_map tb l = Some w \<Longrightarrow> \<exists>n < 64. w = lock_bit n"
  unfolding wf_table_def by (meson order_less_le_trans)

lemma wf_table_inj: "wf_table tb \<Longrightarrow> lockid_map tb l = Some w \<Longrightarrow> lockid_map tb k = Some w \<Longrightarrow> l = k"
  by (simp add: wf_table_def)

lemma getLockId_wf:
  assumes "wf_table tb" and "getLockId l tb = Inr (w, tb')"
  shows "wf_table tb'" "lockid_map tb' l = Some w" "lockid_map tb \<subseteq>\<^sub>m lockid_map tb'"
proof -
  have "wf_table tb' \<and> lockid_map tb' l = Some w \<and> lockid_map tb \<subseteq>\<^sub>m lockid_map tb'"
  proof (cases "lockid_map tb l")
    case None
    then have n: "lock_count tb < 64" "w = lock_bit (lock_count tb)"
        "tb' = tb\<lparr>lock_count := lock_count tb + 1, lockid_map := (lockid_map tb)(l \<mapsto> w)\<rparr>"
      using assms(2) by (auto simp: getLockId_def lock_bit_def Let_def split: if_split_asm)
    have "lockid_map tb k \<noteq> Some w" for k
      using assms(1) n(1,2) lock_bit_inject by (fastforce simp: wf_table_def)
    then show ?thesis
      using assms(1) n None unfolding wf_table_def n(3)
      by (auto simp: map_le_def less_Suc_eq split: if_splits) blast+
  next
    case (Some v)
    then show ?thesis using assms by (simp add: getLockId_def)
  qed
  then show "wf_table tb'" "lockid_map tb' l = Some w" "lockid_map tb \<subseteq>\<^sub>m lockid_map tb'" by blast+
qed

section \<open>What a lock set represents\<close>

text \<open>\<open>L\<close> stands for holding the locks \<open>hs\<close>, the last one taken first.\<close>

definition represents :: "lock_table \<Rightarrow> LockSet \<Rightarrow> 64 word list \<Rightarrow> bool" where
  "represents tb L hs \<longleftrightarrow> distinct hs \<and> map Some (locks L) = map (lockid_map tb) hs \<and>
     (\<forall>n < 64. bit (lockset L) n \<longleftrightarrow> (\<forall>h \<in> set hs. lockid_map tb h \<noteq> Some (lock_bit n)))"

lemma represents_empty: "represents tb empty_LockSet []"
proof -
  have m: "(0xffffffffffffffff :: 64 word) = mask 64" by (simp add: mask_eq_exp_minus_1)
  show ?thesis
    unfolding represents_def empty_LockSet_def m by (simp add: bit_mask_iff del: mask_numeral)
qed

lemma represents_mono:
  assumes "represents tb L hs" and "lockid_map tb \<subseteq>\<^sub>m lockid_map tb'"
  shows "represents tb' L hs"
proof -
  have "h \<in> dom (lockid_map tb)" if "h \<in> set hs" for h
    using assms(1) that unfolding represents_def
    by (metis domI ex_map_conv imageE image_eqI list.set_map)
  then have same: "lockid_map tb' h = lockid_map tb h" if "h \<in> set hs" for h
    using that assms(2) by (metis map_le_def)
  then have "map (lockid_map tb') hs = map (lockid_map tb) hs" by simp
  then show ?thesis using assms(1) same by (simp add: represents_def)
qed

lemma represents_add:
  assumes "wf_table tb" "represents tb L hs" "l \<notin> set hs"
    and "addLockToLockset l L tb = Inr (L', tb')"
  shows "wf_table tb'" "lockid_map tb \<subseteq>\<^sub>m lockid_map tb'" "represents tb' L' (l # hs)"
proof -
  obtain w where w: "getLockId l tb = Inr (w, tb')"
    and L': "L' = L\<lparr>locks := w # locks L, lockset := lockset L AND w\<rparr>"
    using assms(4) by (auto simp: addLockToLockset_def addLockToStack_def Let_def)
  note g = getLockId_wf [OF assms(1) w]
  show "wf_table tb'" "lockid_map tb \<subseteq>\<^sub>m lockid_map tb'" by (fact g)+
  obtain n where n: "w = lock_bit n" "n < 64" using g(1,2) wf_table_bit by blast
  have "represents tb' L hs" by (rule represents_mono [OF assms(2) g(3)])
  then show "represents tb' L' (l # hs)"
    using assms(3) g(2) n lock_bit_inject
    by (auto simp: represents_def L' bit_and_iff bit_lock_bit)
qed

lemma represents_remove:
  assumes "wf_table tb" "represents tb L (l # hs)"
  shows "\<exists>L'. removeLockFromLockset L = Inr L' \<and> represents tb L' hs"
proof -
  obtain w rest where w: "locks L = w # rest" "lockid_map tb l = Some w"
      "map Some rest = map (lockid_map tb) hs" and d: "l \<notin> set hs" "distinct hs"
    and b: "\<And>n. n < 64 \<Longrightarrow> bit (lockset L) n \<longleftrightarrow>
      (\<forall>h \<in> insert l (set hs). lockid_map tb h \<noteq> Some (lock_bit n))"
    using assms(2) by (auto simp: represents_def)
  obtain n where n: "w = lock_bit n" "n < 64" using assms(1) w(2) wf_table_bit by blast
  have other: "lockid_map tb h \<noteq> Some w" if "h \<in> set hs" for h
    using that d(1) wf_table_inj [OF assms(1) w(2)] by blast
  have "bit (lockset L OR NOT w) k \<longleftrightarrow> (\<forall>h \<in> set hs. lockid_map tb h \<noteq> Some (lock_bit k))"
    if k: "k < 64" for k
  proof (cases "k = n")
    case True
    then show ?thesis using other n k by (simp add: bit_or_iff bit_not_iff bit_lock_bit)
  next
    case False
    then have "lock_bit k \<noteq> w" using lock_bit_inject [OF k] n by simp
    then show ?thesis using b [OF k] False w(2) n k by (simp add: bit_or_iff bit_not_iff bit_lock_bit)
  qed
  then show ?thesis
    using w d by (simp add: removeLockFromLockset_def represents_def)
qed

lemma represents_disjoint:
  assumes "wf_table tb" "represents tb L hs" "represents tb M ks"
  shows "no_common_lock (lockset L) (lockset M) \<longleftrightarrow> set hs \<inter> set ks = {}"
proof -
  have held: "bit (NOT (lockset K)) n \<longleftrightarrow> n < 64 \<and> (\<exists>h \<in> set is. lockid_map tb h = Some (lock_bit n))"
    if "represents tb K is" for K "is" n
    using that by (auto simp: represents_def bit_not_iff)
  have known: "\<exists>n < 64. lockid_map tb h = Some (lock_bit n)" if "h \<in> set hs" for h
  proof -
    have "lockid_map tb h \<in> set (map Some (locks L))"
      using that assms(2) unfolding represents_def by (metis image_eqI list.set_map)
    then obtain w where "lockid_map tb h = Some w" by auto
    then show ?thesis using wf_table_bit [OF assms(1)] by blast
  qed
  have "no_common_lock (lockset L) (lockset M) \<longleftrightarrow>
      (\<forall>n < 64. \<not> (bit (NOT (lockset L)) n \<and> bit (NOT (lockset M)) n))"
    by (simp add: no_common_lock_def bit_eq_iff bit_and_iff)
  also have "\<dots> \<longleftrightarrow> set hs \<inter> set ks = {}"
    unfolding held [OF assms(2)] held [OF assms(3)] using known wf_table_inj [OF assms(1)] by blast
  finally show ?thesis .
qed


section \<open>Tasks that take and give back locks\<close>

text \<open>Operations of the tasks of a program on their own lock sets and the common table, and the
  locks held as lists.\<close>

datatype lock_op = Acquire nat "64 word" | Release nat

type_synonym lock_state = "(nat \<Rightarrow> LockSet) \<times> lock_table"

fun lock_step :: "lock_op \<Rightarrow> lock_state \<Rightarrow> lock_state result" where
  "lock_step (Acquire t l) (Ls, tb) =
     and_then (addLockToLockset l (Ls t) tb) (\<lambda>(L, tb). Inr (Ls(t := L), tb))"
| "lock_step (Release t) (Ls, tb) =
     and_then (removeLockFromLockset (Ls t)) (\<lambda>L. Inr (Ls(t := L), tb))"

fun hold :: "lock_op \<Rightarrow> (nat \<Rightarrow> 64 word list) \<Rightarrow> nat \<Rightarrow> 64 word list" where
  "hold (Acquire t l) hs = hs(t := l # hs t)"
| "hold (Release t) hs = hs(t := tl (hs t))"

text \<open>No task takes a lock it holds, or gives back one it does not hold.\<close>

fun well_used :: "lock_op list \<Rightarrow> (nat \<Rightarrow> 64 word list) \<Rightarrow> bool" where
  "well_used [] hs = True"
| "well_used (Acquire t l # ops) hs = (l \<notin> set (hs t) \<and> well_used ops (hold (Acquire t l) hs))"
| "well_used (Release t # ops) hs = (hs t \<noteq> [] \<and> well_used ops (hold (Release t) hs))"

definition holds_locks :: "lock_state \<Rightarrow> (nat \<Rightarrow> 64 word list) \<Rightarrow> bool" where
  "holds_locks st hs \<longleftrightarrow> wf_table (snd st) \<and> (\<forall>t. represents (snd st) (fst st t) (hs t))"

lemma lock_run_holds:
  "holds_locks st hs \<Longrightarrow> well_used ops hs \<Longrightarrow> block (map lock_step ops) st = Inr st' \<Longrightarrow>
     holds_locks st' (fold hold ops hs)"
proof (induction ops hs arbitrary: st rule: well_used.induct)
  case (2 t l ops hs)
  obtain Ls tb where st: "st = (Ls, tb)" by fastforce
  with 2(4) obtain L tb' where a: "addLockToLockset l (Ls t) tb = Inr (L, tb')"
    and r: "block (map lock_step ops) (Ls(t := L), tb') = Inr st'" by auto
  have h: "wf_table tb" "represents tb (Ls u) (hs u)" for u
    using 2(2) by (simp_all add: holds_locks_def st)
  note n = represents_add [OF h(1) h(2) [of t] _ a]
  have "holds_locks (Ls(t := L), tb') (hs(t := l # hs t))"
    using n 2(3) represents_mono [OF h(2)] by (simp add: holds_locks_def)
  then show ?case using 2(1) [of "(Ls(t := L), tb')"] r 2(3) by (simp add: fun_upd_def)
next
  case (3 t ops hs)
  obtain Ls tb where st: "st = (Ls, tb)" by fastforce
  obtain l ls where hs: "hs t = l # ls" using 3(3) by (cases "hs t") auto
  have h: "wf_table tb" "represents tb (Ls u) (hs u)" for u
    using 3(2) by (simp_all add: holds_locks_def st)
  obtain L where L: "removeLockFromLockset (Ls t) = Inr L" "represents tb L ls"
    using represents_remove [OF h(1), of "Ls t" l ls] h(2) [of t] hs by auto
  then have r: "block (map lock_step ops) (Ls(t := L), tb) = Inr st'" using 3(4) st by simp
  have "holds_locks (Ls(t := L), tb) (hs(t := ls))" using h L by (simp add: holds_locks_def)
  then show ?case using 3(1) [of "(Ls(t := L), tb)"] r 3(3) hs by (simp add: fun_upd_def)
qed simp

definition two_tasks_locking :: "lock_op list" where
  "two_tasks_locking = [Acquire 0 100, Acquire 1 200, Acquire 0 200, Release 0]"

section \<open>Properties\<close>

text \<open>C37: Giving back the lock that was taken last restores the lock set, when it was not held
  before.\<close>

theorem lock_unlock_roundtrip:
  assumes "wf_table tb" "represents tb L hs" "l \<notin> set hs"
    and "addLockToLockset l L tb = Inr (L', tb')"
  shows "removeLockFromLockset L' = Inr L"
proof -
  note n = represents_add [OF assms]
  from represents_remove [OF n(1,3)] obtain M where M: "removeLockFromLockset L' = Inr M" "represents tb' M hs"
    by blast
  have "locks M = locks L"
    using M(1) assms(4) by (auto simp: removeLockFromLockset_def addLockToLockset_def addLockToStack_def Let_def)
  moreover have "lockset M = lockset L"
    using M(2) represents_mono [OF assms(2) n(2)] by (intro bit_word_eqI) (simp add: represents_def)
  ultimately show ?thesis using M(1) by simp
qed

theorem lock_unlock_roundtrip_witness:
  "\<exists>L tb. addLockToLockset 100 empty_LockSet no_locks = Inr (L, tb) \<and>
     removeLockFromLockset L = Inr empty_LockSet"
proof -
  obtain L tb where a: "addLockToLockset 100 empty_LockSet no_locks = Inr (L, tb)"
    by (simp add: addLockToLockset_def getLockId_def no_locks_def Let_def)
  from lock_unlock_roundtrip [OF wf_no_locks represents_empty _ a] show ?thesis using a by simp
qed

text \<open>C38: In every run in which no task takes a lock twice, the test on two bit maps answers whether
  the two tasks hold a common lock.\<close>

theorem lockset_test_correct:
  assumes "well_used ops (\<lambda>_. [])"
    and "block (map lock_step ops) (\<lambda>_. empty_LockSet, no_locks) = Inr (Ls, tb)"
  shows "no_common_lock (getLockset (Ls t)) (getLockset (Ls u)) \<longleftrightarrow>
    set (fold hold ops (\<lambda>_. []) t) \<inter> set (fold hold ops (\<lambda>_. []) u) = {}"
proof -
  have "holds_locks (\<lambda>_. empty_LockSet, no_locks) (\<lambda>_. [])"
    by (simp add: holds_locks_def wf_no_locks represents_empty)
  from lock_run_holds [OF this assms]
  have "wf_table tb" "represents tb (Ls v) (fold hold ops (\<lambda>_. []) v)" for v
    by (simp_all add: holds_locks_def)
  then show ?thesis unfolding getLockset_def by (intro represents_disjoint)
qed

theorem lockset_test_correct_witness:
  "\<exists>Ls tb. block (map lock_step two_tasks_locking) (\<lambda>_. empty_LockSet, no_locks) = Inr (Ls, tb) \<and>
     no_common_lock (getLockset (Ls 0)) (getLockset (Ls 1))"
proof -
  obtain Ls tb where r: "block (map lock_step two_tasks_locking) (\<lambda>_. empty_LockSet, no_locks) = Inr (Ls, tb)"
    by (simp add: two_tasks_locking_def addLockToLockset_def getLockId_def no_locks_def Let_def
        removeLockFromLockset_def addLockToStack_def empty_LockSet_def)
  have "well_used two_tasks_locking (\<lambda>_. [])" by (simp add: two_tasks_locking_def)
  from lockset_test_correct [OF this r, of 0 1] show ?thesis
    using r by (simp add: two_tasks_locking_def)
qed

text \<open>A lock that is taken twice is taken for free after it has been given back once, and there is
  no number for a 65th lock.\<close>

lemma nested_lock_lost:
  "\<exists>L L' tb tb' M. addLockToLockset 100 empty_LockSet no_locks = Inr (L, tb) \<and>
     addLockToLockset 100 L tb = Inr (L', tb') \<and> removeLockFromLockset L' = Inr M \<and>
     locks M \<noteq> [] \<and> lockset M = lockset empty_LockSet"
  by (simp add: addLockToLockset_def getLockId_def no_locks_def Let_def removeLockFromLockset_def
      addLockToStack_def empty_LockSet_def)

lemma too_many_locks:
  "lock_count tb = 64 \<Longrightarrow> lockid_map tb l = None \<Longrightarrow> getLockId l tb = Inl Undefined_behaviour"
  by (simp add: getLockId_def)

end
