(* ===== verification/Lockset_Access.thy ===== *)
theory Lockset_Access
  imports Checked_Run Lock_Set
begin

text \<open>
  The access check of a build with \<open>LOCKSET_META\<close> (\<open>m_instrument_access\<close>, the version that uses
  lock sets; both builds have the same text, and both have it switched off). A word keeps, for
  every lock set under which it was accessed, two writers and two readers; four such entries are
  part of the metadata, further ones are in a vector. An access is compared with the entries whose
  lock set has no lock in common with its own, and the first race found ends the check. The
  handler holds the lock of the metadata and is one step.

  The stacks of lock sets are an argument, since the handler only reads them.
\<close>

section \<open>Metadata\<close>

record lockset_entry =
  ls_write1 :: nat
  ls_write2 :: nat
  ls_read1 :: nat
  ls_read2 :: nat
  lock_set :: "64 word"

record lockset_metadata =
  ls_entries :: "lockset_entry list"
  entry_list :: "lockset_entry list option"

definition NUM_LOCKSET_ENTRIES :: nat where
  "NUM_LOCKSET_ENTRIES = 4"

definition unset_lockset_entry :: lockset_entry where
  "unset_lockset_entry = \<lparr>ls_write1 = 0, ls_write2 = 0, ls_read1 = 0, ls_read2 = 0, lock_set = 0\<rparr>"

definition unset_lockset_metadata :: lockset_metadata where
  "unset_lockset_metadata =
     \<lparr>ls_entries = replicate NUM_LOCKSET_ENTRIES unset_lockset_entry, entry_list = None\<rparr>"

section \<open>Comparing\<close>

text \<open>Report the first race. The current access is recorded as a write whatever it is.\<close>

definition report_race ::
  "64 word \<Rightarrow> nat \<Rightarrow> nat \<Rightarrow> bool \<Rightarrow> 'a detector_scheme \<Rightarrow> (bool \<times> 'a detector_scheme) result" where
  "report_race a curr_step prev prev_type s =
     (if prev = 0 then Inr (False, s)
      else and_then (m_isparallel s curr_step prev) (\<lambda>race.
        if race
        then and_then (m_add_violations a curr_step WRITE prev prev_type ''loc'' s) (\<lambda>s. Inr (True, s))
        else Inr (False, s)))"

fun first_race :: "('s \<Rightarrow> (bool \<times> 's) result) list \<Rightarrow> 's \<Rightarrow> (bool \<times> 's) result" where
  "first_race [] s = Inr (False, s)"
| "first_race (f # fs) s =
     and_then (f s) (\<lambda>(race, s). if race then Inr (True, s) else first_race fs s)"

definition compare_entry ::
  "64 word \<Rightarrow> nat \<Rightarrow> bool \<Rightarrow> lockset_entry \<Rightarrow> 'a detector_scheme \<Rightarrow> (bool \<times> 'a detector_scheme) result"
  where
  "compare_entry a curr_step type e =
     first_race ([report_race a curr_step (ls_write1 e) WRITE, report_race a curr_step (ls_write2 e) WRITE] @
       (if type = WRITE
        then [report_race a curr_step (ls_read1 e) READ, report_race a curr_step (ls_read2 e) READ]
        else []))"

text \<open>The loop over the entries of the metadata from \<open>i\<close> on; \<open>entry_insert_index\<close> is the entry
  for the access. The loop stops at a free entry when it has none yet.\<close>

fun scan_entries ::
  "64 word \<Rightarrow> 64 word \<Rightarrow> nat \<Rightarrow> bool \<Rightarrow> nat \<Rightarrow> lockset_entry list \<Rightarrow> nat option \<Rightarrow> 'a detector_scheme \<Rightarrow>
     (bool \<times> nat option \<times> 'a detector_scheme) result" where
  "scan_entries cur_lockset a curr_step type i [] entry_insert_index s = Inr (False, entry_insert_index, s)"
| "scan_entries cur_lockset a curr_step type i (e # es) entry_insert_index s =
     (if entry_insert_index = None \<and> lock_set e = 0 then Inr (False, Some i, s)
      else and_then
        (if lock_set e \<noteq> 0 \<and> no_common_lock cur_lockset (lock_set e)
         then compare_entry a curr_step type e s else Inr (False, s))
        (\<lambda>(race, s).
           if race then Inr (True, entry_insert_index, s)
           else scan_entries cur_lockset a curr_step type (Suc i) es
             (if lock_set e \<noteq> 0 \<and> cur_lockset = lock_set e then Some i else entry_insert_index) s))"

text \<open>The loop over the vector.\<close>

fun scan_list ::
  "64 word \<Rightarrow> 64 word \<Rightarrow> nat \<Rightarrow> bool \<Rightarrow> nat \<Rightarrow> lockset_entry list \<Rightarrow> nat option \<Rightarrow> 'a detector_scheme \<Rightarrow>
     (bool \<times> nat option \<times> 'a detector_scheme) result" where
  "scan_list cur_lockset a curr_step type i [] list_insert_index s = Inr (False, list_insert_index, s)"
| "scan_list cur_lockset a curr_step type i (e # es) list_insert_index s =
     and_then
       (if no_common_lock cur_lockset (lock_set e) then compare_entry a curr_step type e s else Inr (False, s))
       (\<lambda>(race, s).
          if race then Inr (True, list_insert_index, s)
          else scan_list cur_lockset a curr_step type (Suc i) es
            (if cur_lockset = lock_set e then Some i else list_insert_index) s)"

section \<open>Recording\<close>

text \<open>The two writers or the two readers of an entry.\<close>

definition update_pair :: "'a detector_scheme \<Rightarrow> nat \<Rightarrow> nat \<times> nat \<Rightarrow> (nat \<times> nat) result" where
  "update_pair s curr_step p =
     (let (a1, a2) = p in
      and_then (if a1 \<noteq> 0 then m_isparallel s curr_step a1 else Inr False) (\<lambda>par_1.
      and_then (if a2 \<noteq> 0 then m_isparallel s curr_step a2 else Inr False) (\<lambda>par_2.
        if (a1 = 0 \<and> a2 = 0) \<or> (a1 = 0 \<and> \<not> par_2) \<or> (a2 = 0 \<and> \<not> par_1) \<or> (\<not> par_1 \<and> \<not> par_2)
        then Inr (curr_step, 0)
        else if par_1 \<and> par_2
        then and_then (m_lca s a1 a2) (\<lambda>lca12.
             and_then (m_lca s a1 curr_step) (\<lambda>lca1s.
               if m_depth (m_tgraph_nodes s lca1s) < m_depth (m_tgraph_nodes s lca12) then Inr (curr_step, a2)
               else if a2 = 0 \<and> par_1 then Inr (a1, curr_step) else Inr (a1, a2)))
        else Inr (a1, a2))))"

definition update_lockset_entry ::
  "'a detector_scheme \<Rightarrow> nat \<Rightarrow> bool \<Rightarrow> lockset_entry \<Rightarrow> lockset_entry result" where
  "update_lockset_entry s curr_step type e =
     (if type = WRITE
      then and_then (update_pair s curr_step (ls_write1 e, ls_write2 e)) (\<lambda>(w1, w2).
             Inr (e\<lparr>ls_write1 := w1, ls_write2 := w2\<rparr>))
      else and_then (update_pair s curr_step (ls_read1 e, ls_read2 e)) (\<lambda>(r1, r2).
             Inr (e\<lparr>ls_read1 := r1, ls_read2 := r2\<rparr>)))"

text \<open>The first access of an entry; the other fields stay as they are.\<close>

definition first_access :: "64 word \<Rightarrow> nat \<Rightarrow> bool \<Rightarrow> lockset_entry \<Rightarrow> lockset_entry" where
  "first_access cur_lockset curr_step type e =
     (if type = READ then e\<lparr>lock_set := cur_lockset, ls_read1 := curr_step\<rparr>
      else e\<lparr>lock_set := cur_lockset, ls_write1 := curr_step\<rparr>)"

text \<open>Where the access is recorded. A new element of the vector is not initialised: \<open>raw\<close> is what
  its memory holds.\<close>

definition record_access ::
  "lockset_entry \<Rightarrow> 'a detector_scheme \<Rightarrow> 64 word \<Rightarrow> nat \<Rightarrow> bool \<Rightarrow> nat option \<Rightarrow> nat option \<Rightarrow>
     lockset_metadata \<Rightarrow> lockset_metadata result" where
  "record_access raw s cur_lockset curr_step type entry_insert_index list_insert_index meta =
     (case entry_insert_index of
        Some i \<Rightarrow>
          if lock_set (ls_entries meta ! i) = 0
          then Inr (meta\<lparr>ls_entries :=
                 (ls_entries meta)[i := first_access cur_lockset curr_step type (ls_entries meta ! i)]\<rparr>)
          else and_then (update_lockset_entry s curr_step type (ls_entries meta ! i)) (\<lambda>e.
                 Inr (meta\<lparr>ls_entries := (ls_entries meta)[i := e]\<rparr>))
      | None \<Rightarrow>
          let access_list = (case entry_list meta of None \<Rightarrow> [] | Some es \<Rightarrow> es) in
          (case list_insert_index of
             None \<Rightarrow> Inr (meta\<lparr>entry_list :=
                       Some (access_list @ [first_access cur_lockset curr_step type raw])\<rparr>)
           | Some j \<Rightarrow> and_then (update_lockset_entry s curr_step type (access_list ! j)) (\<lambda>e.
                       Inr (meta\<lparr>entry_list := Some (access_list[j := e])\<rparr>))))"

section \<open>The handler\<close>

text \<open>Every thread starts with an empty lock set on its stack.\<close>

definition push_lockset :: "nat \<Rightarrow> (nat \<Rightarrow> LockSet list) \<Rightarrow> nat \<Rightarrow> LockSet list" where
  "push_lockset tid m_lockset = m_lockset(tid := m_lockset tid @ [empty_LockSet])"

definition check_and_record ::
  "lockset_entry \<Rightarrow> 64 word \<Rightarrow> 64 word \<Rightarrow> nat \<Rightarrow> bool \<Rightarrow> lockset_metadata \<Rightarrow> 'a detector_scheme \<Rightarrow>
     (lockset_metadata \<times> 'a detector_scheme) result" where
  "check_and_record raw cur_lockset a curr_step type meta s =
     (if lock_set (ls_entries meta ! 0) = 0
      then Inr (meta\<lparr>ls_entries :=
             (ls_entries meta)[0 := first_access cur_lockset curr_step type (ls_entries meta ! 0)]\<rparr>, s)
      else and_then (scan_entries cur_lockset a curr_step type 0 (ls_entries meta) None s)
        (\<lambda>(race_detected, entry_insert_index, s).
           if race_detected then Inr (meta, s)
           else and_then
             (scan_list cur_lockset a curr_step type 0
                (case entry_list meta of None \<Rightarrow> [] | Some es \<Rightarrow> es) None s)
             (\<lambda>(race_detected, list_insert_index, s).
                if race_detected then Inr (meta, s)
                else and_then
                  (record_access raw s cur_lockset curr_step type entry_insert_index list_insert_index meta)
                  (\<lambda>meta. Inr (meta, s)))))"

definition m_instrument_access_lockset ::
  "lockset_entry \<Rightarrow> (nat \<Rightarrow> LockSet list) \<Rightarrow> nat \<Rightarrow> 64 word \<Rightarrow> bool \<Rightarrow>
     (lockset_metadata, 'a) monitor_scheme \<Rightarrow> (lockset_metadata, 'a) monitor_scheme result" where
  "m_instrument_access_lockset raw m_lockset tid a type s =
     (if \<not> omprace_in_parallel s then Inr s
      else if m_lockset tid = [] then Inl Undefined_behaviour
      else
        let cur_lockset = getLockset (last (m_lockset tid));
            (table, s) = find_table unset_lockset_metadata (primary_index a) s
        in and_then (stack_back tid s) (\<lambda>curr_step.
           and_then (check_and_record raw cur_lockset a curr_step type (get_metadata table (offset a) s) s)
             (\<lambda>(meta, s). Inr (put_metadata table (offset a) meta s))))"

section \<open>What is compared\<close>

text \<open>The recorded accesses of an entry that an access of kind \<open>ty\<close> conflicts with, and those of a
  word, whose lock sets have no lock in common with \<open>L\<close>.\<close>

definition entry_conflicts :: "bool \<Rightarrow> lockset_entry \<Rightarrow> (nat \<times> bool) set" where
  "entry_conflicts ty e =
     {(p, k). p \<noteq> 0 \<and> (k = WRITE \<and> p \<in> {ls_write1 e, ls_write2 e} \<or>
        ty = WRITE \<and> k = READ \<and> p \<in> {ls_read1 e, ls_read2 e})}"

definition apart :: "64 word \<Rightarrow> bool \<Rightarrow> lockset_entry list \<Rightarrow> (nat \<times> bool) set" where
  "apart L ty es = \<Union> (entry_conflicts ty ` {e \<in> set es. no_common_lock L (lock_set e)})"

lemma apart_simps [simp]:
  "apart L ty [] = {}"
  "apart L ty (e # es) = (if no_common_lock L (lock_set e) then entry_conflicts ty e else {}) \<union> apart L ty es"
  by (auto simp: apart_def)

lemma apart_append: "apart L ty (es @ fs) = apart L ty es \<union> apart L ty fs"
  by (auto simp: apart_def)

definition used :: "lockset_entry list \<Rightarrow> lockset_entry list" where
  "used es = filter (\<lambda>e. lock_set e \<noteq> 0) es"

abbreviation listed :: "lockset_metadata \<Rightarrow> lockset_entry list" where
  "listed meta \<equiv> (case entry_list meta of None \<Rightarrow> [] | Some es \<Rightarrow> es)"

definition lock_conflicts :: "64 word \<Rightarrow> bool \<Rightarrow> lockset_metadata \<Rightarrow> (nat \<times> bool) set" where
  "lock_conflicts L ty meta = apart L ty (used (ls_entries meta) @ listed meta)"

text \<open>A check compares with \<open>ps\<close>, and says so when it has found a race.\<close>

definition checks :: "64 word \<Rightarrow> nat \<Rightarrow> (nat \<times> bool) set \<Rightarrow> 'a detector_scheme \<Rightarrow>
    (bool \<times> 'a detector_scheme) result \<Rightarrow> bool" where
  "checks a cur ps s m \<longleftrightarrow> (\<forall>r s'. m = Inr (r, s') \<longrightarrow>
     compared a cur WRITE ps s s' \<and> (r \<longrightarrow> m_violations_count s' \<noteq> 0))"

lemma compared_more:
  "compared a cur ty ps s s' \<Longrightarrow> ps \<subseteq> qs \<Longrightarrow> m_violations_count s' \<noteq> 0 \<Longrightarrow> compared a cur ty qs s s'"
  unfolding compared_def by blast

lemma checks_nothing: "checks a cur {} s (Inr (False, s))"
  by (simp add: checks_def compared_refl)

lemma checks_then:
  assumes "checks a cur ps s m" and "\<And>u. m = Inr (False, u) \<Longrightarrow> checks a cur qs u (f u)"
  shows "checks a cur (ps \<union> qs) s (and_then m (\<lambda>(race, u). if race then Inr (True, u) else f u))"
  unfolding checks_def
proof (intro allI impI)
  fix r s'
  assume run: "and_then m (\<lambda>(race, u). if race then Inr (True, u) else f u) = Inr (r, s')"
  then obtain race u where u: "m = Inr (race, u)" "(if race then Inr (True, u) else f u) = Inr (r, s')"
    by (auto simp: and_then_eq_Inr)
  have c: "compared a cur WRITE ps s u" "race \<longrightarrow> m_violations_count u \<noteq> 0"
    using assms(1) u(1) by (simp_all add: checks_def)
  show "compared a cur WRITE (ps \<union> qs) s s' \<and> (r \<longrightarrow> m_violations_count s' \<noteq> 0)"
  proof (cases race)
    case True
    then show ?thesis using c u(2) compared_more [OF c(1)] by auto
  next
    case False
    then have "checks a cur qs u (f u)" "f u = Inr (r, s')" using assms(2) u by auto
    then show ?thesis using compared_trans [OF c(1)] by (auto simp: checks_def)
  qed
qed

lemma report_race_checks:
  "checks a cur (if p = 0 then {} else {(p, k)}) s (report_race a cur p k s)"
proof (cases "p = 0")
  case True
  then show ?thesis by (simp add: report_race_def checks_nothing)
next
  case False
  have "compared a cur WRITE {(p, k)} s s' \<and> (r \<longrightarrow> m_violations_count s' \<noteq> 0)"
    if run: "report_race a cur p k s = Inr (r, s')" for r s'
  proof -
    obtain b where b: "m_isparallel s cur p = Inr b"
      "if b then r \<and> m_add_violations a cur WRITE p k ''loc'' s = Inr s' else \<not> r \<and> s' = s"
      using run False by (auto simp: report_race_def and_then_eq_Inr split: if_splits)
    show ?thesis
    proof (cases b)
      case True
      then have v: "m_add_violations a cur WRITE p k ''loc'' s = Inr s'" using b by simp
      have "only_races s s'" using v
        by (auto simp: m_add_violations_def only_races_def Let_def split: if_splits)
      then show ?thesis using m_add_violations_found [OF v] b(1) True by (auto simp: compared_def)
    qed (use b in \<open>simp add: compared_def\<close>)
  qed
  then show ?thesis using False by (simp add: checks_def)
qed

lemma first_race_checks:
  "(\<And>s. checks a cur ps s (f s)) \<Longrightarrow> (\<And>s. checks a cur qs s (first_race fs s)) \<Longrightarrow>
     checks a cur (ps \<union> qs) s (first_race (f # fs) s)"
  using checks_then [of a cur ps s "f s" qs "first_race fs"] by simp

lemma compare_entry_checks: "checks a cur (entry_conflicts ty e) s (compare_entry a cur ty e s)"
proof -
  let ?c = "\<lambda>p k. if p = 0 then {} else {(p, k)}"
  have none: "checks a cur {} s (first_race [] s)" for s :: "'a detector_scheme" by (simp add: checks_nothing)
  note one = first_race_checks [OF report_race_checks]
  show ?thesis
  proof (cases ty)
    case True
    have "entry_conflicts ty e = ?c (ls_write1 e) WRITE \<union> (?c (ls_write2 e) WRITE \<union>
        (?c (ls_read1 e) READ \<union> (?c (ls_read2 e) READ \<union> {})))"
      using True by (auto simp: entry_conflicts_def split: if_splits)
    then show ?thesis using True one [OF one [OF one [OF one [OF none]]]] by (simp only: compare_entry_def simp_thms if_True append.simps)
  next
    case False
    have "entry_conflicts ty e = ?c (ls_write1 e) WRITE \<union> (?c (ls_write2 e) WRITE \<union> {})"
      using False by (auto simp: entry_conflicts_def split: if_splits)
    then show ?thesis using False one [OF one [OF none]] by (simp only: compare_entry_def simp_thms if_False append.simps)
  qed
qed

text \<open>The used entries come first.\<close>

definition filled :: "lockset_entry list \<Rightarrow> bool" where
  "filled es \<longleftrightarrow> (\<forall>i j. i < j \<and> j < length es \<and> lock_set (es ! j) \<noteq> 0 \<longrightarrow> lock_set (es ! i) \<noteq> 0)"

lemma filled_Cons: "filled (e # es) \<Longrightarrow> filled es" "filled (e # es) \<Longrightarrow> lock_set e = 0 \<Longrightarrow> used es = []"
proof -
  assume f: "filled (e # es)"
  show "filled es" unfolding filled_def
  proof (intro allI impI)
    fix i j assume "i < j \<and> j < length es \<and> lock_set (es ! j) \<noteq> 0"
    then show "lock_set (es ! i) \<noteq> 0" using f [unfolded filled_def, rule_format, of "Suc i" "Suc j"] by simp
  qed
  show "used es = []" if "lock_set e = 0"
  proof -
    have "lock_set (es ! j) = 0" if "j < length es" for j
      using f [unfolded filled_def, rule_format, of 0 "Suc j"] that \<open>lock_set e = 0\<close> by auto
    then show ?thesis by (auto simp: used_def filter_empty_conv in_set_conv_nth)
  qed
qed

text \<open>The two loops compare with the entries whose lock sets are apart; the index they find is that
  of an entry with the current lock set, or of the first free one.\<close>

lemma scan_entries_checks:
  assumes "filled es"
  shows "checks a cur (apart L ty (used es)) s
    (and_then (scan_entries L a cur ty i es idx s) (\<lambda>(race, j, s). Inr (race, s)))"
  using assms
proof (induction es arbitrary: i idx s)
  case Nil
  then show ?case by (simp add: used_def checks_nothing)
next
  case (Cons e es)
  let ?f = "if lock_set e \<noteq> 0 \<and> no_common_lock L (lock_set e) then compare_entry a cur ty e else (\<lambda>s. Inr (False, s))"
  let ?idx = "if lock_set e \<noteq> 0 \<and> L = lock_set e then Some i else idx"
  note f = filled_Cons [OF Cons.prems]
  show ?case
  proof (cases "idx = None \<and> lock_set e = 0")
    case True
    then show ?thesis using f(2) by (simp add: used_def checks_nothing)
  next
    case False
    let ?g = "\<lambda>s. and_then (scan_entries L a cur ty (Suc i) es ?idx s) (\<lambda>(race, j, s). Inr (race, s))"
    let ?p = "if lock_set e \<noteq> 0 \<and> no_common_lock L (lock_set e) then entry_conflicts ty e else {}"
    have "checks a cur ?p s (?f s)" by (simp add: checks_nothing compare_entry_checks)
    then have "checks a cur (?p \<union> apart L ty (used es)) s
        (and_then (?f s) (\<lambda>(race, u). if race then Inr (True, u) else ?g u))"
      by (rule checks_then) (rule Cons.IH [OF f(1)])
    moreover have "apart L ty (used (e # es)) = ?p \<union> apart L ty (used es)" by (simp add: used_def)
    moreover have "and_then (scan_entries L a cur ty i (e # es) idx s) (\<lambda>(race, j, s). Inr (race, s)) =
        and_then (?f s) (\<lambda>(race, u). if race then Inr (True, u) else ?g u)"
      using False by (auto simp: and_then_assoc intro!: and_then_cong)
    ultimately show ?thesis by simp
  qed
qed

lemma scan_list_checks:
  "checks a cur (apart L ty es) s (and_then (scan_list L a cur ty i es idx s) (\<lambda>(race, j, s). Inr (race, s)))"
proof (induction es arbitrary: i idx s)
  case Nil
  then show ?case by (simp add: checks_nothing)
next
  case (Cons e es)
  let ?f = "if no_common_lock L (lock_set e) then compare_entry a cur ty e else (\<lambda>s. Inr (False, s))"
  let ?g = "\<lambda>s. and_then (scan_list L a cur ty (Suc i) es (if L = lock_set e then Some i else idx) s)
    (\<lambda>(race, j, s). Inr (race, s))"
  let ?p = "if no_common_lock L (lock_set e) then entry_conflicts ty e else {}"
  have "checks a cur ?p s (?f s)" by (simp add: checks_nothing compare_entry_checks)
  then have "checks a cur (?p \<union> apart L ty es) s
      (and_then (?f s) (\<lambda>(race, u). if race then Inr (True, u) else ?g u))"
    by (rule checks_then) (rule Cons.IH)
  moreover have "and_then (scan_list L a cur ty i (e # es) idx s) (\<lambda>(race, j, s). Inr (race, s)) =
      and_then (?f s) (\<lambda>(race, u). if race then Inr (True, u) else ?g u)"
    by (auto simp: and_then_assoc intro!: and_then_cong)
  ultimately show ?case by simp
qed

lemma scan_entries_index:
  "scan_entries L a cur ty i es idx s = Inr (False, j, s') \<Longrightarrow>
     (j = idx \<and> (idx = None \<longrightarrow> (\<forall>e \<in> set es. lock_set e \<noteq> 0 \<and> lock_set e \<noteq> L))) \<or>
     (\<exists>k < length es. j = Some (i + k) \<and> lock_set (es ! k) \<noteq> 0 \<and> lock_set (es ! k) = L) \<or>
     (idx = None \<and> (\<exists>k < length es. j = Some (i + k) \<and> lock_set (es ! k) = 0 \<and>
        (\<forall>e \<in> set (take k es). lock_set e \<noteq> 0 \<and> lock_set e \<noteq> L)))"
proof (induction es arbitrary: i idx s)
  case (Cons e es)
  show ?case
  proof (cases "idx = None \<and> lock_set e = 0")
    case True
    then have "\<exists>k < length (e # es). j = Some (i + k) \<and> lock_set ((e # es) ! k) = 0 \<and>
        (\<forall>x \<in> set (take k (e # es)). lock_set x \<noteq> 0 \<and> lock_set x \<noteq> L)"
      using Cons.prems by (intro exI [of _ 0]) simp
    then show ?thesis using True by blast
  next
    case False
    let ?idx = "if lock_set e \<noteq> 0 \<and> L = lock_set e then Some i else idx"
    let ?f = "if lock_set e \<noteq> 0 \<and> no_common_lock L (lock_set e) then compare_entry a cur ty e s else Inr (False, s)"
    have "and_then ?f (\<lambda>(race, s). if race then Inr (True, idx, s)
        else scan_entries L a cur ty (Suc i) es ?idx s) = Inr (False, j, s')"
      using Cons.prems False by simp
    then obtain x where "(case x of (race, s) \<Rightarrow> if race then Inr (True, idx, s)
        else scan_entries L a cur ty (Suc i) es ?idx s) = Inr (False, j, s')" by (rule and_then_InrE)
    then obtain u where "scan_entries L a cur ty (Suc i) es ?idx u = Inr (False, j, s')"
      by (cases x) (simp split: if_split_asm)
    from Cons.IH [OF this] show ?thesis
    proof (elim disjE)
      assume "j = ?idx \<and> (?idx = None \<longrightarrow> (\<forall>e \<in> set es. lock_set e \<noteq> 0 \<and> lock_set e \<noteq> L))"
      then have j: "j = ?idx" "?idx = None \<Longrightarrow> \<forall>e \<in> set es. lock_set e \<noteq> 0 \<and> lock_set e \<noteq> L" by blast+
      show ?thesis
      proof (cases "lock_set e \<noteq> 0 \<and> L = lock_set e")
        case True
        then have "\<exists>k < length (e # es). j = Some (i + k) \<and> lock_set ((e # es) ! k) \<noteq> 0 \<and>
            lock_set ((e # es) ! k) = L" using j(1) by (intro exI [of _ 0]) simp
        then show ?thesis by blast
      next
        case no: False
        then have "j = idx \<and> (idx = None \<longrightarrow> (\<forall>e \<in> set (e # es). lock_set e \<noteq> 0 \<and> lock_set e \<noteq> L))"
        proof (intro conjI impI)
          have "?idx = idx" using no by (simp only: if_False)
          then show "j = idx" using j(1) by simp
          show "\<forall>e \<in> set (e # es). lock_set e \<noteq> 0 \<and> lock_set e \<noteq> L" if "idx = None"
            using j(2) \<open>?idx = idx\<close> that False no by simp
        qed
        then show ?thesis by blast
      qed
    next
      assume "\<exists>k < length es. j = Some (Suc i + k) \<and> lock_set (es ! k) \<noteq> 0 \<and> lock_set (es ! k) = L"
      then obtain k where "k < length es" "j = Some (i + Suc k)" "lock_set ((e # es) ! Suc k) \<noteq> 0"
        "lock_set ((e # es) ! Suc k) = L" by auto
      then show ?thesis by (metis Suc_less_eq length_Cons)
    next
      assume "?idx = None \<and> (\<exists>k < length es. j = Some (Suc i + k) \<and> lock_set (es ! k) = 0 \<and>
        (\<forall>e \<in> set (take k es). lock_set e \<noteq> 0 \<and> lock_set e \<noteq> L))"
      then obtain k where "?idx = None" "Suc k < length (e # es)" "j = Some (i + Suc k)"
        "lock_set ((e # es) ! Suc k) = 0" "\<forall>e \<in> set (take k es). lock_set e \<noteq> 0 \<and> lock_set e \<noteq> L" by auto
      moreover have "idx = None" "lock_set e \<noteq> 0 \<and> lock_set e \<noteq> L" using False calculation(1) by (auto split: if_splits)
      ultimately have "\<forall>x \<in> set (take (Suc k) (e # es)). lock_set x \<noteq> 0 \<and> lock_set x \<noteq> L" by simp
      then show ?thesis using \<open>idx = None\<close> \<open>Suc k < length (e # es)\<close> \<open>j = Some (i + Suc k)\<close>
        \<open>lock_set ((e # es) ! Suc k) = 0\<close> by blast
    qed
  qed
qed simp

lemma scan_list_index:
  "scan_list L a cur ty i es idx s = Inr (False, j, s') \<Longrightarrow>
     (j = idx \<and> (idx = None \<longrightarrow> (\<forall>e \<in> set es. lock_set e \<noteq> L))) \<or>
     (\<exists>k < length es. j = Some (i + k) \<and> lock_set (es ! k) = L)"
proof (induction es arbitrary: i idx s)
  case (Cons e es)
  let ?idx = "if L = lock_set e then Some i else idx"
  obtain u where "scan_list L a cur ty (Suc i) es ?idx u = Inr (False, j, s')"
    using Cons.prems by (auto simp: and_then_eq_Inr split: if_splits)
  from Cons.IH [OF this] show ?case
  proof
    assume "j = ?idx \<and> (?idx = None \<longrightarrow> (\<forall>e \<in> set es. lock_set e \<noteq> L))"
    then show ?thesis by (auto split: if_splits)
  next
    assume "\<exists>k < length es. j = Some (Suc i + k) \<and> lock_set (es ! k) = L"
    then obtain k where "k < length es" "j = Some (i + Suc k)" "lock_set ((e # es) ! Suc k) = L" by auto
    then show ?thesis by (metis Suc_less_eq length_Cons)
  qed
qed simp

section \<open>What is recorded\<close>

text \<open>The second writer and the second reader are never set: the code sets them when both earlier
  steps are parallel, which an unset one is not.\<close>

definition single :: "lockset_entry \<Rightarrow> bool" where
  "single e \<longleftrightarrow> ls_write2 e = 0 \<and> ls_read2 e = 0"

lemma update_pair_single: "update_pair s cur (x, 0) = Inr (y, z) \<Longrightarrow> z = 0"
  by (auto simp: update_pair_def Let_def and_then_eq_Inr split: if_splits)

lemma update_lockset_entry_keeps:
  "update_lockset_entry s cur ty e = Inr e' \<Longrightarrow> lock_set e' = lock_set e \<and> (single e \<longrightarrow> single e')"
  using update_pair_single by (auto simp: update_lockset_entry_def single_def and_then_eq_Inr split: if_splits) 

lemma first_access_simps [simp]:
  "lock_set (first_access L cur ty e) = L" "single (first_access L cur ty e) = single e"
  by (simp_all add: first_access_def single_def)

text \<open>At most one entry for each lock set, the first four before the vector.\<close>

definition locksets_of :: "lockset_metadata \<Rightarrow> 64 word list" where
  "locksets_of meta = filter (\<lambda>l. l \<noteq> 0) (map lock_set (ls_entries meta)) @ map lock_set (listed meta)"

definition wf_lockset :: "lockset_metadata \<Rightarrow> bool" where
  "wf_lockset meta \<longleftrightarrow> length (ls_entries meta) = NUM_LOCKSET_ENTRIES \<and> filled (ls_entries meta) \<and>
     (listed meta \<noteq> [] \<longrightarrow> 0 \<notin> lock_set ` set (ls_entries meta)) \<and> distinct (locksets_of meta) \<and>
     (\<forall>e \<in> set (ls_entries meta) \<union> set (listed meta). single e)"

lemma wf_unset_lockset: "wf_lockset unset_lockset_metadata"
  by (simp add: wf_lockset_def unset_lockset_metadata_def unset_lockset_entry_def locksets_of_def single_def filled_def)

lemma distinct_fill:
  assumes "distinct (filter P xs)" "\<not> P (xs ! k)" "k < length xs" "x \<notin> set xs"
  shows "distinct (filter P (xs[k := x]))"
proof -
  have "filter P xs = filter P (take k xs) @ filter P (drop (Suc k) xs)"
    using id_take_nth_drop [OF assms(3)] assms(2) by (metis filter.simps(2) filter_append)
  moreover have "x \<notin> set (take k xs)" "x \<notin> set (drop (Suc k) xs)"
    using assms(4) by (auto dest: in_set_takeD in_set_dropD)
  ultimately show ?thesis using assms(1,3) by (simp add: upd_conv_take_nth_drop)
qed

lemma wf_fill:
  assumes wf: "wf_lockset meta" and k: "k < length (ls_entries meta)" "lock_set (ls_entries meta ! k) = 0"
    and before: "\<forall>e \<in> set (take k (ls_entries meta)). lock_set e \<noteq> 0 \<and> lock_set e \<noteq> L" and L: "L \<noteq> 0"
  shows "wf_lockset (meta\<lparr>ls_entries := (ls_entries meta)[k := first_access L cur ty (ls_entries meta ! k)]\<rparr>)"
proof -
  let ?es = "ls_entries meta"
  have f: "filled ?es" and none: "listed meta = []"
    using wf k nth_mem [OF k(1)] by (auto simp: wf_lockset_def image_iff)
  have new: "L \<noteq> lock_set (?es ! j)" if "j < length ?es" for j
  proof (cases "j < k")
    case True
    then show ?thesis using before that by (auto simp: set_conv_nth)
  next
    case False
    then show ?thesis using f k that L by (cases "j = k") (auto simp: filled_def dest: linorder_neqE_nat)
  qed
  then have "\<forall>e \<in> set ?es. L \<noteq> lock_set e" by (simp add: all_set_conv_all_nth)
  then have "L \<notin> set (map lock_set ?es)" by auto
  then have "distinct (filter (\<lambda>l. l \<noteq> 0) ((map lock_set ?es)[k := L]))"
    using wf k none by (intro distinct_fill) (simp_all add: wf_lockset_def locksets_of_def)
  moreover have "filled (?es[k := first_access L cur ty (?es ! k)])"
    unfolding filled_def
  proof (intro allI impI)
    fix i j assume ij: "i < j \<and> j < length (?es[k := first_access L cur ty (?es ! k)]) \<and>
      lock_set (?es[k := first_access L cur ty (?es ! k)] ! j) \<noteq> 0"
    have "lock_set (?es ! i) \<noteq> 0" if "i \<noteq> k"
    proof (cases "j = k")
      case True
      then show ?thesis using before ij k(1) by (auto simp: set_conv_nth)
    next
      case False
      then show ?thesis using f ij by (auto simp: filled_def)
    qed
    then show "lock_set (?es[k := first_access L cur ty (?es ! k)] ! i) \<noteq> 0"
      using L ij by (cases "i = k") simp_all
  qed
  moreover have "\<forall>e \<in> set (?es[k := first_access L cur ty (?es ! k)]). single e"
    using wf nth_mem [OF k(1)] set_update_subset_insert by (fastforce simp: wf_lockset_def)
  ultimately show ?thesis using wf none by (simp add: wf_lockset_def locksets_of_def map_update)
qed

lemma update_same:
  "k < length es \<Longrightarrow> lock_set e = lock_set (es ! k) \<Longrightarrow> map lock_set (es[k := e]) = map lock_set es"
  by (metis length_map list_update_id map_update nth_map)

lemma filled_cong:
  assumes "map lock_set es' = map lock_set es"
  shows "filled es' = filled es"
proof -
  have l: "length es' = length es" using assms by (rule map_eq_imp_length_eq)
  have "lock_set (es' ! i) = lock_set (es ! i)" if "i < length es" for i
    using arg_cong [OF assms, of "\<lambda>xs. xs ! i"] that l by simp
  then have "lock_set (es' ! i) = lock_set (es ! i) \<and> lock_set (es' ! j) = lock_set (es ! j)"
    if "i < j \<and> j < length es" for i j using that by simp
  then show ?thesis unfolding filled_def l by metis
qed

lemma wf_same:
  assumes "wf_lockset meta" and e: "map lock_set (ls_entries meta') = map lock_set (ls_entries meta)"
    and l: "map lock_set (listed meta') = map lock_set (listed meta)"
    and "\<forall>e \<in> set (ls_entries meta'). single e" "\<forall>e \<in> set (listed meta'). single e"
  shows "wf_lockset meta'"
proof -
  have "locksets_of meta' = locksets_of meta" by (simp only: locksets_of_def e l)
  moreover have "lock_set ` set (ls_entries meta') = lock_set ` set (ls_entries meta)"
    using e by (metis set_map)
  moreover have "listed meta' = [] \<longleftrightarrow> listed meta = []" using l by (metis map_is_Nil_conv)
  ultimately show ?thesis
    using assms(1,4,5) filled_cong [OF e] map_eq_imp_length_eq [OF e] unfolding wf_lockset_def
    by (metis Un_iff)
qed

lemma single_update: "\<forall>x \<in> set es. single x \<Longrightarrow> single e \<Longrightarrow> \<forall>x \<in> set (es[k := e]). single x"
  using set_update_subset_insert by fastforce

lemma record_access_wf:
  assumes wf: "wf_lockset meta" and L: "L \<noteq> 0" and raw: "single raw"
    and scan: "scan_entries L a cur ty 0 (ls_entries meta) None s0 = Inr (False, i, s1)"
      "scan_list L a cur ty 0 (listed meta) None s1 = Inr (False, j, s2)"
    and rec: "record_access raw s L cur ty i j meta = Inr meta'"
  shows "wf_lockset meta'"
proof -
  let ?es = "ls_entries meta" and ?ls = "listed meta"
  note I = scan_entries_index [OF scan(1)] and J = scan_list_index [OF scan(2)]
  have singles: "\<forall>x \<in> set ?es. single x" "\<forall>x \<in> set ?ls. single x" using wf by (auto simp: wf_lockset_def)
  show ?thesis
  proof (cases i)
    case (Some k)
    show ?thesis
    proof (cases "lock_set (?es ! k) = 0")
      case True
      then have "k < length ?es" "\<forall>e \<in> set (take k ?es). lock_set e \<noteq> 0 \<and> lock_set e \<noteq> L"
        using I Some by auto
      then show ?thesis using wf_fill [OF wf _ True _ L] rec Some True by (auto simp: record_access_def)
    next
      case False
      then obtain e where e: "update_lockset_entry s cur ty (?es ! k) = Inr e" "meta' = meta\<lparr>ls_entries := ?es[k := e]\<rparr>"
        using rec Some by (auto simp: record_access_def)
      have k: "k < length ?es" using I Some by auto
      note u = update_lockset_entry_keeps [OF e(1)]
      have "map lock_set (?es[k := e]) = map lock_set ?es"
        by (rule update_same [OF k conjunct1 [OF u]])
      moreover have "\<forall>x \<in> set (?es[k := e]). single x"
        by (rule single_update [OF singles(1)]) (use u singles(1) nth_mem [OF k] in blast)
      moreover have "ls_entries meta' = ?es[k := e]" "listed meta' = ?ls" using e(2) by simp_all
      ultimately show ?thesis using singles(2) by (intro wf_same [OF wf]) (simp_all only:)
    qed
  next
    case None
    then have full: "\<forall>e \<in> set ?es. lock_set e \<noteq> 0 \<and> lock_set e \<noteq> L" using I by auto
    show ?thesis
    proof (cases j)
      case None
      then have "\<forall>e \<in> set ?ls. lock_set e \<noteq> L" using J by auto
      moreover have "meta' = meta\<lparr>entry_list := Some (?ls @ [first_access L cur ty raw])\<rparr>"
        using rec None \<open>i = None\<close> by (simp add: record_access_def Let_def)
      ultimately show ?thesis using wf full raw singles by (auto simp: wf_lockset_def locksets_of_def)
    next
      case (Some k)
      then obtain e where e: "update_lockset_entry s cur ty (?ls ! k) = Inr e"
        "meta' = meta\<lparr>entry_list := Some (?ls[k := e])\<rparr>"
        using rec \<open>i = None\<close> by (auto simp: record_access_def Let_def)
      have k: "k < length ?ls" using J Some by auto
      note u = update_lockset_entry_keeps [OF e(1)]
      have "map lock_set (?ls[k := e]) = map lock_set ?ls"
        by (rule update_same [OF k conjunct1 [OF u]])
      moreover have "\<forall>x \<in> set (?ls[k := e]). single x"
        by (rule single_update [OF singles(2)]) (use u singles(2) nth_mem [OF k] in blast)
      moreover have "ls_entries meta' = ?es" "listed meta' = ?ls[k := e]" using e(2) by simp_all
      ultimately show ?thesis using singles(1) by (intro wf_same [OF wf]) (simp_all only:)
    qed
  qed
qed

lemma check_and_record_correct:
  assumes wf: "wf_lockset meta" and L: "L \<noteq> 0" and raw: "single raw"
    and run: "check_and_record raw L a cur ty meta s = Inr (meta', s')"
  shows "wf_lockset meta'" "compared a cur WRITE (lock_conflicts L ty meta) s s'"
proof -
  have f: "filled (ls_entries meta)" "0 < length (ls_entries meta)"
    using wf by (simp_all add: wf_lockset_def NUM_LOCKSET_ENTRIES_def)
  have "wf_lockset meta' \<and> compared a cur WRITE (lock_conflicts L ty meta) s s'"
  proof (cases "lock_set (ls_entries meta ! 0) = 0")
    case True
    then have "used (ls_entries meta) = []" "listed meta = []"
    proof -
      obtain e es where e: "ls_entries meta = e # es" using f(2) by (cases "ls_entries meta") auto
      then show "used (ls_entries meta) = []"
        using filled_Cons(2) [of e es] f(1) True by (simp add: used_def)
      show "listed meta = []" using wf True e by (auto simp: wf_lockset_def)
    qed
    then have "lock_conflicts L ty meta = {}" by (simp add: lock_conflicts_def)
    then show ?thesis
      using wf_fill [OF wf f(2) True _ L] run True compared_refl by (auto simp: check_and_record_def)
  next
    case False
    note c1 = scan_entries_checks [OF f(1), of a cur L ty s 0 None]
    obtain race i u where u: "scan_entries L a cur ty 0 (ls_entries meta) None s = Inr (race, i, u)"
      using run False by (auto simp: check_and_record_def)
    note c1 = c1 [unfolded u checks_def]
    note c2 = scan_list_checks [of a cur L ty "listed meta" u 0 None, unfolded checks_def]
    show ?thesis
    proof (cases race)
      case True
      then have "meta' = meta" "s' = u" using run False u by (simp_all add: check_and_record_def)
      moreover have "compared a cur WRITE (apart L ty (used (ls_entries meta))) s u"
        "m_violations_count u \<noteq> 0" using c1 True by auto
      ultimately show ?thesis using wf compared_more [OF _ Un_upper1]
        by (simp add: lock_conflicts_def apart_append)
    next
      case no: False
      then obtain race2 j v where v: "scan_list L a cur ty 0 (listed meta) None u = Inr (race2, j, v)"
        "(if race2 then meta' = meta \<and> s' = v
          else record_access raw v L cur ty i j meta = Inr meta' \<and> s' = v)"
        using run False u no by (auto simp: check_and_record_def split: if_split_asm)
      have "compared a cur WRITE (apart L ty (used (ls_entries meta))) s u"
        "compared a cur WRITE (apart L ty (listed meta)) u v" using c1 no c2 v(1) by auto
      note compared_trans [OF this]
      moreover have "lock_conflicts L ty meta = apart L ty (used (ls_entries meta)) \<union> apart L ty (listed meta)"
        by (simp add: lock_conflicts_def apart_append)
      moreover have "wf_lockset meta'"
        using record_access_wf [OF wf L raw] u no v wf by (cases race2) auto
      ultimately show ?thesis using v(2) by (cases race2) auto
    qed
  qed
  then show "wf_lockset meta'" "compared a cur WRITE (lock_conflicts L ty meta) s s'" by simp_all
qed

section \<open>Runs\<close>

text \<open>A region of two threads that hold no locks: both read a word, then the first one writes it.\<close>

definition free_threads :: "nat \<Rightarrow> LockSet list" where
  "free_threads = push_lockset 0 (push_lockset 1 (\<lambda>_. []))"

definition reads_write_run :: "event list" where
  "reads_write_run = map Callback team_run @ [Access 0 64 READ, Access 1 64 READ, Access 0 64 WRITE]"

lemma unset_lockset_eval:
  "unset_lockset_metadata = \<lparr>ls_entries = [unset_lockset_entry, unset_lockset_entry, unset_lockset_entry,
     unset_lockset_entry], entry_list = None\<rparr>"
  by (simp add: unset_lockset_metadata_def NUM_LOCKSET_ENTRIES_def numeral_eq_Suc)

lemma no_locks_held: "getLockset (last (free_threads 0)) = - 1" "getLockset (last (free_threads 1)) = - 1"
  "getLockset (last (free_threads (Suc 0))) = - 1" "free_threads 0 \<noteq> []" "free_threads (Suc 0) \<noteq> []"
  by (simp_all add: free_threads_def push_lockset_def getLockset_def empty_LockSet_def)

lemma no_locks_common: "no_common_lock (- 1) (- 1)"
  by (simp add: no_common_lock_def)

definition write_run :: "event list" where
  "write_run = map Callback team_run @ [Access 0 64 WRITE]"

lemmas lockset_eval = play_eval m_instrument_access_lockset_def check_and_record_def compare_entry_def
  report_race_def record_access_def update_lockset_entry_def update_pair_def first_access_def
  unset_lockset_eval unset_lockset_entry_def no_locks_held no_locks_common
  m_isparallel_def m_isparallel_precise_def walk_counting_def climb_counting.simps
  meet_counting.simps verdict_precise_def m_are_dependent_def m_lca_def climb.simps meet.simps

abbreviation lockset_play :: "event list \<Rightarrow> (access list \<times> lockset_metadata monitor) option" where
  "lockset_play \<equiv> played Precise unset_lockset_metadata (m_instrument_access_lockset unset_lockset_entry free_threads)"

text \<open>The read of the second thread is not kept, so the race with the write is not found.\<close>

lemma second_reader_lost:
  "\<exists>h s. lockset_play reads_write_run = Some (h, s) \<and> m_violations_count s = 0 \<and>
     place (h ! 1) = place (h ! 2) \<and> is_write (h ! 2) \<and>
     m_isparallel s (by_step (h ! 1)) (by_step (h ! 2)) = Inr True"
  by (simp add: reads_write_run_def lockset_eval cong: and_then_weak_cong)

section \<open>Properties\<close>



end
