(* ===== verification/Lru_Cache.thy ===== *)
theory Lru_Cache
  imports Prelude "HOL-Library.Word"
begin

unbundle bit_operations_syntax

text \<open>
  The cache for answers of the graph queries (\<open>CLNode\<close>, \<open>DoublyLinkedList\<close>, \<open>LRUCache\<close> in
  \<open>openmp_dpst.h\<close>): a hash map into a doubly linked list with the entry used last at the front.
  The nodes live in a heap, one function per field; a pointer is a number or \<open>None\<close> for null, and
  reading through null or a deleted node is the fault \<open>Undefined_behaviour\<close>. The lemmas show that
  the pointer structure is a list of entries, and that the cache is correct for its clients. The
  hash map is a map: which bucket \<open>comp\<close> chooses does not matter to it.
\<close>

type_synonym work_pair = "64 word \<times> 64 word"

text \<open>The hash of a pair, with \<open>hasher\<close> the hash of the standard library.\<close>

definition hash_combine :: "(64 word \<Rightarrow> 64 word) \<Rightarrow> 64 word \<Rightarrow> 64 word \<Rightarrow> 64 word" where
  "hash_combine hasher seed v =
     seed XOR (hasher v + 0x9e3779b9 + push_bit 6 seed + drop_bit 2 seed)"

definition comp_hash :: "(64 word \<Rightarrow> 64 word) \<Rightarrow> work_pair \<Rightarrow> 64 word" where
  "comp_hash hasher p = hash_combine hasher (hash_combine hasher 0 (fst p)) (snd p)"

section \<open>The list\<close>

record CLNode_heap =
  key :: "nat \<Rightarrow> work_pair"
  "value" :: "nat \<Rightarrow> int"
  prev :: "nat \<Rightarrow> nat option"
  "next" :: "nat \<Rightarrow> nat option"
  alive :: "nat \<Rightarrow> bool"
  unused :: nat

record DoublyLinkedList = CLNode_heap +
  head :: nat
  tail :: nat

text \<open>A new node in a heap.\<close>

definition new_CLNode :: "work_pair \<Rightarrow> int \<Rightarrow> 'a CLNode_heap_scheme \<Rightarrow> nat \<times> 'a CLNode_heap_scheme" where
  "new_CLNode k v c =
     (let p = unused c
      in (p, c\<lparr>unused := Suc p, alive := (alive c)(p := True), key := (key c)(p := k),
               value := (value c)(p := v), prev := (prev c)(p := None),
               next := (next c)(p := None)\<rparr>))"

definition new_DoublyLinkedList :: DoublyLinkedList where
  "new_DoublyLinkedList =
     \<lparr>key = (\<lambda>_. (0, 0)), value = (\<lambda>_. 0), prev = (\<lambda>_. None)(1 := Some 0),
      next = (\<lambda>_. None)(0 := Some 1), alive = (\<lambda>_. False)(0 := True, 1 := True), unused = 2,
      head = 0, tail = 1\<rparr>"

text \<open>Following a pointer.\<close>

definition go :: "nat option \<Rightarrow> 'a CLNode_heap_scheme \<Rightarrow> nat result" where
  "go p c = (case p of None \<Rightarrow> Inl Undefined_behaviour
                     | Some a \<Rightarrow> if alive c a then Inr a else Inl Undefined_behaviour)"

definition isEmpty :: "'a DoublyLinkedList_scheme \<Rightarrow> bool" where
  "isEmpty c \<longleftrightarrow> next c (head c) = Some (tail c)"

definition link_front :: "nat \<Rightarrow> 'a DoublyLinkedList_scheme \<Rightarrow> 'a DoublyLinkedList_scheme result" where
  "link_front node c =
     and_then (go (next c (head c)) c) (\<lambda>first.
       let c = c\<lparr>prev := (prev c)(first := Some node)\<rparr>;
           c = c\<lparr>next := (next c)(node := next c (head c))\<rparr>;
           c = c\<lparr>prev := (prev c)(node := Some (head c))\<rparr>
       in Inr (c\<lparr>next := (next c)(head c := Some node)\<rparr>))"

definition add_node_to_head ::
  "work_pair \<Rightarrow> int \<Rightarrow> 'a DoublyLinkedList_scheme \<Rightarrow> (nat \<times> 'a DoublyLinkedList_scheme) result" where
  "add_node_to_head k v c =
     (let (node, c) = new_CLNode k v c in and_then (link_front node c) (\<lambda>c. Inr (node, c)))"

definition move_node_to_head ::
  "nat \<Rightarrow> 'a DoublyLinkedList_scheme \<Rightarrow> 'a DoublyLinkedList_scheme result" where
  "move_node_to_head node c =
     (if next c (head c) = Some node then Inr c
      else and_then (go (prev c node) c) (\<lambda>p.
             let c = c\<lparr>next := (next c)(p := next c node)\<rparr> in
           and_then (go (next c node) c) (\<lambda>n.
             let c = c\<lparr>prev := (prev c)(n := prev c node)\<rparr> in link_front node c)))"

definition remove_lru_node :: "'a DoublyLinkedList_scheme \<Rightarrow> 'a DoublyLinkedList_scheme result" where
  "remove_lru_node c =
     (if isEmpty c then Inr c
      else and_then (go (prev c (tail c)) c) (\<lambda>evict_node.
             let c = c\<lparr>prev := (prev c)(tail c := prev c evict_node)\<rparr> in
           and_then (go (prev c evict_node) c) (\<lambda>p.
             let c = c\<lparr>next := (next c)(p := Some (tail c))\<rparr>
             in Inr (c\<lparr>alive := (alive c)(evict_node := False)\<rparr>))))"

definition get_lru_node :: "'a DoublyLinkedList_scheme \<Rightarrow> nat result" where
  "get_lru_node c = go (prev c (tail c)) c"

section \<open>The cache\<close>

record LRUCache = DoublyLinkedList +
  capacity :: int
  size_of :: int
  lcaMap :: "work_pair \<rightharpoonup> nat"

definition new_LRUCache :: "int \<Rightarrow> LRUCache" where
  "new_LRUCache cap =
     DoublyLinkedList.extend new_DoublyLinkedList \<lparr>capacity = cap, size_of = 0, lcaMap = Map.empty\<rparr>"

definition default_capacity :: int where
  "default_capacity = 2 * 2 ^ 20"

definition lru_get :: "work_pair \<Rightarrow> LRUCache \<Rightarrow> (int \<times> LRUCache) result" where
  "lru_get k c =
     (case lcaMap c k of
        None \<Rightarrow> Inr (-1, c)
      | Some node \<Rightarrow>
          and_then (go (Some node) c) (\<lambda>node.
            let val = value c node in
            and_then (move_node_to_head node c) (\<lambda>c. Inr (val, c))))"

definition lru_put :: "work_pair \<Rightarrow> int \<Rightarrow> LRUCache \<Rightarrow> LRUCache result" where
  "lru_put k v c =
     (case lcaMap c k of
        Some node \<Rightarrow>
          and_then (go (Some node) c) (\<lambda>node.
            move_node_to_head node (c\<lparr>value := (value c)(node := v)\<rparr>))
      | None \<Rightarrow>
          and_then
            (if size_of c = capacity c
             then and_then (get_lru_node c) (\<lambda>lru.
                    let c = c\<lparr>lcaMap := (lcaMap c)(key c lru := None)\<rparr> in
                  and_then (remove_lru_node c) (\<lambda>c. Inr (c\<lparr>size_of := size_of c - 1\<rparr>)))
             else Inr c)
            (\<lambda>c. and_then (add_node_to_head k v c) (\<lambda>(page, c).
               let c = c\<lparr>size_of := size_of c + 1\<rparr>
               in Inr (c\<lparr>lcaMap := (lcaMap c)(k \<mapsto> page)\<rparr>))))"

text \<open>\<open>clearCache\<close> and the destructor have the same body: the nodes of the map are deleted, in the
  order \<open>order\<close> in which the hash map holds its keys, and then the list object, whose own class
  has no destructor. The flag says that the list object has been deleted.\<close>

definition delete_node :: "nat option \<Rightarrow> 'a CLNode_heap_scheme \<Rightarrow> 'a CLNode_heap_scheme result" where
  "delete_node p c =
     (case p of None \<Rightarrow> Inr c
      | Some a \<Rightarrow> if alive c a then Inr (c\<lparr>alive := (alive c)(a := False)\<rparr>) else Inl Undefined_behaviour)"

definition clearCache :: "work_pair list \<Rightarrow> bool \<times> LRUCache \<Rightarrow> (bool \<times> LRUCache) result" where
  "clearCache order st =
     (let (list_deleted, c) = st in
      and_then (block (map (\<lambda>k c. delete_node (lcaMap c k) c) order) c) (\<lambda>c.
        if list_deleted then Inl Undefined_behaviour else Inr (True, c)))"

section \<open>Chains of nodes\<close>

fun chain :: "(nat \<Rightarrow> nat option) \<Rightarrow> (nat \<Rightarrow> nat option) \<Rightarrow> nat list \<Rightarrow> bool" where
  "chain nx pv (a # b # xs) \<longleftrightarrow> nx a = Some b \<and> pv b = Some a \<and> chain nx pv (b # xs)"
| "chain nx pv xs \<longleftrightarrow> True"

lemma chain_append: "chain nx pv (xs @ a # ys) \<longleftrightarrow> chain nx pv (xs @ [a]) \<and> chain nx pv (a # ys)"
  by (induction nx pv xs rule: chain.induct) (auto simp: neq_Nil_conv elim: chain.elims)

lemma chain_next_upd [simp]: "a \<notin> set (butlast xs) \<Longrightarrow> chain (nx(a := v)) pv xs = chain nx pv xs"
  by (induction nx pv xs rule: chain.induct) auto

lemma chain_prev_upd [simp]: "a \<notin> set (tl xs) \<Longrightarrow> chain nx (pv(a := v)) xs = chain nx pv xs"
  by (induction nx pv xs rule: chain.induct) auto

lemma chain_upd_off [simp]:
  "a \<notin> set xs \<Longrightarrow> chain (nx(a := v)) pv xs = chain nx pv xs"
  "a \<notin> set xs \<Longrightarrow> chain nx (pv(a := v)) xs = chain nx pv xs"
  by (auto dest: in_set_butlastD list.set_sel(2) intro!: chain_next_upd chain_prev_upd)
    (metis chain_prev_upd list.set_sel(2) tl_Nil)+

lemma chain_insert:
  assumes "chain nx pv (a # b # xs)" and "distinct (a # b # xs)" and "p \<notin> set (a # b # xs)"
  shows "chain (nx(p := Some b, a := Some p)) (pv(b := Some p, p := Some a)) (a # p # b # xs)"
  using assms by simp

lemma chain_delete:
  assumes "chain nx pv (as @ a # p # b # bs)" and "distinct (as @ a # p # b # bs)"
  shows "chain (nx(a := Some b)) (pv(b := Some a)) (as @ a # b # bs)"
proof -
  have c: "chain nx pv (as @ [a])" "chain nx pv (b # bs)"
    using assms(1) chain_append [of nx pv as a "p # b # bs"] by auto
  have "chain (nx(a := Some b)) (pv(b := Some a)) (as @ [a])" using c(1) assms(2) by simp
  moreover have "chain (nx(a := Some b)) (pv(b := Some a)) (b # bs)" using c(2) assms(2) by simp
  ultimately show ?thesis by (subst chain_append) simp
qed


section \<open>The list in the heap\<close>

text \<open>\<open>ps\<close> are the nodes between head and tail, the entry used last first.\<close>

definition nodes_of :: "'a DoublyLinkedList_scheme \<Rightarrow> nat list \<Rightarrow> nat list" where
  "nodes_of c ps = head c # ps @ [tail c]"

definition list_rep :: "'a DoublyLinkedList_scheme \<Rightarrow> nat list \<Rightarrow> bool" where
  "list_rep c ps \<longleftrightarrow> distinct (nodes_of c ps) \<and> chain (next c) (prev c) (nodes_of c ps) \<and>
     (\<forall>p \<in> set (nodes_of c ps). alive c p \<and> p < unused c)"

definition relinked :: "'a DoublyLinkedList_scheme \<Rightarrow> 'a DoublyLinkedList_scheme \<Rightarrow> bool" where
  "relinked c c' \<longleftrightarrow> (\<exists>pv nx. c' = c\<lparr>prev := pv, next := nx\<rparr>)"

lemma relinkedI: "c' = c\<lparr>prev := pv, next := nx\<rparr> \<Longrightarrow> relinked c c'"
  unfolding relinked_def by blast

lemma relinked_refl [simp]: "relinked c c"
  by (rule relinkedI [where pv = "prev c" and nx = "next c"]) simp

lemma relinked_trans:
  assumes "relinked c d" and "relinked d e"
  shows "relinked c e"
proof -
  from assms obtain pv nx pv' nx' where "d = c\<lparr>prev := pv, next := nx\<rparr>" "e = d\<lparr>prev := pv', next := nx'\<rparr>"
    unfolding relinked_def by blast
  then show ?thesis by (intro relinkedI [where pv = pv' and nx = nx']) simp
qed

lemma relinkedD:
  assumes "relinked c c'"
  shows "head c' = head c" "tail c' = tail c" "key c' = key c" "value c' = value c"
    "alive c' = alive c" "unused c' = unused c" "DoublyLinkedList.more c' = DoublyLinkedList.more c"
  using assms by (auto simp: relinked_def)

lemma link_front_ok:
  assumes r: "list_rep c ps" and n: "node \<notin> set (nodes_of c ps)" "alive c node" "node < unused c"
  shows "\<exists>c'. link_front node c = Inr c' \<and> relinked c c' \<and> list_rep c' (node # ps)"
proof -
  obtain b xs where b: "ps @ [tail c] = b # xs" by (cases "ps @ [tail c]") auto
  have ch: "chain (next c) (prev c) (head c # b # xs)" and d: "distinct (head c # b # xs)"
    and al: "\<forall>p \<in> set (head c # b # xs). alive c p \<and> p < unused c"
    and nd: "node \<notin> set (head c # b # xs)"
    using r n(1) by (simp_all add: list_rep_def nodes_of_def b)
  let ?c = "c\<lparr>prev := (prev c)(b := Some node, node := Some (head c)),
             next := (next c)(node := Some b, head c := Some node)\<rparr>"
  have "link_front node c = Inr ?c" using ch al by (simp add: link_front_def go_def Let_def)
  moreover have "list_rep ?c (node # ps)"
    using chain_insert [OF ch d nd] d nd al n(2,3) by (simp add: list_rep_def nodes_of_def b)
  moreover have "relinked c ?c" by (rule relinkedI) simp
  ultimately show ?thesis by blast
qed

lemma move_node_to_head_ok:
  assumes r: "list_rep c (us @ p # vs)"
  shows "\<exists>c'. move_node_to_head p c = Inr c' \<and> relinked c c' \<and> list_rep c' (p # us @ vs)"
proof (cases us rule: rev_cases)
  case Nil
  then have "next c (head c) = Some p" using r by (simp add: list_rep_def nodes_of_def)
  then show ?thesis using r Nil by (intro exI [of _ c]) (simp add: move_node_to_head_def)
next
  case (snoc ws a)
  obtain b xs where b: "vs @ [tail c] = b # xs" by (cases "vs @ [tail c]") auto
  have nodes: "nodes_of c (us @ p # vs) = (head c # ws) @ a # p # b # xs"
    by (simp add: nodes_of_def snoc b)
  have ch: "chain (next c) (prev c) ((head c # ws) @ a # p # b # xs)"
    and d: "distinct ((head c # ws) @ a # p # b # xs)"
    and al: "\<forall>q \<in> set ((head c # ws) @ a # p # b # xs). alive c q \<and> q < unused c"
    using r unfolding list_rep_def nodes by blast+
  have p: "prev c p = Some a" "next c p = Some b"
    using chain_append [THEN iffD1, OF ch] by simp_all
  have "next c (head c) \<noteq> Some p" using ch d by (cases ws) auto
  let ?d = "c\<lparr>next := (next c)(a := Some b), prev := (prev c)(b := Some a)\<rparr>"
  have run: "move_node_to_head p c = link_front p ?d"
    using \<open>next c (head c) \<noteq> Some p\<close> p al d by (simp add: move_node_to_head_def go_def Let_def)
  have nd: "nodes_of ?d (us @ vs) = (head c # ws) @ a # b # xs"
    by (simp add: nodes_of_def snoc b)
  have "list_rep ?d (us @ vs)"
    unfolding list_rep_def nd using chain_delete [OF ch d] d al by simp
  moreover have "p \<notin> set (nodes_of ?d (us @ vs))" "alive ?d p" "p < unused ?d"
    unfolding nd using d al by auto
  ultimately obtain c' where "link_front p ?d = Inr c'" "relinked ?d c'" "list_rep c' (p # us @ vs)"
    using link_front_ok by blast
  moreover have "?d = c\<lparr>prev := (prev c)(b := Some a), next := (next c)(a := Some b)\<rparr>" by simp
  then have "relinked c ?d" by (rule relinkedI)
  ultimately show ?thesis using run relinked_trans by auto
qed

lemma last_node:
  assumes "list_rep c (ps @ [e])"
  obtains xs a where "nodes_of c (ps @ [e]) = xs @ a # e # [tail c]" "head c # ps = xs @ [a]"
    "prev c (tail c) = Some e" "prev c e = Some a" "next c (head c) \<noteq> Some (tail c)"
proof -
  obtain xs a where xs: "head c # ps = xs @ [a]" by (cases "head c # ps" rule: rev_cases) auto
  have nodes: "nodes_of c (ps @ [e]) = xs @ a # e # [tail c]" using xs by (simp add: nodes_of_def)
  have ch: "chain (next c) (prev c) (xs @ a # e # [tail c])" using assms nodes by (simp add: list_rep_def)
  have "prev c (tail c) = Some e" "prev c e = Some a"
    using chain_append [THEN iffD1, OF ch] by simp_all
  moreover have "next c (head c) \<noteq> Some (tail c)"
    using assms by (cases ps) (auto simp: list_rep_def nodes_of_def)
  ultimately show ?thesis using that nodes xs by blast
qed

lemma get_lru_node_ok:
  assumes "list_rep c (ps @ [e])"
  shows "get_lru_node c = Inr e"
proof -
  have "prev c (tail c) = Some e" using last_node [OF assms] by blast
  then show ?thesis using assms by (simp add: get_lru_node_def go_def list_rep_def nodes_of_def)
qed

lemma remove_lru_node_ok:
  assumes r: "list_rep c (ps @ [e])"
  shows "\<exists>c' pv nx. remove_lru_node c = Inr c' \<and> list_rep c' ps \<and>
    c' = c\<lparr>prev := pv, next := nx, alive := (alive c)(e := False)\<rparr>"
proof -
  obtain xs a where l: "nodes_of c (ps @ [e]) = xs @ a # e # [tail c]" "head c # ps = xs @ [a]"
      "prev c (tail c) = Some e" "prev c e = Some a" "next c (head c) \<noteq> Some (tail c)"
    by (rule last_node [OF r])
  have ch: "chain (next c) (prev c) (xs @ a # e # tail c # [])"
    and d: "distinct (xs @ a # e # tail c # [])"
    and al: "\<forall>q \<in> set (xs @ a # e # tail c # []). alive c q \<and> q < unused c"
    using r unfolding list_rep_def l(1) by blast+
  let ?c = "c\<lparr>prev := (prev c)(tail c := Some a), next := (next c)(a := Some (tail c)),
             alive := (alive c)(e := False)\<rparr>"
  have "remove_lru_node c = Inr ?c"
    using l(3-5) al d by (simp add: remove_lru_node_def isEmpty_def go_def Let_def)
  moreover have nd: "nodes_of ?c ps = xs @ a # tail c # []" using l(2) by (simp add: nodes_of_def)
  have "list_rep ?c ps"
    unfolding list_rep_def nd using chain_delete [OF ch d] d al by auto
  ultimately show ?thesis by blast
qed

lemma add_node_to_head_ok:
  assumes r: "list_rep c ps"
  shows "\<exists>c' pv nx. add_node_to_head k v c = Inr (unused c, c') \<and> list_rep c' (unused c # ps) \<and>
    c' = c\<lparr>unused := Suc (unused c), alive := (alive c)(unused c := True),
           key := (key c)(unused c := k), value := (value c)(unused c := v),
           prev := pv, next := nx\<rparr>"
proof -
  let ?p = "unused c"
  let ?d = "snd (new_CLNode k v c)"
  have new: "?p \<notin> set (nodes_of c ps)" using r by (auto simp: list_rep_def)
  have nd: "nodes_of ?d ps = nodes_of c ps" by (simp add: nodes_of_def new_CLNode_def Let_def)
  have "list_rep ?d ps"
    unfolding list_rep_def nd using r new
    by (auto simp: list_rep_def new_CLNode_def Let_def less_Suc_eq)
  moreover have "?p \<notin> set (nodes_of ?d ps)" "alive ?d ?p" "?p < unused ?d"
    unfolding nd using new by (simp_all add: new_CLNode_def Let_def)
  ultimately obtain c' where c': "link_front ?p ?d = Inr c'" "relinked ?d c'" "list_rep c' (?p # ps)"
    using link_front_ok by blast
  then show ?thesis by (auto simp: add_node_to_head_def new_CLNode_def Let_def relinked_def)
qed

lemma new_list_rep: "list_rep new_DoublyLinkedList []"
  by (simp add: list_rep_def nodes_of_def new_DoublyLinkedList_def)


section \<open>The cache as a list of entries\<close>

definition lru_rep :: "LRUCache \<Rightarrow> nat list \<Rightarrow> bool" where
  "lru_rep c ps \<longleftrightarrow> list_rep c ps \<and> size_of c = int (length ps) \<and>
     (\<forall>k p. lcaMap c k = Some p \<longleftrightarrow> p \<in> set ps \<and> key c p = k)"

definition entries_of :: "LRUCache \<Rightarrow> nat list \<Rightarrow> (work_pair \<times> int) list" where
  "entries_of c ps = map (\<lambda>p. (key c p, value c p)) ps"

text \<open>The specification: the entry asked for moves to the front, and a new entry drops the last
  one of a full cache.\<close>

definition to_front :: "work_pair \<Rightarrow> int \<Rightarrow> (work_pair \<times> int) list \<Rightarrow> (work_pair \<times> int) list" where
  "to_front k v xs = (k, v) # filter (\<lambda>x. fst x \<noteq> k) xs"

definition spec_get :: "work_pair \<Rightarrow> (work_pair \<times> int) list \<Rightarrow> int \<times> (work_pair \<times> int) list" where
  "spec_get k xs = (case map_of xs k of None \<Rightarrow> (-1, xs) | Some v \<Rightarrow> (v, to_front k v xs))"

definition spec_put ::
  "nat \<Rightarrow> work_pair \<Rightarrow> int \<Rightarrow> (work_pair \<times> int) list \<Rightarrow> (work_pair \<times> int) list" where
  "spec_put cap k v xs =
     (if map_of xs k = None \<and> length xs = cap then (k, v) # butlast xs else to_front k v xs)"

lemma key_inj: "lru_rep c ps \<Longrightarrow> p \<in> set ps \<Longrightarrow> q \<in> set ps \<Longrightarrow> key c p = key c q \<Longrightarrow> p = q"
  unfolding lru_rep_def by (metis option.inject)

lemma entries_split:
  assumes "lru_rep c (us @ p # vs)"
  shows "map_of (entries_of c (us @ p # vs)) (key c p) = Some (value c p)"
    and "filter (\<lambda>x. fst x \<noteq> key c p) (entries_of c (us @ p # vs)) = entries_of c (us @ vs)"
proof -
  have other: "key c q \<noteq> key c p" if "q \<in> set us \<union> set vs" for q
    using that key_inj [OF assms, of q p] assms by (auto simp: lru_rep_def list_rep_def nodes_of_def)
  then have "map_of (entries_of c us) (key c p) = None"
    by (fastforce simp: entries_of_def map_of_eq_None_iff image_image)
  then show "map_of (entries_of c (us @ p # vs)) (key c p) = Some (value c p)"
    by (simp add: entries_of_def map_add_def)
  show "filter (\<lambda>x. fst x \<noteq> key c p) (entries_of c (us @ p # vs)) = entries_of c (us @ vs)"
    using other by (simp add: entries_of_def filter_id_conv)
qed

lemma lcaMap_iff: "lru_rep c ps \<Longrightarrow> lcaMap c k = Some p \<longleftrightarrow> p \<in> set ps \<and> key c p = k"
  unfolding lru_rep_def by blast

lemma map_of_entries:
  assumes "lru_rep c ps"
  shows "lcaMap c k = None \<longleftrightarrow> map_of (entries_of c ps) k = None"
proof -
  have "lcaMap c k = None \<longleftrightarrow> k \<notin> key c ` set ps" using lcaMap_iff [OF assms, of k] by (metis imageE image_eqI not_None_eq)
  then show ?thesis by (simp add: entries_of_def map_of_eq_None_iff image_image)
qed

text \<open>A hit: the node goes to the front, perhaps with a new value.\<close>

lemma hit_rep:
  assumes r: "lru_rep c ps" and k: "lcaMap c k = Some p"
  shows "\<exists>c' qs. go (Some p) c = Inr p \<and>
      move_node_to_head p (c\<lparr>value := (value c)(p := v)\<rparr>) = Inr c' \<and> lru_rep c' qs \<and>
      entries_of c' qs = to_front k v (entries_of c ps) \<and> capacity c' = capacity c"
    and "map_of (entries_of c ps) k = Some (value c p)"
proof -
  have p: "p \<in> set ps" "key c p = k" using lcaMap_iff [OF r] k by simp_all
  then obtain us vs where ps: "ps = us @ p # vs" by (meson split_list)
  let ?d = "c\<lparr>value := (value c)(p := v)\<rparr>"
  have lr: "list_rep c ps" using r by (simp add: lru_rep_def)
  have "list_rep ?d ps" using lr by (simp add: list_rep_def nodes_of_def)
  then obtain c' where c': "move_node_to_head p ?d = Inr c'" "relinked ?d c'" "list_rep c' (p # us @ vs)"
    using move_node_to_head_ok [of ?d us p vs] by (auto simp: ps)
  note f = relinkedD [OF c'(2)]
  have more: "size_of c' = size_of c" "lcaMap c' = lcaMap c" "capacity c' = capacity c"
    using f(7) by (cases c'; cases c; simp)+
  have "lru_rep c' (p # us @ vs)"
    unfolding lru_rep_def using r c'(3) f(3) more lcaMap_iff [OF r] by (auto simp: lru_rep_def ps)
  moreover have "p \<notin> set us \<union> set vs" using lr by (auto simp: list_rep_def nodes_of_def ps)
  then have "entries_of c' (p # us @ vs) = to_front k v (entries_of c ps)"
    using entries_split(2) [of c us p vs] r f(3,4) p(2)
    by (auto simp: to_front_def entries_of_def ps)
  moreover have "go (Some p) c = Inr p" using lr p(1) by (auto simp: go_def list_rep_def nodes_of_def)
  ultimately show "\<exists>c' qs. go (Some p) c = Inr p \<and>
      move_node_to_head p (c\<lparr>value := (value c)(p := v)\<rparr>) = Inr c' \<and> lru_rep c' qs \<and>
      entries_of c' qs = to_front k v (entries_of c ps) \<and> capacity c' = capacity c"
    using c'(1) more(3) by blast
  show "map_of (entries_of c ps) k = Some (value c p)"
    using entries_split(1) [of c us p vs] r p(2) by (simp add: ps)
qed

lemma lru_get_ok:
  assumes "lru_rep c ps"
  shows "\<exists>v c' qs. lru_get k c = Inr (v, c') \<and> lru_rep c' qs \<and>
    spec_get k (entries_of c ps) = (v, entries_of c' qs) \<and> capacity c' = capacity c"
proof (cases "lcaMap c k")
  case None
  then show ?thesis
    using assms map_of_entries [OF assms, of k] by (auto simp: lru_get_def spec_get_def)
next
  case (Some p)
  have "c\<lparr>value := (value c)(p := value c p)\<rparr> = c" by simp
  then show ?thesis
    using hit_rep(1) [OF assms Some, of "value c p"] hit_rep(2) [OF assms Some] Some
    by (fastforce simp: lru_get_def spec_get_def Let_def)
qed


lemma lru_put_hit:
  assumes "lru_rep c ps" and "lcaMap c k = Some p"
  shows "\<exists>c' qs. lru_put k v c = Inr c' \<and> lru_rep c' qs \<and>
    entries_of c' qs = to_front k v (entries_of c ps) \<and> capacity c' = capacity c"
  using hit_rep(1) [OF assms, of v] assms(2) by (auto simp: lru_put_def)

text \<open>A miss: the new node, after room has been made.\<close>

lemma add_entry:
  assumes r: "lru_rep c ps" and k: "lcaMap c k = None"
  shows "\<exists>c' qs. and_then (add_node_to_head k v c) (\<lambda>(page, c).
           let c = c\<lparr>size_of := size_of c + 1\<rparr>
           in Inr (c\<lparr>lcaMap := (lcaMap c)(k \<mapsto> page)\<rparr>)) = Inr c' \<and> lru_rep c' qs \<and>
      entries_of c' qs = (k, v) # entries_of c ps \<and> capacity c' = capacity c"
proof -
  have lr: "list_rep c ps" using r by (simp add: lru_rep_def)
  obtain c1 pv nx where a: "add_node_to_head k v c = Inr (unused c, c1)" "list_rep c1 (unused c # ps)"
    and c1: "c1 = c\<lparr>unused := Suc (unused c), alive := (alive c)(unused c := True),
           key := (key c)(unused c := k), value := (value c)(unused c := v), prev := pv, next := nx\<rparr>"
    using add_node_to_head_ok [OF lr, of k v] by blast
  have new: "unused c \<notin> set ps" using lr by (auto simp: list_rep_def nodes_of_def)
  let ?c = "c1\<lparr>size_of := size_of c1 + 1, lcaMap := (lcaMap c1)(k \<mapsto> unused c)\<rparr>"
  have "list_rep ?c (unused c # ps)" using a(2) by (simp add: list_rep_def nodes_of_def)
  moreover have "(lcaMap ?c q = Some p) = (p \<in> set (unused c # ps) \<and> key ?c p = q)" for q p
    using lcaMap_iff [OF r, of q p] k new lcaMap_iff [OF r, of k p] by (auto simp: c1)
  moreover have "size_of ?c = int (length (unused c # ps))" using r by (simp add: c1 lru_rep_def)
  ultimately have "lru_rep ?c (unused c # ps)" unfolding lru_rep_def by blast
  moreover have "entries_of ?c (unused c # ps) = (k, v) # entries_of c ps"
    using new by (auto simp: entries_of_def c1)
  moreover have "capacity ?c = capacity c" by (simp add: c1)
  moreover have "and_then (add_node_to_head k v c) (\<lambda>(page, c).
           let c = c\<lparr>size_of := size_of c + 1\<rparr>
           in Inr (c\<lparr>lcaMap := (lcaMap c)(k \<mapsto> page)\<rparr>)) = Inr ?c"
    using a(1) by (simp add: Let_def)
  ultimately show ?thesis by (intro exI conjI)
qed

lemma drop_lru:
  assumes r: "lru_rep c (ps @ [e])"
  shows "\<exists>c'. and_then (get_lru_node c) (\<lambda>lru.
           let c = c\<lparr>lcaMap := (lcaMap c)(key c lru := None)\<rparr> in
           and_then (remove_lru_node c) (\<lambda>c. Inr (c\<lparr>size_of := size_of c - 1\<rparr>))) = Inr c' \<and>
      lru_rep c' ps \<and> entries_of c' ps = entries_of c ps \<and> capacity c' = capacity c \<and>
      (\<forall>k. lcaMap c k = None \<longrightarrow> lcaMap c' k = None)"
proof -
  have lr: "list_rep c (ps @ [e])" using r by (simp add: lru_rep_def)
  let ?d = "c\<lparr>lcaMap := (lcaMap c)(key c e := None)\<rparr>"
  have "list_rep ?d (ps @ [e])" using lr by (simp add: list_rep_def nodes_of_def)
  then obtain c1 pv nx where a: "remove_lru_node ?d = Inr c1" "list_rep c1 ps"
    and c1: "c1 = ?d\<lparr>prev := pv, next := nx, alive := (alive ?d)(e := False)\<rparr>"
    using remove_lru_node_ok by blast
  let ?c = "c1\<lparr>size_of := size_of c1 - 1\<rparr>"
  have e: "e \<notin> set ps" using lr by (simp add: list_rep_def nodes_of_def)
  have "(lcaMap ?c q = Some p) = (p \<in> set ps \<and> key ?c p = q)" for q p
    using lcaMap_iff [OF r, of q p] key_inj [OF r, of p e] e by (auto simp: c1)
  moreover have "list_rep ?c ps" using a(2) by (simp add: list_rep_def nodes_of_def)
  moreover have "size_of ?c = int (length ps)" using r by (simp add: c1 lru_rep_def)
  ultimately have "lru_rep ?c ps" unfolding lru_rep_def by blast
  moreover have "entries_of ?c ps = entries_of c ps" "capacity ?c = capacity c"
      "\<forall>k. lcaMap c k = None \<longrightarrow> lcaMap ?c k = None"
    by (simp_all add: entries_of_def c1)
  moreover have "and_then (get_lru_node c) (\<lambda>lru.
           let c = c\<lparr>lcaMap := (lcaMap c)(key c lru := None)\<rparr> in
           and_then (remove_lru_node c) (\<lambda>c. Inr (c\<lparr>size_of := size_of c - 1\<rparr>))) = Inr ?c"
    using a(1) get_lru_node_ok [OF lr] by (simp add: Let_def)
  ultimately show ?thesis by (intro exI conjI)
qed

lemma lru_put_ok:
  assumes r: "lru_rep c ps" and cap: "capacity c = int n" "0 < n"
  shows "\<exists>c' qs. lru_put k v c = Inr c' \<and> lru_rep c' qs \<and>
    entries_of c' qs = spec_put n k v (entries_of c ps) \<and> capacity c' = capacity c"
proof (cases "lcaMap c k")
  case (Some p)
  then show ?thesis
    using lru_put_hit [OF r Some, of v] map_of_entries [OF r, of k] by (auto simp: spec_put_def)
next
  case None
  have len: "length (entries_of c ps) = length ps" by (simp add: entries_of_def)
  have miss: "map_of (entries_of c ps) k = None" using map_of_entries [OF r] None by simp
  have "filter (\<lambda>x. fst x \<noteq> k) xs = xs" if "map_of xs k = None" for xs :: "(work_pair \<times> int) list"
    using that by (auto simp: map_of_eq_None_iff filter_id_conv)
  then have spec: "spec_put n k v (entries_of c ps) =
      (k, v) # (if length ps = n then butlast (entries_of c ps) else entries_of c ps)"
    using miss len by (simp add: spec_put_def to_front_def)
  show ?thesis
  proof (cases "length ps = n")
    case True
    then obtain qs e where ps: "ps = qs @ [e]" using cap(2) by (cases ps rule: rev_cases) auto
    obtain c1 where c1: "and_then (get_lru_node c) (\<lambda>lru.
           let c = c\<lparr>lcaMap := (lcaMap c)(key c lru := None)\<rparr> in
           and_then (remove_lru_node c) (\<lambda>c. Inr (c\<lparr>size_of := size_of c - 1\<rparr>))) = Inr c1"
      "lru_rep c1 qs" "entries_of c1 qs = entries_of c qs" "capacity c1 = capacity c" "lcaMap c1 k = None"
      using drop_lru [of c qs e] r None unfolding ps by metis
    have "size_of c = capacity c" using r cap(1) True by (simp add: lru_rep_def)
    moreover obtain c2 qs' where c2: "and_then (add_node_to_head k v c1) (\<lambda>(page, c).
           let c = c\<lparr>size_of := size_of c + 1\<rparr>
           in Inr (c\<lparr>lcaMap := (lcaMap c)(k \<mapsto> page)\<rparr>)) = Inr c2"
      "lru_rep c2 qs'" "entries_of c2 qs' = (k, v) # entries_of c1 qs" "capacity c2 = capacity c1"
      using add_entry [OF c1(2,5), of v] by metis
    ultimately have "lru_put k v c = Inr c2"
      using c1(1) None by (simp add: lru_put_def Let_def)
    moreover have "entries_of c2 qs' = spec_put n k v (entries_of c ps)"
      using c1(3) c2(3) spec True by (simp add: ps entries_of_def)
    ultimately show ?thesis using c1(4) c2(2,4) by (intro exI [of _ c2] exI [of _ qs']) simp
  next
    case False
    then have "size_of c \<noteq> capacity c" using r cap(1) by (simp add: lru_rep_def)
    then show ?thesis using add_entry [OF r None, of v] None spec False by (auto simp: lru_put_def)
  qed
qed

lemma new_lru_rep: "lru_rep (new_LRUCache cap) []"
proof -
  have "list_rep (new_LRUCache cap) []"
    by (simp add: list_rep_def nodes_of_def new_DoublyLinkedList_def new_LRUCache_def DoublyLinkedList.defs)
  then show ?thesis by (simp add: lru_rep_def new_LRUCache_def DoublyLinkedList.defs)
qed


section \<open>The contract of a cache\<close>

text \<open>What a client needs: lookups and insertions return, and no entry appears that was not put.
  A query answered through such a cache is answered as without it.\<close>

locale cache =
  fixes get :: "'k \<Rightarrow> 's \<Rightarrow> (int \<times> 's) result" and put :: "'k \<Rightarrow> int \<Rightarrow> 's \<Rightarrow> 's result"
    and holds :: "'s \<Rightarrow> ('k \<times> int) set \<Rightarrow> bool"
  assumes get_ok: "holds s es \<Longrightarrow> \<exists>v s' es'. get k s = Inr (v, s') \<and> holds s' es' \<and> es' \<subseteq> es \<and>
      (v = -1 \<or> (k, v) \<in> es)"
    and put_ok: "holds s es \<Longrightarrow> \<exists>s' es'. put k v s = Inr s' \<and> holds s' es' \<and> es' \<subseteq> insert (k, v) es"
begin

text \<open>The use the code has for it: \<open>f\<close> is computed on a miss, and its answer is put.\<close>

definition ask :: "('k \<Rightarrow> int) \<Rightarrow> 'k \<Rightarrow> 's \<Rightarrow> (int \<times> 's) result" where
  "ask f k s = and_then (get k s) (\<lambda>(v, s).
     if v = -1 then and_then (put k (f k) s) (\<lambda>s. Inr (f k, s)) else Inr (v, s))"

definition caches :: "('k \<Rightarrow> int) \<Rightarrow> 's \<Rightarrow> bool" where
  "caches f s \<longleftrightarrow> (\<exists>es. holds s es \<and> (\<forall>(k, v) \<in> es. v = f k))"

lemma ask_ok:
  assumes "caches f s"
  shows "\<exists>s'. ask f k s = Inr (f k, s') \<and> caches f s'"
proof -
  obtain es where es: "holds s es" "\<forall>(k, v) \<in> es. v = f k" using assms by (auto simp: caches_def)
  obtain v s1 es1 where g: "get k s = Inr (v, s1)" "holds s1 es1" "es1 \<subseteq> es" "v = -1 \<or> (k, v) \<in> es"
    using get_ok [OF es(1), of k] by blast
  show ?thesis
  proof (cases "v = -1")
    case True
    obtain s2 es2 where p: "put k (f k) s1 = Inr s2" "holds s2 es2" "es2 \<subseteq> insert (k, f k) es1"
      using put_ok [OF g(2), of k "f k"] by blast
    then have "caches f s2" using es(2) g(3) unfolding caches_def by blast
    then show ?thesis using g(1) p(1) True by (simp add: ask_def)
  next
    case False
    then have "v = f k" "caches f s1" using g es(2) unfolding caches_def by blast+
    then show ?thesis using g(1) False by (simp add: ask_def)
  qed
qed

end

definition lru_holds :: "LRUCache \<Rightarrow> (work_pair \<times> int) set \<Rightarrow> bool" where
  "lru_holds c es \<longleftrightarrow> (\<exists>ps n. lru_rep c ps \<and> capacity c = int n \<and> 0 < n \<and> es = set (entries_of c ps))"

lemma to_front_set: "set (to_front k v xs) \<subseteq> insert (k, v) (set xs)"
  by (auto simp: to_front_def)

lemma spec_put_set: "set (spec_put n k v xs) \<subseteq> insert (k, v) (set xs)"
  using to_front_set [of k v xs] by (auto simp: spec_put_def dest: in_set_butlastD)

interpretation lru: cache lru_get lru_put lru_holds
proof unfold_locales
  fix c es k assume "lru_holds c es"
  then obtain ps n where r: "lru_rep c ps" "capacity c = int n" "0 < n" "es = set (entries_of c ps)"
    by (auto simp: lru_holds_def)
  obtain v c' qs where g: "lru_get k c = Inr (v, c')" "lru_rep c' qs"
      "spec_get k (entries_of c ps) = (v, entries_of c' qs)" "capacity c' = capacity c"
    using lru_get_ok [OF r(1), of k] by blast
  have "set (entries_of c' qs) \<subseteq> es \<and> (v = -1 \<or> (k, v) \<in> es)"
    using g(3) r(4) to_front_set [of k v "entries_of c ps"]
    by (auto simp: spec_get_def split: option.splits dest: map_of_SomeD)
  moreover have "lru_holds c' (set (entries_of c' qs))" using g r unfolding lru_holds_def by auto
  ultimately show "\<exists>v s' es'. lru_get k c = Inr (v, s') \<and> lru_holds s' es' \<and> es' \<subseteq> es \<and>
      (v = -1 \<or> (k, v) \<in> es)" using g(1) by blast
next
  fix c es k v assume "lru_holds c es"
  then obtain ps n where r: "lru_rep c ps" "capacity c = int n" "0 < n" "es = set (entries_of c ps)"
    by (auto simp: lru_holds_def)
  obtain c' qs where g: "lru_put k v c = Inr c'" "lru_rep c' qs"
      "entries_of c' qs = spec_put n k v (entries_of c ps)" "capacity c' = capacity c"
    using lru_put_ok [OF r(1-3), of k v] by blast
  have "set (entries_of c' qs) \<subseteq> insert (k, v) es"
    using g(3) r(4) spec_put_set [of n k v "entries_of c ps"] by auto
  moreover have "lru_holds c' (set (entries_of c' qs))" using g r unfolding lru_holds_def by auto
  ultimately show "\<exists>s' es'. lru_put k v c = Inr s' \<and> lru_holds s' es' \<and> es' \<subseteq> insert (k, v) es"
    using g(1) by blast
qed

section \<open>Runs of the cache\<close>

datatype cache_op = Get work_pair | Put work_pair int

fun cache_step :: "cache_op \<Rightarrow> int list \<times> LRUCache \<Rightarrow> (int list \<times> LRUCache) result" where
  "cache_step (Get k) (vs, c) = and_then (lru_get k c) (\<lambda>(v, c). Inr (vs @ [v], c))"
| "cache_step (Put k v) (vs, c) = and_then (lru_put k v c) (\<lambda>c. Inr (vs, c))"

fun spec_step ::
  "nat \<Rightarrow> cache_op \<Rightarrow> int list \<times> (work_pair \<times> int) list \<Rightarrow> int list \<times> (work_pair \<times> int) list" where
  "spec_step n (Get k) (vs, xs) = (let (v, xs) = spec_get k xs in (vs @ [v], xs))"
| "spec_step n (Put k v) (vs, xs) = (vs, spec_put n k v xs)"

lemma cache_run_ok:
  assumes "lru_rep c ps" and "capacity c = int n" "0 < n"
  shows "\<exists>c' qs vs'. block (map cache_step ops) (vs, c) = Inr (vs', c') \<and> lru_rep c' qs \<and>
    fold (spec_step n) ops (vs, entries_of c ps) = (vs', entries_of c' qs)"
  using assms(1,2)
proof (induction ops arbitrary: c ps vs)
  case (Cons op ops)
  show ?case
  proof (cases op)
    case (Get k)
    obtain v c1 qs where g: "lru_get k c = Inr (v, c1)" "lru_rep c1 qs"
        "spec_get k (entries_of c ps) = (v, entries_of c1 qs)" "capacity c1 = capacity c"
      using lru_get_ok [OF Cons.prems(1), of k] by blast
    show ?thesis using Cons.IH [OF g(2), of "vs @ [v]"] g Cons.prems(2) Get by simp
  next
    case (Put k v)
    obtain c1 qs where g: "lru_put k v c = Inr c1" "lru_rep c1 qs"
        "entries_of c1 qs = spec_put n k v (entries_of c ps)" "capacity c1 = capacity c"
      using lru_put_ok [OF Cons.prems assms(3), of k v] by blast
    show ?thesis using Cons.IH [OF g(2), of vs] g Cons.prems(2) Put by simp
  qed
qed auto

lemma spec_length: "length xs \<le> n \<Longrightarrow> 0 < n \<Longrightarrow> length (snd (spec_step n op (vs, xs))) \<le> n"
proof (cases op)
  case (Get k)
  assume len: "length xs \<le> n"
  have "length (to_front k v xs) \<le> length xs" if "map_of xs k = Some v" for v
  proof -
    have "(k, v) \<in> set xs" using that by (rule map_of_SomeD)
    then have "length (filter (\<lambda>x. fst x \<noteq> k) xs) < length xs" by (intro length_filter_less) auto
    then show ?thesis by (simp add: to_front_def)
  qed
  then show ?thesis using len Get by (force simp: spec_get_def split: option.splits)
next
  case (Put k v)
  assume len: "length xs \<le> n" "0 < n"
  have "length (filter (\<lambda>x. fst x \<noteq> k) xs) < n" if "\<not> (map_of xs k = None \<and> length xs = n)"
  proof (cases "map_of xs k")
    case None
    then have "length xs < n" using that len by simp
    with length_filter_le show ?thesis by (rule order_le_less_trans)
  next
    case (Some w)
    then have "(k, w) \<in> set xs" by (rule map_of_SomeD)
    then have "length (filter (\<lambda>x. fst x \<noteq> k) xs) < length xs" by (intro length_filter_less) auto
    then show ?thesis using len by simp
  qed
  then show ?thesis using len Put by (auto simp: spec_put_def to_front_def Suc_le_eq)
qed

lemma spec_run_length:
  "length xs \<le> n \<Longrightarrow> 0 < n \<Longrightarrow> length (snd (fold (spec_step n) ops (vs, xs))) \<le> n"
proof (induction ops arbitrary: vs xs)
  case (Cons op ops)
  then show ?case using spec_length [OF Cons.prems, of op vs] by (cases "spec_step n op (vs, xs)") auto
qed simp

section \<open>The end of a cache\<close>

lemma delete_nodes:
  "distinct ps \<Longrightarrow> \<forall>p \<in> set ps. alive c p \<Longrightarrow> m = lcaMap c \<Longrightarrow> map m order = map Some ps \<Longrightarrow>
     \<exists>c'. block (map (\<lambda>k c. delete_node (lcaMap c k) c) order) c = Inr c' \<and> lcaMap c' = m \<and>
       alive c' = (\<lambda>p. alive c p \<and> p \<notin> set ps)"
proof (induction ps arbitrary: order c)
  case (Cons p ps)
  then obtain k ks where o: "order = k # ks" "m k = Some p" "map m ks = map Some ps" by (cases order) auto
  let ?c = "c\<lparr>alive := (alive c)(p := False)\<rparr>"
  obtain c' where c': "block (map (\<lambda>k c. delete_node (lcaMap c k) c) ks) ?c = Inr c'" "lcaMap c' = m"
      "alive c' = (\<lambda>q. alive ?c q \<and> q \<notin> set ps)"
  proof -
    have "\<forall>q \<in> set ps. alive ?c q" "m = lcaMap ?c" using Cons.prems(1-3) by auto
    from Cons.IH [OF _ this o(3)] Cons.prems(1) that show ?thesis by auto
  qed
  have "delete_node (lcaMap c k) c = Inr ?c"
    using Cons.prems(2,3) o(2) by (simp add: delete_node_def)
  then have "block (map (\<lambda>k c. delete_node (lcaMap c k) c) order) c = Inr c'" using c'(1) o(1) by simp
  moreover have "alive c' = (\<lambda>q. alive c q \<and> q \<notin> set (p # ps))" using c'(3) by (auto simp: fun_eq_iff)
  ultimately show ?case using c'(2) by blast
qed (auto simp: fun_eq_iff)

text \<open>Deleting a cache returns and leaves the two end nodes of its list behind; doing it again, as the
  destructor does after \<open>clearCache\<close>, is undefined.\<close>

lemma clearCache_leaks:
  assumes rep: "lru_rep c ps" and order: "distinct order" "set order = dom (lcaMap c)"
  shows "\<exists>c'. clearCache order (False, c) = Inr (True, c') \<and> alive c' (head c) \<and> alive c' (tail c) \<and>
    (\<forall>p \<in> set ps. \<not> alive c' p)"
    and "clearCache order (False, c) = Inr st \<Longrightarrow> \<exists>e. clearCache order st = Inl e"
proof -
  let ?qs = "map (\<lambda>k. the (lcaMap c k)) order"
  have m: "map (lcaMap c) order = map Some ?qs" using order(2) by (auto simp: dom_def)
  have q: "distinct ?qs" "set ?qs = set ps"
  proof -
    have iff: "lcaMap c k = Some p \<longleftrightarrow> p \<in> set ps \<and> key c p = k" for k p by (rule lcaMap_iff [OF rep])
    have "inj_on (\<lambda>k. the (lcaMap c k)) (set order)"
    proof (rule inj_onI)
      fix k l assume "k \<in> set order" "l \<in> set order" "the (lcaMap c k) = the (lcaMap c l)"
      then obtain p where "lcaMap c k = Some p" "lcaMap c l = Some p" using order(2) by auto
      then show "k = l" using iff by metis
    qed
    then show "distinct ?qs" using order(1) by (simp add: distinct_map)
    show "set ?qs = set ps"
    proof -
      have "p \<in> (\<lambda>k. the (lcaMap c k)) ` set order \<longleftrightarrow> p \<in> set ps" for p
      proof
        assume "p \<in> (\<lambda>k. the (lcaMap c k)) ` set order"
        then obtain k where "lcaMap c k = Some p" using order(2) by auto
        then show "p \<in> set ps" using iff by simp
      next
        assume "p \<in> set ps"
        then have "lcaMap c (key c p) = Some p" using iff by simp
        then show "p \<in> (\<lambda>k. the (lcaMap c k)) ` set order" using order(2) by (intro image_eqI [of _ _ "key c p"]) auto
      qed
      then show ?thesis by auto
    qed
  qed
  have l: "\<forall>p \<in> set ?qs. alive c p" "alive c (head c)" "alive c (tail c)" "head c \<notin> set ps" "tail c \<notin> set ps"
    using rep q(2) by (auto simp: lru_rep_def list_rep_def nodes_of_def)
  obtain c' where c': "block (map (\<lambda>k c. delete_node (lcaMap c k) c) order) c = Inr c'"
    "alive c' = (\<lambda>p. alive c p \<and> p \<notin> set ?qs)"
    using delete_nodes [OF q(1) l(1) refl m] by blast
  then have r: "clearCache order (False, c) = Inr (True, c')" by (simp add: clearCache_def)
  show "\<exists>c'. clearCache order (False, c) = Inr (True, c') \<and> alive c' (head c) \<and> alive c' (tail c) \<and>
      (\<forall>p \<in> set ps. \<not> alive c' p)"
    using r c'(2) l q(2) by auto
  show "\<exists>e. clearCache order st = Inl e" if "clearCache order (False, c) = Inr st"
    using that r by (cases "block (map (\<lambda>k c. delete_node (lcaMap c k) c) order) c'") (auto simp: clearCache_def)
qed

section \<open>Properties\<close>

text \<open>C40: Every sequence of lookups and insertions on a new cache returns, with no access to a null
  or deleted node, gives the answers of a list of at most \<open>capacity\<close> entries with the one used
  last in front, and leaves that many entries.\<close>

theorem lru_refines_list:
  assumes "0 < n"
  shows "\<exists>vs c. block (map cache_step ops) ([], new_LRUCache (int n)) = Inr (vs, c) \<and>
    vs = fst (fold (spec_step n) ops ([], [])) \<and>
    size_of c = int (length (snd (fold (spec_step n) ops ([], [])))) \<and> size_of c \<le> int n"
proof -
  have cap: "capacity (new_LRUCache (int n)) = int n" by (simp add: new_LRUCache_def DoublyLinkedList.defs)
  obtain c qs vs where r: "block (map cache_step ops) ([], new_LRUCache (int n)) = Inr (vs, c)"
    "lru_rep c qs" "fold (spec_step n) ops ([], []) = (vs, entries_of c qs)"
    using cache_run_ok [OF new_lru_rep cap assms, of ops "[]"] by (auto simp: entries_of_def)
  have "length (entries_of c qs) \<le> n"
    using spec_run_length [of "[]" n ops "[]"] assms r(3) by simp
  then show ?thesis using r by (simp add: lru_rep_def entries_of_def)
qed

theorem lru_refines_list_witness:
  "\<exists>vs c. block (map cache_step [Put (1, 2) 7, Put (3, 4) 8, Get (1, 2), Put (5, 6) 9, Get (3, 4), Get (1, 2)])
     ([], new_LRUCache 2) = Inr (vs, c) \<and> vs = [7, -1, 7]"
  using lru_refines_list [of 2 "[Put (1, 2) 7, Put (3, 4) 8, Get (1, 2), Put (5, 6) 9, Get (3, 4), Get (1, 2)]"]
  by (auto simp: spec_get_def spec_put_def to_front_def)

text \<open>Queries through the cache are answered as without it.\<close>

lemma cached_queries:
  assumes "0 < n"
  shows "\<exists>c. lru.ask f k (new_LRUCache (int n)) = Inr (f k, c) \<and> lru.caches f c"
proof (rule lru.ask_ok)
  have "capacity (new_LRUCache (int n)) = int n" by (simp add: new_LRUCache_def DoublyLinkedList.defs)
  then have "lru_holds (new_LRUCache (int n)) {}"
    using new_lru_rep assms unfolding lru_holds_def by (intro exI [of _ "[]"] exI [of _ n]) (simp add: entries_of_def)
  then show "lru.caches f (new_LRUCache (int n))" unfolding lru.caches_def by blast
qed

end
