(* ===== verification/Concurrent_Links.thy ===== *)
theory Concurrent_Links
  imports Verdict
begin

text \<open>
  Two threads that link their new nodes at the same time. The callbacks are atomic steps of the
  model; in the code they share three things without a lock: the counter of nodes, which is
  incremented atomically, the ends of implicit tasks, likewise, and \<open>m_numchildren\<close> of the
  parent, which \<open>m_set_nodeparent_info\<close> reads and increments like any variable (its comment asks
  whether the counter should be atomic). Here \<open>m_set_nodeparent_info\<close> is taken apart into its
  memory accesses and threads interleave between them. Whatever the schedule, the tree is the one
  that the atomic steps make; the numbers of children are not, updates are lost. The parents that
  threads share without a lock are the inner finish nodes of regions, whose children are the
  implicit tasks, and there the numbers do not matter.
\<close>

section \<open>Linking a node, access by access\<close>

text \<open>How far a thread has come in \<open>m_set_nodeparent_info\<close>, with its local variables: \<open>parent\<close>, and
  the value of \<open>m_numchildren\<close> that it is about to store plus one.\<close>

datatype link_pc =
    Enter
  | Parent_written nat
  | Seqnum_written nat
  | Depth_written nat
  | Count_read nat nat
  | Linked

definition link_step ::
  "nat \<Rightarrow> nat \<Rightarrow> link_pc \<Rightarrow> 'a detector_scheme \<Rightarrow> (link_pc \<times> 'a detector_scheme) result" where
  "link_step node_index tid pc s =
     (case pc of
        Enter \<Rightarrow> and_then (stack_back tid s) (\<lambda>parent.
          Inr (Parent_written parent, update_node node_index (\<lambda>nd. nd\<lparr>m_parent := parent\<rparr>) s))
      | Parent_written parent \<Rightarrow>
          Inr (Seqnum_written parent, update_node node_index
            (\<lambda>nd. nd\<lparr>m_seqnum := m_numchildren (m_tgraph_nodes s parent)\<rparr>) s)
      | Seqnum_written parent \<Rightarrow>
          Inr (Depth_written parent, update_node node_index
            (\<lambda>nd. nd\<lparr>m_depth := m_depth (m_tgraph_nodes s parent) + 1\<rparr>) s)
      | Depth_written parent \<Rightarrow>
          Inr (Count_read parent (m_numchildren (m_tgraph_nodes s parent)), s)
      | Count_read parent n \<Rightarrow>
          Inr (Linked, update_node parent (\<lambda>nd. nd\<lparr>m_numchildren := n + 1\<rparr>) s)
      | Linked \<Rightarrow> Inr (Linked, s))"

text \<open>The threads of a schedule, one access each time; thread \<open>t\<close> links the node \<open>node t\<close>.\<close>

fun interleave ::
  "(nat \<Rightarrow> nat) \<Rightarrow> nat list \<Rightarrow> (nat \<Rightarrow> link_pc) \<Rightarrow> 'a detector_scheme \<Rightarrow>
     ((nat \<Rightarrow> link_pc) \<times> 'a detector_scheme) result" where
  "interleave node [] pcs s = Inr (pcs, s)"
| "interleave node (t # sched) pcs s =
     and_then (link_step (node t) t (pcs t) s)
       (\<lambda>(pc, s). interleave node sched (pcs(t := pc)) s)"

lemma interleave_append:
  "interleave node (xs @ ys) pcs s =
     and_then (interleave node xs pcs s) (\<lambda>(pcs, s). interleave node ys pcs s)"
  by (induction xs arbitrary: pcs s) (auto simp: and_then_def split: sum.splits)

text \<open>A thread that is not disturbed does what the atomic step does.\<close>

lemma update_node_twice: "update_node i f (update_node i g s) = update_node i (\<lambda>nd. f (g nd)) s"
  by (simp add: update_node_def)

lemma link_alone:
  assumes "pcs t = Enter" and "node t \<noteq> last (m_last_nodes s t)"
  shows "interleave node (replicate 5 t) pcs s =
    and_then (m_set_nodeparent_info (node t) t s) (\<lambda>s'. Inr (pcs(t := Linked), s'))"
proof (cases "stack_back t s")
  case (Inl e)
  then show ?thesis using assms by (simp add: link_step_def m_set_nodeparent_info_def eval_nat_numeral)
next
  case (Inr p)
  then have "p \<noteq> node t" using assms(2) by (auto simp: stack_back_def split: if_split_asm)
  then show ?thesis using assms(1) Inr
    by (simp add: link_step_def m_set_nodeparent_info_def eval_nat_numeral update_node_def Let_def)
qed

section \<open>The tree does not depend on the schedule\<close>

definition unnumbered :: "Node \<Rightarrow> Node" where
  "unnumbered nd = nd\<lparr>m_seqnum := 0, m_numchildren := 0\<rparr>"

lemma unnumbered_eq_iff:
  "unnumbered a = unnumbered b \<longleftrightarrow> m_type a = m_type b \<and> m_parent a = m_parent b \<and>
     m_depth a = m_depth b \<and> m_young_ns_child a = m_young_ns_child b \<and> m_task_id a = m_task_id b \<and>
     st_val a = st_val b \<and> m_finish_flag a = m_finish_flag b \<and> dependencies a = dependencies b"
  by (cases a; cases b) (auto simp: unnumbered_def)

lemma unnumbered_update [simp]:
  "unnumbered (nd\<lparr>m_seqnum := n\<rparr>) = unnumbered nd" "unnumbered (nd\<lparr>m_numchildren := n\<rparr>) = unnumbered nd"
  by (simp_all add: unnumbered_def)

definition same_but_numbers :: "'a detector_scheme \<Rightarrow> 'a detector_scheme \<Rightarrow> bool" where
  "same_but_numbers s s' \<longleftrightarrow> s' = s\<lparr>m_tgraph_nodes := m_tgraph_nodes s'\<rparr> \<and>
     (\<forall>i. unnumbered (m_tgraph_nodes s' i) = unnumbered (m_tgraph_nodes s i))"

text \<open>What has been written of a node, its numbers aside.\<close>

fun written :: "link_pc \<Rightarrow> nat \<Rightarrow> nat \<Rightarrow> Node \<Rightarrow> Node" where
  "written Enter p d nd = nd"
| "written (Parent_written _) p d nd = nd\<lparr>m_parent := p\<rparr>"
| "written (Seqnum_written _) p d nd = nd\<lparr>m_parent := p\<rparr>"
| "written _ p d nd = nd\<lparr>m_parent := p, m_depth := Suc d\<rparr>"

fun holds_parent :: "nat \<Rightarrow> link_pc \<Rightarrow> bool" where
  "holds_parent p (Parent_written q) = (q = p)"
| "holds_parent p (Seqnum_written q) = (q = p)"
| "holds_parent p (Depth_written q) = (q = p)"
| "holds_parent p (Count_read q n) = (q = p)"
| "holds_parent p _ = True"

definition linking ::
  "(nat \<Rightarrow> nat) \<Rightarrow> nat set \<Rightarrow> 'a detector_scheme \<Rightarrow> (nat \<Rightarrow> link_pc) \<Rightarrow> 'a detector_scheme \<Rightarrow> bool" where
  "linking node ts s pcs s' \<longleftrightarrow> s' = s\<lparr>m_tgraph_nodes := m_tgraph_nodes s'\<rparr> \<and>
     (\<forall>t \<in> ts. holds_parent (last (m_last_nodes s t)) (pcs t) \<and>
        unnumbered (m_tgraph_nodes s' (node t)) =
        unnumbered (written (pcs t) (last (m_last_nodes s t))
          (m_depth (m_tgraph_nodes s (last (m_last_nodes s t)))) (m_tgraph_nodes s (node t)))) \<and>
     (\<forall>i. i \<notin> node ` ts \<longrightarrow> unnumbered (m_tgraph_nodes s' i) = unnumbered (m_tgraph_nodes s i))"

text \<open>Threads that may link at the same time: their nodes are new, and different.\<close>

definition linkable :: "(nat \<Rightarrow> nat) \<Rightarrow> nat set \<Rightarrow> 'a detector_scheme \<Rightarrow> bool" where
  "linkable node ts s \<longleftrightarrow> inj_on node ts \<and>
     (\<forall>t \<in> ts. t < NUM_THREADS \<and> m_last_nodes s t \<noteq> [] \<and> last (m_last_nodes s t) \<notin> node ` ts)"

lemma linking_start: "linking node ts s (\<lambda>_. Enter) s"
  by (simp add: linking_def)

text \<open>The accesses a thread has left.\<close>

fun accesses_left :: "link_pc \<Rightarrow> nat" where
  "accesses_left Enter = 5"
| "accesses_left (Parent_written _) = 4"
| "accesses_left (Seqnum_written _) = 3"
| "accesses_left (Depth_written _) = 2"
| "accesses_left (Count_read _ _) = 1"
| "accesses_left Linked = 0"

lemma accesses_left_0: "accesses_left pc = 0 \<longleftrightarrow> pc = Linked"
  by (cases pc) auto

lemma linking_node:
  assumes "linkable node ts s" "t \<in> ts" and "linking node ts s pcs u"
    and "\<And>i. i \<noteq> node t \<Longrightarrow> unnumbered (g i) = unnumbered (m_tgraph_nodes u i)"
    and "holds_parent (last (m_last_nodes s t)) pc"
    and "unnumbered (g (node t)) = unnumbered (written pc (last (m_last_nodes s t))
          (m_depth (m_tgraph_nodes s (last (m_last_nodes s t)))) (m_tgraph_nodes s (node t)))"
  shows "linking node ts s (pcs(t := pc)) (u\<lparr>m_tgraph_nodes := g\<rparr>)"
proof -
  have "node t' \<noteq> node t" if "t' \<in> ts" "t' \<noteq> t" for t'
    using assms(1,2) that by (auto simp: linkable_def inj_on_def)
  moreover have "u\<lparr>m_tgraph_nodes := g\<rparr> = s\<lparr>m_tgraph_nodes := g\<rparr>"
    using assms(3) by (metis linking_def detector.select_convs(4) detector.surjective detector.update_convs(4))
  moreover have "unnumbered (g i) = unnumbered (m_tgraph_nodes s i)" if "i \<notin> node ` ts" for i
  proof -
    have "i \<noteq> node t" using that assms(2) by blast
    then show ?thesis using assms(4) [of i] assms(3) that unfolding linking_def by simp
  qed
  ultimately show ?thesis using assms(2-6) unfolding linking_def by auto
qed

lemma linking_step:
  assumes able: "linkable node ts s" and t: "t \<in> ts" and inv: "linking node ts s pcs u"
  shows "\<exists>pc v. link_step (node t) t (pcs t) u = Inr (pc, v) \<and> linking node ts s (pcs(t := pc)) v \<and>
    accesses_left pc = accesses_left (pcs t) - 1"
proof -
  let ?p = "last (m_last_nodes s t)" and ?g = "m_tgraph_nodes u"
  have p: "t < NUM_THREADS" "m_last_nodes s t \<noteq> []" "?p \<notin> node ` ts"
    using able t by (auto simp: linkable_def)
  have u: "u = s\<lparr>m_tgraph_nodes := ?g\<rparr>" and pc: "holds_parent ?p (pcs t)"
    and nd: "unnumbered (?g (node t)) =
      unnumbered (written (pcs t) ?p (m_depth (m_tgraph_nodes s ?p)) (m_tgraph_nodes s (node t)))"
    and rest: "\<And>i. i \<notin> node ` ts \<Longrightarrow> unnumbered (?g i) = unnumbered (m_tgraph_nodes s i)"
    using inv t unfolding linking_def by blast+
  have "m_last_nodes u = m_last_nodes s" using u by (metis detector.select_convs(6) detector.surjective detector.update_convs(4))
  then have top: "stack_back t u = Inr ?p" using p by (simp add: stack_back_def)
  have depth: "m_depth (?g ?p) = m_depth (m_tgraph_nodes s ?p)"
    using rest [OF p(3)] by (simp add: unnumbered_eq_iff)
  note go = linking_node [OF able t inv]
  show ?thesis
  proof (cases "pcs t")
    case Enter
    then show ?thesis using top nd go [of "?g(node t := (?g (node t))\<lparr>m_parent := ?p\<rparr>)" "Parent_written ?p"]
      by (simp add: link_step_def update_node_def unnumbered_eq_iff)
  next
    case (Parent_written q)
    then show ?thesis using pc nd
        go [of "?g(node t := (?g (node t))\<lparr>m_seqnum := m_numchildren (?g ?p)\<rparr>)" "Seqnum_written ?p"]
      by (simp add: link_step_def update_node_def unnumbered_eq_iff)
  next
    case (Seqnum_written q)
    then show ?thesis using pc nd depth
        go [of "?g(node t := (?g (node t))\<lparr>m_depth := Suc (m_depth (?g ?p))\<rparr>)" "Depth_written ?p"]
      by (simp add: link_step_def update_node_def unnumbered_eq_iff)
  next
    case (Depth_written q)
    then show ?thesis using pc nd go [of ?g "Count_read ?p (m_numchildren (?g ?p))"]
      by (simp add: link_step_def unnumbered_eq_iff)
  next
    case (Count_read q n)
    have "linking node ts s (pcs(t := Linked)) (u\<lparr>m_tgraph_nodes := ?g(?p := (?g ?p)\<lparr>m_numchildren := n + 1\<rparr>)\<rparr>)"
      by (rule go) (use Count_read nd p(3) t in \<open>auto simp: unnumbered_eq_iff\<close>)
    then show ?thesis using Count_read pc by (simp add: link_step_def update_node_def)
  next
    case Linked
    then show ?thesis using inv by (simp add: link_step_def fun_upd_idem)
  qed
qed

lemma linking_run:
  assumes "linkable node ts s" "set sched \<subseteq> ts" "linking node ts s pcs u"
  shows "\<exists>pcs' v. interleave node sched pcs u = Inr (pcs', v) \<and> linking node ts s pcs' v \<and>
    (\<forall>t. accesses_left (pcs' t) = accesses_left (pcs t) - count_list sched t)"
  using assms(2,3)
proof (induction sched arbitrary: pcs u)
  case Nil
  then show ?case by simp
next
  case (Cons t sched)
  then have t: "t \<in> ts" by simp
  obtain pc v where v: "link_step (node t) t (pcs t) u = Inr (pc, v)" "linking node ts s (pcs(t := pc)) v"
    "accesses_left pc = accesses_left (pcs t) - 1"
    using linking_step [OF assms(1) t Cons.prems(2)] by blast
  then obtain pcs' w where "interleave node sched (pcs(t := pc)) v = Inr (pcs', w)"
    "linking node ts s pcs' w"
    "\<forall>t'. accesses_left (pcs' t') = accesses_left ((pcs(t := pc)) t') - count_list sched t'"
    using Cons.IH [OF _ v(2)] Cons.prems(1) by (metis list.set_intros(2) subset_iff)
  then show ?case using v by auto
qed

section \<open>The atomic step is right about the tree\<close>

lemma interleave_alone:
  assumes "linkable node (set ts) s" and "linking node (set ts) s pcs u"
    and "distinct ts" "\<forall>t \<in> set ts. pcs t = Enter"
  shows "interleave node (concat (map (replicate 5) ts)) pcs u =
    and_then (block (map (\<lambda>t. m_set_nodeparent_info (node t) t) ts) u)
      (\<lambda>v. Inr (\<lambda>t. if t \<in> set ts then Linked else pcs t, v))"
  using assms
proof -
  have "interleave node (concat (map (replicate 5) xs)) pcs u =
      and_then (block (map (\<lambda>t. m_set_nodeparent_info (node t) t) xs) u)
        (\<lambda>v. Inr (\<lambda>t. if t \<in> set xs then Linked else pcs t, v))"
    if "set xs \<subseteq> set ts" "distinct xs" "\<forall>t \<in> set xs. pcs t = Enter" "linking node (set ts) s pcs u" for xs pcs u
    using that
  proof (induction xs arbitrary: pcs u)
    case Nil
    then show ?case by simp
  next
    case (Cons t xs)
    have t: "t \<in> set ts" "set (replicate 5 t) \<subseteq> set ts" using Cons.prems(1) by auto
    have "m_last_nodes u = m_last_nodes s"
      using Cons.prems(4) unfolding linking_def
      by (metis detector.select_convs(6) detector.surjective detector.update_convs(4))
    then have "node t \<noteq> last (m_last_nodes u t)" using assms(1) t(1) by (force simp: linkable_def)
    note one = link_alone [where node = node and t = t and s = u and pcs = pcs, OF _ this]
    obtain pcs' v where v: "interleave node (replicate 5 t) pcs u = Inr (pcs', v)" "linking node (set ts) s pcs' v"
      using linking_run [OF assms(1) t(2) Cons.prems(4)] by blast
    then have m: "m_set_nodeparent_info (node t) t u = Inr v" "pcs' = pcs(t := Linked)"
      using one Cons.prems(3) by auto
    have ih: "interleave node (concat (map (replicate 5) xs)) (pcs(t := Linked)) v =
        and_then (block (map (\<lambda>t. m_set_nodeparent_info (node t) t) xs) v)
          (\<lambda>w. Inr (\<lambda>t'. if t' \<in> set xs then Linked else (pcs(t := Linked)) t', w))"
      by (rule Cons.IH [OF _ _ _ v(2) [unfolded m(2)]]) (use Cons.prems in auto)
    have "(\<lambda>t'. if t' \<in> set xs then Linked else (pcs(t := Linked)) t') =
        (\<lambda>t'. if t' \<in> set (t # xs) then Linked else pcs t')" by auto
    then show ?case using ih v(1) m by (simp add: interleave_append)
  qed
  then show ?thesis using assms by blast
qed

lemma linking_same:
  assumes "linking node (set ts) s pcs u" "linking node (set ts) s pcs' v"
    and "\<forall>t \<in> set ts. pcs t = Linked \<and> pcs' t = Linked"
  shows "same_but_numbers u v"
proof -
  have "unnumbered (m_tgraph_nodes v i) = unnumbered (m_tgraph_nodes u i)" for i
    using assms unfolding linking_def by (cases "i \<in> node ` set ts") auto
  moreover have "v = u\<lparr>m_tgraph_nodes := m_tgraph_nodes v\<rparr>"
    using assms(1,2) unfolding linking_def
    by (metis (no_types, lifting) detector.surjective detector.update_convs(4))
  ultimately show ?thesis by (simp add: same_but_numbers_def)
qed

text \<open>C10: Threads that link their new nodes at the same time, in any schedule that lets each make its
  five accesses, all get done, and leave the tree that the atomic \<open>m_set_nodeparent_info\<close> of one
  after the other leaves: only sequence numbers and numbers of children can differ.\<close>

theorem interleaved_links_refine:
  assumes "linkable node (set ts) s" "distinct ts"
    and "set sched \<subseteq> set ts" "\<forall>t \<in> set ts. 5 \<le> count_list sched t"
  shows "\<exists>pcs u v. interleave node sched (\<lambda>_. Enter) s = Inr (pcs, u) \<and>
    (\<forall>t \<in> set ts. pcs t = Linked) \<and>
    block (map (\<lambda>t. m_set_nodeparent_info (node t) t) ts) s = Inr v \<and> same_but_numbers v u"
proof -
  obtain pcs u where u: "interleave node sched (\<lambda>_. Enter) s = Inr (pcs, u)" "linking node (set ts) s pcs u"
    "\<forall>t. accesses_left (pcs t) = 5 - count_list sched t"
    using linking_run [OF assms(1,3) linking_start] by auto
  have "set (concat (map (replicate 5) ts)) \<subseteq> set ts" by auto
  then obtain pcs' v where v: "interleave node (concat (map (replicate 5) ts)) (\<lambda>_. Enter) s = Inr (pcs', v)"
      "linking node (set ts) s pcs' v"
    using linking_run [OF assms(1) _ linking_start] by blast
  have seq: "block (map (\<lambda>t. m_set_nodeparent_info (node t) t) ts) s = Inr v" "\<forall>t \<in> set ts. pcs' t = Linked"
  proof -
    have "and_then (block (map (\<lambda>t. m_set_nodeparent_info (node t) t) ts) s)
        (\<lambda>v. Inr (\<lambda>t. if t \<in> set ts then Linked else Enter, v)) = Inr (pcs', v)"
      using interleave_alone [OF assms(1) linking_start assms(2)] v(1) by simp
    then show "block (map (\<lambda>t. m_set_nodeparent_info (node t) t) ts) s = Inr v" "\<forall>t \<in> set ts. pcs' t = Linked"
      unfolding and_then_eq_Inr by auto
  qed
  have linked: "\<forall>t \<in> set ts. pcs t = Linked"
    using u(3) assms(4) by (simp add: accesses_left_0 [symmetric])
  then show ?thesis using linking_same [OF v(2) u(2)] seq u(1) linked by blast
qed

text \<open>Two implicit tasks of a region that begin at the same time: both threads have their stacks and
  their new nodes, 5 and 6, and link them under the inner finish node 4.\<close>

definition two_begin :: detector where
  "two_begin =
     (case and_then (push_back 3 1 (run_state Fast [Parallel_begin 4 0 2])) (\<lambda>s.
           and_then (push_back 4 1 s) (\<lambda>s.
           and_then (m_create_node PARALLEL 0 s) (\<lambda>(i, s).
           and_then (m_create_node PARALLEL 1 s) (\<lambda>(j, s). Inr s)))) of
        Inl e \<Rightarrow> OpenmpRaceDetector Fast False | Inr s \<Rightarrow> s)"

definition in_step :: "nat list" where
  "in_step = [0, 1, 0, 1, 0, 1, 0, 1, 0, 1]"

lemma two_begin_linkable: "linkable (\<lambda>t. t + 5) (set [0, 1]) two_begin"
  by (simp add: linkable_def two_begin_def run_eval inj_on_def cong: and_then_weak_cong)

theorem interleaved_links_refine_witness:
  "\<exists>pcs u v. interleave (\<lambda>t. t + 5) in_step (\<lambda>_. Enter) two_begin = Inr (pcs, u) \<and>
     block (map (\<lambda>t. m_set_nodeparent_info (t + 5) t) [0, 1]) two_begin = Inr v \<and> same_but_numbers v u"
  using interleaved_links_refine [OF two_begin_linkable, of in_step] by (auto simp: in_step_def)

lemma updates_lost:
  "\<exists>pcs u v. interleave (\<lambda>t. t + 5) in_step (\<lambda>_. Enter) two_begin = Inr (pcs, u) \<and>
     m_seqnum (m_tgraph_nodes u 5) = m_seqnum (m_tgraph_nodes u 6) \<and> m_numchildren (m_tgraph_nodes u 4) = 1 \<and>
     block (map (\<lambda>t. m_set_nodeparent_info (t + 5) t) [0, 1]) two_begin = Inr v \<and>
     m_numchildren (m_tgraph_nodes v 4) = 2"
  by (simp add: in_step_def link_step_def two_begin_def run_eval cong: and_then_weak_cong)

section \<open>Where the numbers do not matter\<close>

lemma climb_same:
  assumes "climb g d w = Some v" and "\<And>i. unnumbered (h i) = unnumbered (g i)"
  shows "climb h d w = Some v"
  using assms(2)
proof (induction g d w v rule: climb.raw_induct)
  case (1 climb' g d w v)
  have f: "m_depth (h (fst w)) = m_depth (g (fst w))" "par h (fst w) = par g (fst w)"
    using 1(3) [of "fst w"] by (simp_all add: unnumbered_eq_iff)
  show ?case
    using 1(1) [of g d "(par g (fst w), fst w)" v] 1(2,3) f
    by (subst climb.simps) (auto split: if_split_asm)
qed (fact assms(1))

lemma meet_same:
  assumes "meet g c r = Some v" and "\<And>i. unnumbered (h i) = unnumbered (g i)"
  shows "meet h c r = Some v"
  using assms(2)
proof (induction g c r v rule: meet.raw_induct)
  case (1 meet' g c r v)
  have f: "par h i = par g i" for i using 1(3) [of i] by (simp add: unnumbered_eq_iff)
  show ?case
    using 1(1) [of g "(par g (fst c), fst c)" "(par g (fst r), fst r)" v] 1(2,3) f
    by (subst meet.simps) (auto split: if_split_asm)
qed (fact assms(1))

lemma climb_counting_same:
  assumes "climb_counting g d w = Some v" and "\<And>i. unnumbered (h i) = unnumbered (g i)"
  shows "climb_counting h d w = Some v"
  using assms(2)
proof (induction g d w v rule: climb_counting.raw_induct)
  case (1 climb' g d w v)
  have f: "m_depth (h i) = m_depth (g i)" "par h i = par g i" "st_val (h i) = st_val (g i)" for i
    using 1(3) [of i] by (simp_all add: unnumbered_eq_iff)
  show ?case
    using 1(1) [of g d _ v] 1(2,3) f
    by (subst climb_counting.simps) (auto split: if_split_asm prod.splits)
qed (fact assms(1))

lemma meet_counting_same:
  assumes "meet_counting g c r = Some v" and "\<And>i. unnumbered (h i) = unnumbered (g i)"
  shows "meet_counting h c r = Some v"
  using assms(2)
proof (induction g c r v rule: meet_counting.raw_induct)
  case (1 meet' g c r v)
  have f: "par h i = par g i" "st_val (h i) = st_val (g i)" for i
    using 1(3) [of i] by (simp_all add: unnumbered_eq_iff)
  show ?case
    using 1(1) [of g _ _ v] 1(2,3) f
    by (subst meet_counting.simps) (auto split: if_split_asm prod.splits)
qed (fact assms(1))

lemma walks_same:
  assumes "\<And>i. unnumbered (h i) = unnumbered (g i)"
  shows "walk g a b = Inr v \<Longrightarrow> walk h a b = Inr v"
    and "walk_counting g a b = Inr w \<Longrightarrow> walk_counting h a b = Inr w"
proof -
  have d: "m_depth (h i) = m_depth (g i)" for i using assms [of i] by (simp add: unnumbered_eq_iff)
  show "walk h a b = Inr v" if "walk g a b = Inr v"
    using that
    by (auto simp: walk_def Let_def d and_then_eq_Inr split: if_split_asm
        dest!: climb_same [where g = g and h = h, OF _ assms] meet_same [where g = g and h = h, OF _ assms])
  show "walk_counting h a b = Inr w" if "walk_counting g a b = Inr w"
    using that
    by (auto simp: walk_counting_def Let_def d and_then_eq_Inr split: if_split_asm
        dest!: climb_counting_same [where g = g and h = h, OF _ assms]
        meet_counting_same [where g = g and h = h, OF _ assms])
qed

lemma m_are_dependent_same: "same_but_numbers s s' \<Longrightarrow> m_are_dependent s' i j = m_are_dependent s i j"
proof -
  assume a: "same_but_numbers s s'"
  then have "m_task_dependencies s' = m_task_dependencies s"
    unfolding same_but_numbers_def
    by (metis detector.select_convs(9) detector.surjective detector.update_convs(4))
  moreover have "m_task_id (m_tgraph_nodes s' k) = m_task_id (m_tgraph_nodes s k)" for k
    using a by (auto simp: same_but_numbers_def unnumbered_eq_iff)
  ultimately show ?thesis by (simp add: m_are_dependent_def dependences_at_def Let_def)
qed

lemma verdict_precise_same:
  assumes "same_but_numbers s s'"
  shows "verdict_precise s' l x y a k = verdict_precise s l x y a k"
proof -
  have "m_type (m_tgraph_nodes s' i) = m_type (m_tgraph_nodes s i)"
    "par (m_tgraph_nodes s') i = par (m_tgraph_nodes s) i" "st_val (m_tgraph_nodes s' i) = st_val (m_tgraph_nodes s i)"
    "m_finish_flag (m_tgraph_nodes s' i) = m_finish_flag (m_tgraph_nodes s i)" for i
    using assms by (auto simp: same_but_numbers_def unnumbered_eq_iff)
  then show ?thesis by (simp add: verdict_precise_def m_are_dependent_same [OF assms] Let_def)
qed

text \<open>The siblings of \<open>i\<close>, and \<open>i\<close> itself, are all PARALLEL.\<close>

definition among_parallel :: "'a detector_scheme \<Rightarrow> nat \<Rightarrow> bool" where
  "among_parallel s i \<longleftrightarrow> (\<forall>j. is_node s j \<and> par (m_tgraph_nodes s) j = par (m_tgraph_nodes s) i \<longrightarrow>
     type_of s j = PARALLEL)"

text \<open>The answers as functions of the numbers of the two children of the LCA.\<close>

definition fast_answer :: "'a detector_scheme \<Rightarrow> nat \<Rightarrow> nat \<Rightarrow> nat \<Rightarrow> nat \<Rightarrow> bool result" where
  "fast_answer s x y q r =
     (if r < q
      then if y \<noteq> 0 \<and> type_of s y = PARALLEL
           then and_then (if type_of s x = PARALLEL then m_are_dependent s x y else Inr False) (\<lambda>dep. Inr (\<not> dep))
           else Inr False
      else if x \<noteq> 0 \<and> type_of s x = PARALLEL
           then and_then (if type_of s x = PARALLEL then m_are_dependent s y x else Inr False) (\<lambda>dep. Inr (\<not> dep))
           else Inr False)"

lemma answers_with_numbers:
  assumes "same_but_numbers s s'" and nz: "a \<noteq> 0" "b \<noteq> 0" "a \<noteq> b"
  shows "walk (m_tgraph_nodes s) a b = Inr ((l, x), (l, y)) \<Longrightarrow>
      m_isparallel_fast s' a b =
        fast_answer s x y (m_seqnum (m_tgraph_nodes s' x)) (m_seqnum (m_tgraph_nodes s' y))"
    and "walk_counting (m_tgraph_nodes s) a b = Inr ((l, x, j), (l, y, k)) \<Longrightarrow>
      m_isparallel_precise s' a b =
        (if m_seqnum (m_tgraph_nodes s' y) < m_seqnum (m_tgraph_nodes s' x)
         then verdict_precise s l y x b k else verdict_precise s l x y a j)"
proof -
  have u: "\<And>i. unnumbered (m_tgraph_nodes s' i) = unnumbered (m_tgraph_nodes s i)"
    using assms(1) by (simp add: same_but_numbers_def)
  have ty: "type_of s' i = type_of s i" for i using u [of i] by (simp add: unnumbered_eq_iff)
  show "m_isparallel_fast s' a b =
      fast_answer s x y (m_seqnum (m_tgraph_nodes s' x)) (m_seqnum (m_tgraph_nodes s' y))"
    if "walk (m_tgraph_nodes s) a b = Inr ((l, x), (l, y))"
    using walks_same(1) [OF u that] nz
    by (simp add: m_isparallel_fast_def fast_answer_def ty m_are_dependent_same [OF assms(1)])
  show "m_isparallel_precise s' a b =
      (if m_seqnum (m_tgraph_nodes s' y) < m_seqnum (m_tgraph_nodes s' x)
       then verdict_precise s l y x b k else verdict_precise s l x y a j)"
    if "walk_counting (m_tgraph_nodes s) a b = Inr ((l, x, j), (l, y, k))"
    using walks_same(2) [OF u that] nz
    by (simp add: m_isparallel_precise_def Let_def verdict_precise_same [OF assms(1)])
qed

lemma same_but_numbers_refl: "same_but_numbers s s"
  by (simp add: same_but_numbers_def)

lemma same_but_numbers_mode: "same_but_numbers s s' \<Longrightarrow> mode s' = mode s"
  unfolding same_but_numbers_def by (metis detector.select_convs(1) detector.surjective detector.update_convs(4))

lemma answers_without_numbers:
  assumes "reachable md nc s" and "deps_recorded s" and "same_but_numbers s s'"
    and "\<forall>i. is_node s i \<and> m_seqnum (m_tgraph_nodes s' i) \<noteq> m_seqnum (m_tgraph_nodes s i) \<longrightarrow> among_parallel s i"
    and "is_node s a" "is_node s b" and "type_of s a = WORK" "type_of s b = WORK" and "a \<noteq> b"
  shows "m_isparallel_fast s' a b = m_isparallel_fast s a b \<and>
    m_isparallel_precise s' a b = m_isparallel_precise s a b"
proof -
  note wf = reachable_wf [OF assms(1)]
  let ?g = "m_tgraph_nodes s" and ?h = "m_tgraph_nodes s'"
  obtain d where sp: "splits ?g a b d"
    and ch: "is_node s (at_depth ?g a (Suc d))" "is_node s (at_depth ?g b (Suc d))"
    using steps_at_split [OF wf assms(5,6) assms(9,7,8)] by blast
  let ?x = "at_depth ?g a (Suc d)" and ?y = "at_depth ?g b (Suc d)"
  note na = is_node_node_of [OF wf assms(5)] and nb = is_node_node_of [OF wf assms(6)]
  have nz: "a \<noteq> 0" "b \<noteq> 0" "?x \<noteq> 0" "?y \<noteq> 0" using assms(5,6) ch by (auto simp: is_node_def)
  have "at_depth ?g b d = at_depth ?g a d" using sp by (simp add: splits_def)
  then obtain j k where w: "walk ?g a b = Inr ((at_depth ?g a d, ?x), (at_depth ?g a d, ?y))"
    "walk_counting ?g a b = Inr ((at_depth ?g a d, ?x, j), (at_depth ?g a d, ?y, k))"
    using walk_split [OF na nb sp] walk_counting_split [OF na nb sp] by auto
  note now = answers_with_numbers(1) [OF assms(3) nz(1,2) assms(9) w(1)]
      answers_with_numbers(2) [OF assms(3) nz(1,2) assms(9) w(2)]
    and atomic = answers_with_numbers(1) [OF same_but_numbers_refl nz(1,2) assms(9) w(1)]
      answers_with_numbers(2) [OF same_but_numbers_refl nz(1,2) assms(9) w(2)]
  show ?thesis
  proof (cases "m_seqnum (?h ?x) = m_seqnum (?g ?x) \<and> m_seqnum (?h ?y) = m_seqnum (?g ?y)")
    case True
    then show ?thesis unfolding now atomic by simp
  next
    case False
    have "par ?g ?x = par ?g ?y"
      using at_depth_Suc [of d ?g a] at_depth_Suc [of d ?g b] sp by (simp add: splits_def)
    then have "type_of s ?x = PARALLEL" "type_of s ?y = PARALLEL"
      using False assms(4) ch by (auto simp: among_parallel_def)
    moreover have "m_are_dependent s i j = Inr (tasks_conflict s i j)" if "is_node s i" "is_node s j" for i j
      using m_are_dependent_recorded [OF assms(2)] that by (simp add: is_node_def)
    ultimately show ?thesis
      unfolding now atomic fast_answer_def
      using nz(3,4) ch tasks_conflict_sym [of s ?x ?y] verdict_precise_recorded [OF wf assms(2)] by simp
  qed
qed

text \<open>C11: Where all children of a node are PARALLEL their numbers do not matter: whatever numbers lost
  updates leave there, both builds give the same answer for every two steps.\<close>

theorem lost_updates_harmless:
  assumes "reachable md nc s" and "deps_recorded s" and "same_but_numbers s s'"
    and "\<forall>i. is_node s i \<and> m_seqnum (m_tgraph_nodes s' i) \<noteq> m_seqnum (m_tgraph_nodes s i) \<longrightarrow> among_parallel s i"
    and "is_node s a" "is_node s b" and "type_of s a = WORK" "type_of s b = WORK"
  shows "m_isparallel s' a b = m_isparallel s a b"
proof (cases "a = b")
  case True
  then show ?thesis using same_but_numbers_mode [OF assms(3)] assms(5)
    by (cases "mode s") (simp_all add: m_isparallel_def m_isparallel_trivial is_node_def)
next
  case False
  then show ?thesis using answers_without_numbers [OF assms False] same_but_numbers_mode [OF assms(3)]
    by (cases "mode s") (simp_all add: m_isparallel_def)
qed

text \<open>The two implicit tasks 5 and 7 of \<open>team_run\<close>, with the numbers that a lost update leaves.\<close>

definition update_lost :: "'a detector_scheme \<Rightarrow> 'a detector_scheme" where
  "update_lost s = update_node 7 (\<lambda>nd. nd\<lparr>m_seqnum := 0\<rparr>) (update_node 4 (\<lambda>nd. nd\<lparr>m_numchildren := 1\<rparr>) s)"

theorem lost_updates_harmless_witness:
  "m_seqnum (m_tgraph_nodes (update_lost (run_state Fast team_run)) 5) =
     m_seqnum (m_tgraph_nodes (update_lost (run_state Fast team_run)) 7) \<and>
   m_isparallel (update_lost (run_state Fast team_run)) 6 8 = m_isparallel (run_state Fast team_run) 6 8"
proof -
  let ?s = "run_state Fast team_run"
  have d: "deps_recorded ?s"
    unfolding deps_recorded_def by (simp add: run_eval plain_def cong: and_then_weak_cong)
  have n: "same_but_numbers ?s (update_lost ?s)"
    by (simp add: same_but_numbers_def update_lost_def update_node_def)
  have "among_parallel ?s 7"
    unfolding among_parallel_def is_node_def
    by (simp add: run_eval cong: and_then_weak_cong)
  then have p: "\<forall>i. is_node ?s i \<and> m_seqnum (m_tgraph_nodes (update_lost ?s) i) \<noteq> m_seqnum (m_tgraph_nodes ?s i)
      \<longrightarrow> among_parallel ?s i"
    by (auto simp: update_lost_def update_node_def split: if_split_asm)
  have w: "is_node ?s 6" "is_node ?s 8" "type_of ?s 6 = WORK" "type_of ?s 8 = WORK"
    by (simp_all add: run_eval is_node_def cong: and_then_weak_cong)
  have "m_seqnum (m_tgraph_nodes (update_lost ?s) 5) = m_seqnum (m_tgraph_nodes (update_lost ?s) 7)"
    by (simp add: update_lost_def update_node_def run_eval cong: and_then_weak_cong)
  then show ?thesis using lost_updates_harmless [OF team_state_reachable d n p w] by blast
qed

end
