(* ===== verification/Callback_Returns.thy ===== *)
theory Callback_Returns
  imports Ordering
begin

text \<open>
  When a callback returns. It can fail on an exhausted array of nodes, a stack that is too short, a
  thread id outside the arrays, a missing handle and, for the first thread of a region, a team that
  has not ended. \<open>prepared\<close> says for every callback what it needs, and a callback returns
  exactly when it finds that.
\<close>

section \<open>Room and weakest preconditions\<close>

text \<open>The stack of the thread holds \<open>k\<close> nodes at least, and \<open>n\<close> nodes can be made.\<close>

definition fits :: "nat \<Rightarrow> nat \<Rightarrow> nat \<Rightarrow> 'a detector_scheme \<Rightarrow> bool" where
  "fits t k n s \<longleftrightarrow> t < NUM_THREADS \<and> k \<le> length (m_last_nodes s t) \<and>
     (n = 0 \<or> m_last_allocated_node s + n < OMP_RACER_NUM_GRAPH_NODES)"

lemma fits_cong:
  "m_last_nodes s' = m_last_nodes s \<Longrightarrow> m_last_allocated_node s' = m_last_allocated_node s \<Longrightarrow>
     fits t k n s' = fits t k n s"
  by (simp add: fits_def)

text \<open>\<open>P\<close> is the weakest condition under which \<open>f\<close> returns in a state where
  \<open>Q\<close> holds.\<close>

definition returns :: "('s \<Rightarrow> bool) \<Rightarrow> ('s \<Rightarrow> 's result) \<Rightarrow> ('s \<Rightarrow> bool) \<Rightarrow> bool" where
  "returns P f Q \<longleftrightarrow> (\<forall>s. (\<exists>s'. f s = Inr s' \<and> Q s') = P s)"

lemma returnsD: "returns P f Q \<Longrightarrow> (\<exists>s'. f s = Inr s' \<and> Q s') = P s"
  by (simp add: returns_def)

lemma returns_all: "returns P f (\<lambda>_. True) \<Longrightarrow> (\<exists>s'. f s = Inr s') = P s"
  by (simp add: returns_def)

lemma returns_and_then:
  "returns P f Q \<Longrightarrow> returns Q g R \<Longrightarrow> returns P (\<lambda>s. and_then (f s) g) R"
  unfolding returns_def and_then_eq_Inr by metis

lemma returns_block:
  "returns P f Q \<Longrightarrow> returns P (block [f]) Q"
  "returns P f Q \<Longrightarrow> returns Q (block (g # fs)) R \<Longrightarrow> returns P (block (f # g # fs)) R"
proof -
  show "returns P (block [f]) Q" if "returns P f Q" using that by (simp add: returns_def and_then_eq_Inr)
  show "returns P (block (f # g # fs)) R" if "returns P f Q" "returns Q (block (g # fs)) R"
    using returns_and_then [OF that] by (simp add: returns_def)
qed

section \<open>The primitives\<close>

lemma empty_length: "(xs = []) = (length xs = 0)" by simp

lemmas stack_room = returns_def fits_def pop_back_def push_back_def stack_back_def m_pop_step_node_def
  empty_length

lemma returns_pop_back: "returns (fits t (Suc k) n) (pop_back t) (fits t k n)"
  by (auto simp: stack_room simp del: length_0_conv length_greater_0_conv)

lemma returns_pop_step: "returns (fits t (Suc k) n) (m_pop_step_node t) (fits t k n)"
  by (auto simp: stack_room simp del: length_0_conv length_greater_0_conv)

lemma returns_push_back: "returns (fits t k n) (push_back x t) (fits t (Suc k) n)"
  by (auto simp: stack_room simp del: length_0_conv length_greater_0_conv)

text \<open>The clean-up takes an ST-node from the top.\<close>

lemma returns_cleanup:
  "returns (\<lambda>s. fits t (st_node_at t 0 s + Suc k) n s) (m_cleanup_finish_node t) (fits t (Suc k) n)"
  unfolding returns_def
proof (intro allI)
  fix s :: "'a detector_scheme"
  show "(\<exists>s'. m_cleanup_finish_node t s = Inr s' \<and> fits t (Suc k) n s') =
      fits t (st_node_at t 0 s + Suc k) n s"
    by (cases "m_last_nodes s t = []")
      (auto simp: m_cleanup_finish_node_def stack_back_def pop_back_def fits_def st_node_at_def last_nth_top)
qed

lemma returns_step_on_st:
  "returns (\<lambda>s. fits t (Suc (st_node_at t 1 s + Suc k)) n s) (m_pop_step_node t)
     (\<lambda>s. fits t (st_node_at t 0 s + Suc k) n s)"
  unfolding returns_def
proof (intro allI)
  fix s :: "'a detector_scheme"
  show "(\<exists>s'. m_pop_step_node t s = Inr s' \<and> fits t (st_node_at t 0 s' + Suc k) n s') =
      fits t (Suc (st_node_at t 1 s + Suc k)) n s"
  proof (cases "Suc 0 < length (m_last_nodes s t)")
    case True
    then show ?thesis by (auto simp: stack_room st_node_at_def simp del: length_0_conv length_greater_0_conv)
  next
    case False
    then show ?thesis by (auto simp: stack_room simp del: length_0_conv length_greater_0_conv)
  qed
qed

lemma create_node_returns:
  "(\<exists>i s'. m_create_node ty t s = Inr (i, s') \<and> fits t k n s') = fits t k (Suc n) s"
  by (auto simp: m_create_node_def fits_def update_node_def Let_def)

lemma link_node_returns:
  "(\<exists>s'. m_set_nodeparent_info i t s = Inr s' \<and> fits t (Suc k) n s') = fits t (Suc k) n s"
  by (auto simp: m_set_nodeparent_info_def stack_back_def fits_def update_node_def Let_def)

lemma link_first_returns:
  "(\<exists>s'. m_set_nodeparent_info i t s = Inr s' \<and> fits t 0 n s') = fits t (Suc 0) n s"
  by (auto simp: m_set_nodeparent_info_def update_node_def Let_def stack_room
      simp del: length_0_conv length_greater_0_conv)

lemma new_child_returns:
  "(\<exists>i s'. new_child ty t s = Inr (i, s') \<and> fits t (Suc k) n s') = fits t (Suc k) (Suc n) s"
proof -
  have "(\<exists>i s'. new_child ty t s = Inr (i, s') \<and> fits t (Suc k) n s') =
      (\<exists>i u. m_create_node ty t s = Inr (i, u) \<and>
         (\<exists>s'. m_set_nodeparent_info i t u = Inr s' \<and> fits t (Suc k) n s'))"
    by (auto simp: new_child_def and_then_eq_Inr)
  then show ?thesis by (simp only: link_node_returns create_node_returns)
qed

lemma returns_push_new_node:
  "returns (fits t (Suc k) (Suc n)) (push_new_node ty t) (fits t (Suc (Suc k)) n)"
  unfolding returns_def
proof (intro allI)
  fix s :: "'a detector_scheme"
  have "(\<exists>s'. push_new_node ty t s = Inr s' \<and> fits t (Suc (Suc k)) n s') =
      (\<exists>i u. new_child ty t s = Inr (i, u) \<and> (\<exists>s'. push_back i t u = Inr s' \<and> fits t (Suc (Suc k)) n s'))"
    by (auto simp: push_new_node_def and_then_eq_Inr)
  then show "(\<exists>s'. push_new_node ty t s = Inr s' \<and> fits t (Suc (Suc k)) n s') = fits t (Suc k) (Suc n) s"
    by (simp only: returnsD [OF returns_push_back] new_child_returns)
qed

lemma returns_add_step:
  "returns (fits t (Suc k) (Suc n)) (m_add_step_node t) (fits t (Suc (Suc k)) n)"
  unfolding returns_def m_add_step_node_eq by (rule returns_push_new_node [unfolded returns_def])

lemma returns_look:
  "returns (fits t (Suc k) n) (\<lambda>s. and_then (stack_back t s) (\<lambda>x. Inr s)) (fits t (Suc k) n)"
  by (auto simp: returns_def stack_back_def fits_def)

text \<open>A node that is pushed makes the stack long enough for one more.\<close>

lemma returns_push_first:
  "returns (fits t (Suc 0) (Suc n)) (push_new_node ty t) (fits t (Suc 0) n)"
proof -
  have "(push_new_node ty t s = Inr s' \<and> fits t (Suc 0) n s') =
      (push_new_node ty t s = Inr s' \<and> fits t (Suc (Suc 0)) n s')" for s s' :: "'a detector_scheme"
    by (auto simp: push_new_node_def new_child_def m_create_node_def m_set_nodeparent_info_def
        update_node_def Let_def stack_room simp del: length_0_conv length_greater_0_conv)
  then show ?thesis using returns_push_new_node [of t 0 n ty] by (simp add: returns_def)
qed

text \<open>The last statement of a callback.\<close>

lemma returns_last:
  "returns (fits t (Suc 0) 0) (m_pop_step_node t) (\<lambda>_. True)"
  "returns (fits t (Suc 0) 0) (pop_back t) (\<lambda>_. True)"
  "returns (fits t 0 0) (push_back x t) (\<lambda>_. True)"
  "returns (fits t (Suc 0) (Suc 0)) (push_new_node ty t) (\<lambda>_. True)"
  "returns (fits t (Suc 0) (Suc 0)) (m_add_step_node t) (\<lambda>_. True)"
  unfolding m_add_step_node_eq
  by (auto simp: stack_room push_new_node_def new_child_def m_create_node_def m_set_nodeparent_info_def
      update_node_def Let_def simp del: length_0_conv length_greater_0_conv)

section \<open>What a callback needs\<close>

text \<open>A barrier makes the finish node of the next phase for the first thread that arrives; the
  others find it among the pending ones.\<close>

fun prepared :: "callback \<Rightarrow> 'a detector_scheme \<Rightarrow> bool" where
  "prepared (Thread_begin t) s = True"
| "prepared (Thread_end t) s = True"
| "prepared (Parallel_begin procs t n) s = fits t 2 2 s"
| "prepared (Parallel_end t) s = fits t 2 1 s"
| "prepared (Master_begin t) s = fits t 2 1 s"
| "prepared (Master_end t) s = fits t 2 1 s"
| "prepared (Single_begin t) s = True"
| "prepared (Single_end t) s = True"
| "prepared (Loop_begin t) s = (t < NUM_THREADS)"
| "prepared (Loop_end t) s = (if m_first_dispatch s t = 1 then t < NUM_THREADS else fits t 3 1 s)"
| "prepared (Loop_chunk t) s = fits t (if m_first_dispatch s t = 1 then 2 else 3) 2 s"
| "prepared (Section_begin t) s = fits t 2 2 s"
| "prepared (Section_end t) s = fits t 3 1 s"
| "prepared (Task_dependences t i ds) s =
     (dependencies (m_tgraph_nodes s (case m_task_map s i of None \<Rightarrow> 0 | Some x \<Rightarrow> x)) = None)"
| "prepared (Task_begin t i) s = fits t 0 1 s"
| "prepared (Task_end t) s = fits t (2 + st_node_at t 1 s) 0 s"
| "prepared (Implicit_task_begin t) s =
     (if t = 0 then m_num_threads s \<le> m_impl_end_count s \<and> fits t 1 2 s
      else 2 \<le> length (m_par_finish_index s) \<and> fits t 0 2 s)"
| "prepared (Implicit_task_end t) s = fits t (if t = 0 then 3 else 4) 0 s"
| "prepared (Barrier_begin t) s =
     (m_num_threads s \<le> NUM_THREADS \<and>
      (if max_barrier_count t s < m_barrier_count s t + 1 then fits t (4 + st_node_at t 1 s) 2 s
       else m_barrier_count s t < length (m_pending_finish s) \<and> fits t (3 + st_node_at t 1 s) 1 s))"
| "prepared (Barrier_end t) s = fits t 1 1 s"
| "prepared (Taskwait_begin t) s = fits t 1 0 s"
| "prepared (Taskwait_end t) s = fits t (1 + st_node_at t 0 s) 1 s"
| "prepared (Task_alloc t i d) s =
     fits t 2 (if m_young_ns_child (m_tgraph_nodes s (nth_top (m_last_nodes s t) 1)) = PARALLEL
               then 2 else 3) s"
| "prepared (Taskgroup_begin t) s = fits t (2 + st_node_at t 1 s) 2 s"
| "prepared (Taskgroup_end t) s = fits t (3 + st_node_at t 1 s) 1 s"

section \<open>The callbacks\<close>

lemmas unary = numeral_eq_Suc pred_numeral_simps arith_simps One_nat_def numeral_One add_Suc add_0

lemmas returns_rules = returns_block returns_pop_back returns_pop_step returns_push_back
  returns_push_new_node returns_add_step returns_look

text \<open>The callbacks that are a block of primitives.\<close>

lemma returns_blocks:
  "returns (fits t 2 1) (m_capture_master_begin t) (\<lambda>_. True)"
  "returns (fits t 2 1) (m_capture_master_end t) (\<lambda>_. True)"
  "returns (fits t 2 2) (m_capture_section_begin t) (\<lambda>_. True)"
  "returns (fits t 3 1) (m_capture_section_end t) (\<lambda>_. True)"
  "returns (fits t 1 1) (m_capture_barrier_end t) (\<lambda>_. True)"
  "returns (fits t 1 0) (m_capture_taskwait_begin t) (\<lambda>_. True)"
  "returns (fits t 3 1) (block [m_pop_step_node t, pop_back t, m_add_step_node t]) (\<lambda>_. True)"
  "returns (fits t 2 1) (block [pop_back t, m_add_step_node t]) (\<lambda>_. True)"
  "returns (fits t 1 2) (block [push_new_node PARALLEL t, m_add_step_node t]) (\<lambda>_. True)"
  "returns (fits t 0 1) (block [push_back x t, m_add_step_node t]) (\<lambda>_. True)"
  "returns (fits t 3 0) (block [m_pop_step_node t, pop_back t, pop_back t]) (\<lambda>_. True)"
  "returns (fits t 4 0) (block [m_pop_step_node t, pop_back t, pop_back t, pop_back t]) (\<lambda>_. True)"
  unfolding m_capture_master_begin_def m_capture_master_end_def m_capture_section_begin_def
    m_capture_section_end_def m_capture_barrier_end_def m_capture_taskwait_begin_def unary
  by ((rule returns_block returns_pop_back returns_pop_step returns_push_back returns_push_first
      returns_last)+)

text \<open>Those that clean up: the number of ST-nodes on the way is part of what they need.\<close>

lemma returns_cleanups:
  "returns (\<lambda>s. fits t (Suc (st_node_at t 1 s + 1)) 0 s) (m_capture_task_end t) (\<lambda>_. True)"
  "returns (\<lambda>s. fits t (Suc (st_node_at t 1 s + 1)) 2 s) (m_capture_taskgroup_begin t) (\<lambda>_. True)"
  "returns (\<lambda>s. fits t (Suc (st_node_at t 1 s + 2)) 1 s) (m_capture_taskgroup_end t) (\<lambda>_. True)"
  "returns (\<lambda>s. fits t (st_node_at t 0 s + 1) 1 s) (block [m_cleanup_finish_node t, m_add_step_node t])
     (\<lambda>_. True)"
  "returns (\<lambda>s. fits t (Suc (st_node_at t 1 s + Suc (Suc k))) n s)
     (block [m_pop_step_node t, m_cleanup_finish_node t, pop_back t, pop_back t]) (fits t k n)"
  unfolding m_capture_task_end_def m_capture_taskgroup_begin_def m_capture_taskgroup_end_def
    numeral_2_eq_2 One_nat_def
  by ((rule returns_block returns_step_on_st [unfolded One_nat_def] returns_cleanup returns_pop_back returns_push_first
      returns_look returns_last)+)

text \<open>The others, in the order of the code.\<close>

lemma push_new_node_ex:
  "(\<exists>i u. new_child ty t s = Inr (i, u) \<and> (\<exists>v. push_back i t u = Inr v \<and> Q v)) =
     (\<exists>v. push_new_node ty t s = Inr v \<and> Q v)"
  by (auto simp: push_new_node_def and_then_eq_Inr)

lemma fits_fields [simp]:
  "fits t k n (s\<lparr>m_num_threads := x\<rparr>) = fits t k n s"
  "fits t k n (s\<lparr>m_first_dispatch := g\<rparr>) = fits t k n s"
  "fits t k n (s\<lparr>m_task_map := h\<rparr>) = fits t k n s"
  "fits t k n (s\<lparr>m_impl_end_count := y\<rparr>) = fits t k n s"
  "fits t k n (s\<lparr>m_barrier_count := g\<rparr>) = fits t k n s"
  "fits t k n (s\<lparr>m_pending_finish := ys\<rparr>) = fits t k n s"
  "fits t k n (update_node i f s) = fits t k n s"
  "fits t k n (set_task_id d j i s) = fits t k n s"
  by (simp_all add: fits_def update_node_def set_task_id_def)

lemma parallel_begin_returns: "(\<exists>s'. m_capture_parallel_begin p t n s = Inr s') = fits t 2 2 s"
proof -
  let ?set = "\<lambda>a. a\<lparr>m_num_threads := (if n > 0 then n else p)\<rparr>"
  have "(\<exists>s'. m_capture_parallel_begin p t n s = Inr s') =
      (\<exists>a. m_pop_step_node t s = Inr a \<and> (\<exists>i u. new_child SERIES t (?set a) = Inr (i, u) \<and>
         (\<exists>v. push_back i t u = Inr v \<and> (\<exists>j w. new_child SERIES t v = Inr (j, w) \<and>
            (\<exists>x. push_back j t w = Inr x \<and> True)))))"
    by (auto simp: m_capture_parallel_begin_def and_then_eq_Inr Let_def)
  also have "\<dots> = (\<exists>a. m_pop_step_node t s = Inr a \<and> fits t (Suc 0) (Suc (Suc 0)) (?set a))"
    by (simp only: push_new_node_ex returnsD [OF returns_last(4)] returnsD [OF returns_push_first])
  also have "\<dots> = fits t 2 2 s"
    by (simp add: returnsD [OF returns_pop_step] numeral_2_eq_2)
  finally show ?thesis .
qed

lemma parallel_end_returns: "(\<exists>s'. m_capture_parallel_end t s = Inr s') = fits t 2 1 s"
  by (simp add: m_capture_parallel_end_def and_then_eq_Inr returns_all [OF returns_blocks(8)] del: block.simps)

lemma loop_end_returns:
  "(\<exists>s'. m_capture_loop_end t s = Inr s') = prepared (Loop_end t) s"
  by (auto simp: m_capture_loop_end_def returns_all [OF returns_blocks(7)] fits_def simp del: block.simps)

lemma loop_chunk_returns:
  "(\<exists>s'. m_capture_loop_chunk t s = Inr s') = prepared (Loop_chunk t) s"
proof -
  let ?pops = "if m_first_dispatch s t = 1 then block [set_first_dispatch 0 t, m_pop_step_node t] s
    else block [m_pop_step_node t, pop_back t] s"
  have "(\<exists>s'. m_capture_loop_chunk t s = Inr s') =
      (t < NUM_THREADS \<and> (\<exists>u. ?pops = Inr u \<and>
         (\<exists>s'. block [push_new_node PARALLEL t, m_add_step_node t] u = Inr s')))"
    by (auto simp: m_capture_loop_chunk_def and_then_eq_Inr simp del: block.simps)
  also have "\<dots> = (t < NUM_THREADS \<and> (\<exists>u. ?pops = Inr u \<and> fits t 1 2 u))"
    by (simp only: returns_all [OF returns_blocks(9)])
  also have "\<dots> = prepared (Loop_chunk t) s"
  proof (cases "m_first_dispatch s t = 1")
    case True
    have "(\<exists>u. m_pop_step_node t (s\<lparr>m_first_dispatch := (m_first_dispatch s)(t := 0)\<rparr>) = Inr u \<and>
        fits t 1 2 u) = fits t 2 2 s"
      by (simp add: returnsD [OF returns_pop_step] numeral_2_eq_2)
    then show ?thesis using True by (auto simp: set_first_dispatch_def and_then_eq_Inr fits_def)
  next
    case False
    have "returns (fits t 3 2) (block [m_pop_step_node t, pop_back t]) (fits t 1 2)"
      unfolding numeral_3_eq_3 One_nat_def by (rule returns_block returns_pop_step returns_pop_back)+
    from returnsD [OF this, of s] show ?thesis using False by (auto simp: fits_def)
  qed
  finally show ?thesis .
qed

lemma task_dependences_returns:
  "(\<exists>s'. m_capture_task_dependences t i ds s = Inr s') = prepared (Task_dependences t i ds) s"
  by (auto simp: m_capture_task_dependences_def Let_def split: option.split)

lemma task_begin_returns: "(\<exists>s'. m_capture_task_begin t i s = Inr s') = fits t 0 1 s"
  by (simp add: m_capture_task_begin_def Let_def returns_all [OF returns_blocks(10)] del: block.simps)

lemma implicit_task_begin_returns:
  "(\<exists>s'. m_capture_implicit_task_begin t s = Inr s') = prepared (Implicit_task_begin t) s"
  by (auto simp: m_capture_implicit_task_begin_def push_back_def at_def
      returns_all [OF returns_blocks(9)] fits_def simp del: block.simps)

lemma implicit_task_end_returns:
  "(\<exists>s'. m_capture_implicit_task_end t s = Inr s') = fits t (if t = 0 then 3 else 4) 0 s"
  by (auto simp: m_capture_implicit_task_end_def and_then_eq_Inr returns_all [OF returns_blocks(11)]
      returns_all [OF returns_blocks(12)] simp del: block.simps)

lemma barrier_finish_node_returns:
  "(\<exists>s'. barrier_finish_node t s = Inr s' \<and> fits t 1 1 s') =
     (if max_barrier_count t s < m_barrier_count s t then fits t 1 2 s
      else m_barrier_count s t - 1 < length (m_pending_finish s) \<and> fits t 0 1 s)"
proof (cases "max_barrier_count t s < m_barrier_count s t")
  case True
  then have "(\<exists>s'. barrier_finish_node t s = Inr s' \<and> fits t 1 1 s') =
      (\<exists>i u. new_child SERIES t s = Inr (i, u) \<and> (\<exists>v. push_back i t u = Inr v \<and> fits t 1 1 v))"
    by (auto simp: barrier_finish_node_def and_then_eq_Inr)
  also have "\<dots> = fits t 1 2 s"
    by (simp only: push_new_node_ex returnsD [OF returns_push_first] One_nat_def numeral_2_eq_2)
  finally show ?thesis using True by simp
next
  case False
  then show ?thesis by (auto simp: barrier_finish_node_def at_def push_back_def fits_def)
qed

lemma barrier_begin_returns:
  "(\<exists>s'. m_capture_barrier_begin t s = Inr s') = prepared (Barrier_begin t) s"
proof -
  let ?pops = "block [m_pop_step_node t, m_cleanup_finish_node t, pop_back t, pop_back t] s"
  let ?count = "\<lambda>z. z\<lparr>m_barrier_count := (m_barrier_count z)(t := m_barrier_count z t + 1)\<rparr>"
  let ?first = "max_barrier_count t s < m_barrier_count s t + 1"
  have keep: "m_barrier_count z = m_barrier_count s \<and> m_num_threads z = m_num_threads s \<and>
      m_pending_finish z = m_pending_finish s \<and>
      max_barrier_count t (z\<lparr>m_barrier_count := (m_barrier_count s)(t := Suc (m_barrier_count s t))\<rparr>) =
        max_barrier_count t s"
    if "?pops = Inr z" for z
  proof -
    have "m_barrier_count z = m_barrier_count s \<and> m_num_threads z = m_num_threads s \<and>
        m_pending_finish z = m_pending_finish s"
      using that by (auto dest!: pops_keep_counts elim!: and_then_InrE)
    then show ?thesis by (auto intro: max_barrier_count_cong)
  qed
  have "(\<exists>s'. m_capture_barrier_begin t s = Inr s') =
      (\<exists>z. ?pops = Inr z \<and> m_num_threads z \<le> NUM_THREADS \<and>
         (\<exists>u. barrier_finish_node t (?count z) = Inr u \<and> (\<exists>s'. push_new_node PARALLEL t u = Inr s')))"
    by (cases ?pops; simp add: m_capture_barrier_begin_def del: block.simps) (auto simp: and_then_eq_Inr)
  also have "\<dots> = (\<exists>z. ?pops = Inr z \<and> m_num_threads z \<le> NUM_THREADS \<and>
      (\<exists>u. barrier_finish_node t (?count z) = Inr u \<and> fits t 1 1 u))"
    by (simp only: returns_all [OF returns_last(4)] One_nat_def)
  also have "\<dots> = (\<exists>z. ?pops = Inr z \<and> m_num_threads s \<le> NUM_THREADS \<and>
      (if ?first then fits t 1 2 z else m_barrier_count s t < length (m_pending_finish s) \<and> fits t 0 1 z))"
    unfolding barrier_finish_node_returns
    by (rule ex_cong1, rule conj_cong [OF refl]) (drule keep, simp del: block.simps)
  also have "\<dots> = prepared (Barrier_begin t) s"
  proof (cases ?first)
    case True
    then show ?thesis using returnsD [OF returns_cleanups(5) [of t 1 2], of s]
      by (auto simp: numeral_eq_Suc simp del: block.simps)
  next
    case False
    then show ?thesis using returnsD [OF returns_cleanups(5) [of t 0 1], of s]
      by (auto simp: numeral_eq_Suc simp del: block.simps)
  qed
  finally show ?thesis .
qed

lemma taskwait_end_returns:
  "(\<exists>s'. m_capture_taskwait_end t s = Inr s') = prepared (Taskwait_end t) s"
proof (cases "mode s")
  case Fast
  then show ?thesis using returns_all [OF returns_cleanups(4), of t s]
    by (simp add: m_capture_taskwait_end_def m_capture_taskwait_end_fast_def del: block.simps)
next
  case Precise
  let ?top = "last (m_last_nodes s t)"
  let ?s = "if m_finish_flag (m_tgraph_nodes s ?top)
    then update_node ?top (\<lambda>nd. nd\<lparr>st_val := -1\<rparr>) s else s"
  have st: "st_node_at t 0 ?s = st_node_at t 0 s"
    by (simp add: st_node_at_def update_node_def)
  have "(\<exists>s'. m_capture_taskwait_end t s = Inr s') =
      (\<exists>s'. block [m_cleanup_finish_node t, m_add_step_node t] ?s = Inr s')"
    using Precise
    by (auto simp: m_capture_taskwait_end_def m_capture_taskwait_end_precise_def m_cleanup_finish_node_def
        stack_back_def and_then_eq_Inr update_node_def)
  also have "\<dots> = prepared (Taskwait_end t) s"
    unfolding returns_all [OF returns_cleanups(4)] st by simp
  finally show ?thesis .
qed

lemma trivial_returns:
  "(\<exists>s'. m_capture_thread_begin t s = Inr s') = True" "(\<exists>s'. m_capture_thread_end t s = Inr s') = True"
  "(\<exists>s'. m_capture_single_begin t s = Inr s') = True" "(\<exists>s'. m_capture_single_end t s = Inr s') = True"
  "(\<exists>s'. m_capture_loop_begin t s = Inr s') = (t < NUM_THREADS)"
  by (simp_all add: m_capture_thread_begin_def m_capture_thread_end_def m_capture_single_begin_def
      m_capture_single_end_def m_capture_loop_begin_def set_first_dispatch_def)

text \<open>Task creation: the first task of its creator also makes an ST-node.\<close>

lemma create_and_link_ex:
  "(\<exists>i u. m_create_node ty t s = Inr (i, u) \<and> (\<exists>v. m_set_nodeparent_info i t (h i u) = Inr v \<and> fits t (Suc k) n v))
     = fits t (Suc k) (Suc n) s"
  if "\<And>i u. fits t (Suc k) n (h i u) = fits t (Suc k) n u"
  by (simp only: link_node_returns that create_node_returns)

abbreviation register :: "nat \<Rightarrow> nat \<Rightarrow> 'a detector_scheme \<Rightarrow> 'a detector_scheme" where
  "register i x v \<equiv> v\<lparr>m_task_map := (m_task_map v)(i \<mapsto> x)\<rparr>"

abbreviation mark_st :: "nat \<Rightarrow> 'a detector_scheme \<Rightarrow> 'a detector_scheme" where
  "mark_st k \<equiv> update_node k (\<lambda>nd. nd\<lparr>m_young_ns_child := PARALLEL, m_finish_flag := True\<rparr>)"

lemma async_returns:
  "(\<exists>x v. m_create_node PARALLEL t u = Inr (x, v) \<and> (\<exists>w. m_set_nodeparent_info x t v = Inr w \<and>
      (\<exists>s'. m_add_step_node t (register i x (set_task_id d i x w)) = Inr s'))) = fits t 1 2 u"
  "(\<exists>x v. m_create_node PARALLEL t u = Inr (x, v) \<and>
      (\<exists>w. m_set_nodeparent_info x t (set_task_id d i x v) = Inr w \<and>
      (\<exists>s'. m_add_step_node t (register i x w) = Inr s'))) = fits t 1 2 u"
  unfolding returns_all [OF returns_last(5)] fits_fields numeral_2_eq_2 One_nat_def
  by (rule create_and_link_ex, simp)+

lemma st_node_returns:
  "(\<exists>k v. m_create_node SERIES t u = Inr (k, v) \<and> (\<exists>w. m_set_nodeparent_info k t v = Inr w \<and>
      (\<exists>p. push_back k t (mark_st k w) = Inr p \<and> fits t 1 2 p))) = fits t 1 3 u"
  by (simp only: One_nat_def returnsD [OF returns_push_back] fits_fields link_first_returns
      create_node_returns numeral_3_eq_3 numeral_2_eq_2)

lemma task_alloc_returns:
  "(\<exists>s'. m_capture_task_alloc t i d s = Inr s') = prepared (Task_alloc t i d) s"
proof -
  let ?young = "\<lambda>u. m_young_ns_child (m_tgraph_nodes u (last (m_last_nodes u t))) = PARALLEL"
  show ?thesis
  proof (cases "m_pop_step_node t s")
    case (Inl e)
    then show ?thesis
      by (auto simp: m_capture_task_alloc_def m_pop_step_node_eq pop_back_def fits_def split: if_split_asm)
  next
    case (Inr u)
    then have u: "t < NUM_THREADS" "u = s\<lparr>m_last_nodes := (m_last_nodes s)(t := butlast (m_last_nodes s t))\<rparr>"
      by (auto simp: m_pop_step_node_eq pop_back_def split: if_split_asm)
    then have fu: "fits t 1 n u = fits t 2 n s" for n by (auto simp: fits_def)
    show ?thesis
    proof (cases "fits t 1 0 u")
      case False
      then have "stack_back t u = Inl Undefined_behaviour" "\<not> fits t 2 n s" for n
        using u(1) fu [of n] by (auto simp: stack_back_def fits_def Suc_le_eq)
      then show ?thesis using Inr by (simp add: m_capture_task_alloc_def)
    next
      case True
      then have top: "stack_back t u = Inr (last (m_last_nodes u t))" and l: "2 \<le> length (m_last_nodes s t)"
        using fu by (auto simp: stack_back_def fits_def)
      have "butlast (m_last_nodes s t) \<noteq> []"
        using l by (simp add: empty_length del: length_0_conv)
      then have young: "?young u = (m_young_ns_child (m_tgraph_nodes s (nth_top (m_last_nodes s t) 1)) = PARALLEL)"
        using u(2) l by (simp add: last_nth_top)
      show ?thesis
      proof (cases "?young u")
        case True
        have "(\<exists>s'. m_capture_task_alloc t i d s = Inr s') = fits t 1 2 u"
          unfolding async_returns(1) [where i = i and d = d, symmetric] using Inr top True
          by (auto simp: m_capture_task_alloc_def and_then_eq_Inr Let_def)
        then show ?thesis using True by (simp only: young fu prepared.simps if_True refl simp_thms)
      next
        case False
        have "(\<exists>s'. m_capture_task_alloc t i d s = Inr s') = fits t 1 3 u"
          unfolding st_node_returns [symmetric] async_returns(2) [where i = i and d = d, symmetric] using Inr top False
          by (auto simp: m_capture_task_alloc_def and_then_eq_Inr Let_def)
        then show ?thesis using False by (simp only: young fu prepared.simps if_False)
      qed
    qed
  qed
qed

lemma callback_returns_iff: "(\<exists>s'. capture c s = Inr s') = prepared c s"
  by (cases c)
    (simp_all only: trivial_returns capture.simps parallel_begin_returns parallel_end_returns loop_end_returns
      loop_chunk_returns task_dependences_returns task_begin_returns implicit_task_begin_returns
      implicit_task_end_returns barrier_begin_returns taskwait_end_returns task_alloc_returns
      returns_all [OF returns_blocks(1)] returns_all [OF returns_blocks(2)] returns_all [OF returns_blocks(3)]
      returns_all [OF returns_blocks(4)] returns_all [OF returns_blocks(5)] returns_all [OF returns_blocks(6)]
      returns_all [OF returns_cleanups(1)] returns_all [OF returns_cleanups(2)]
      returns_all [OF returns_cleanups(3)] prepared.simps, simp_all add: eval_nat_numeral)


end
