(* ===== verification/Event_Returns.thy ===== *)
theory Event_Returns
  imports Ompt_Run Callback_Returns
begin

text \<open>
  When an event of the tool comes back: the exact condition, from \<open>actions\<close>, which says what an event
  does to the detector, and \<open>prepared\<close>, which says what each callback of the detector needs.
\<close>

section \<open>The start of the detector\<close>

lemma init_racer_returns: "(\<exists>s'. m_init_racer n s = Inr s') = fits n 0 2 s"
proof -
  let ?root = "\<lambda>i s. update_node i (\<lambda>nd. nd\<lparr>m_seqnum := 0, m_parent := 0, m_depth := 0\<rparr>) s"
  have "(\<exists>s'. m_init_racer n s = Inr s') =
      (\<exists>i u. m_create_node SERIES n s = Inr (i, u) \<and>
        (\<exists>s'. block [push_back i n, m_add_step_node n] (?root i u) = Inr s'))"
    by (auto simp: m_init_racer_def and_then_eq_Inr simp del: block.simps)
  also have "\<dots> = (\<exists>i u. m_create_node SERIES n s = Inr (i, u) \<and> fits n 0 1 u)"
    by (simp only: returns_all [OF returns_blocks(10)] fits_fields)
  also have "\<dots> = fits n 0 2 s"
    by (simp only: One_nat_def numeral_2_eq_2 create_node_returns)
  finally show ?thesis .
qed

section \<open>The operations of an event\<close>

fun able ::
  "(nat \<Rightarrow> 64 word \<Rightarrow> bool \<Rightarrow> 'a detector_scheme \<Rightarrow> 'a detector_scheme result) \<Rightarrow>
   (64 word \<Rightarrow> 64 word \<Rightarrow> 'a detector_scheme \<Rightarrow> 'a detector_scheme result) \<Rightarrow>
   action \<Rightarrow> 'a detector_scheme \<Rightarrow> bool" where
  "able check clear (Started n) d = fits n 0 2 d"
| "able check clear (Captured c) d = prepared c d"
| "able check clear (Checked n a ty) d = (\<not> isl (check n a ty d))"
| "able check clear (Cleared a b) d = (\<not> isl (clear a b d))"

text \<open>One after the other, each where the one before has left the detector.\<close>

fun able_all ::
  "(nat \<Rightarrow> 64 word \<Rightarrow> bool \<Rightarrow> 'a detector_scheme \<Rightarrow> 'a detector_scheme result) \<Rightarrow>
   (64 word \<Rightarrow> 64 word \<Rightarrow> 'a detector_scheme \<Rightarrow> 'a detector_scheme result) \<Rightarrow>
   action list \<Rightarrow> 'a detector_scheme \<Rightarrow> bool" where
  "able_all check clear [] d = True"
| "able_all check clear (a # as) d =
     (able check clear a d \<and>
      (case perform check clear a d of Inl e \<Rightarrow> False | Inr d' \<Rightarrow> able_all check clear as d'))"

lemma not_isl_iff: "\<not> isl r \<longleftrightarrow> (\<exists>x. r = Inr x)"
  by (cases r) auto

lemma able_iff: "able check clear a d \<longleftrightarrow> (\<exists>d'. perform check clear a d = Inr d')"
  by (cases a) (simp_all add: init_racer_returns callback_returns_iff not_isl_iff)

lemma able_all_iff: "able_all check clear as d \<longleftrightarrow> (\<exists>d'. block (map (perform check clear) as) d = Inr d')"
proof (induction as arbitrary: d)
  case (Cons a as)
  then show ?case
    by (cases "perform check clear a d") (auto simp: able_iff)
qed simp

lemma racer_of_returns: "(\<exists>t'. r = Inr t') = (\<exists>d. racer_of r = Inr d)"
  by (cases r) auto


end
