(* ===== verification/Stat_Counters.thy ===== *)
theory Stat_Counters
  imports Verdict
begin

text \<open>
  The counters that the macro \<open>STAT\<close> adds (it is 0 in both builds): \<open>PerThreadStats\<close>, \<open>Statistics\<close>
  with its \<open>display\<close>, and the counting in \<open>m_isparallel\<close> and \<open>m_print_violations\<close>. A \<open>long\<close> is a
  64-bit word. Of the report only what is computed with integers is modelled; the two percentages
  are computed in floating point. The counting of accesses and tables is a plain increment at the
  start, at a new table and at the end of \<open>m_instrument_access\<close>.
\<close>

section \<open>The counters\<close>

record PerThreadStats =
  m_enter_instrument_mem :: "64 word"
  m_exit_instrument_mem :: "64 word"
  m_lca_calls :: "64 word"
  m_lca_height :: "64 word"
  m_shadow_mem_buckets :: "64 word"
  m_lca_cache_hit :: "64 word"
  m_lca_cache_miss :: "64 word"

definition zero_stats :: PerThreadStats where
  "zero_stats = \<lparr>m_enter_instrument_mem = 0, m_exit_instrument_mem = 0, m_lca_calls = 0, m_lca_height = 0,
     m_shadow_mem_buckets = 0, m_lca_cache_hit = 0, m_lca_cache_miss = 0\<rparr>"

record Statistics =
  pt_stat :: "nat \<Rightarrow> PerThreadStats"
  m_ospg_nodes_created :: "64 word"

definition stat_count :: Statistics where
  "stat_count = \<lparr>pt_stat = (\<lambda>_. zero_stats), m_ospg_nodes_created = 0\<rparr>"

definition count_at ::
  "nat \<Rightarrow> (PerThreadStats \<Rightarrow> PerThreadStats) \<Rightarrow> Statistics \<Rightarrow> Statistics result" where
  "count_at tid f st =
     (if tid < NUM_THREADS then Inr (st\<lparr>pt_stat := (pt_stat st)(tid := f (pt_stat st tid))\<rparr>)
      else Inl Undefined_behaviour)"

section \<open>The report\<close>

definition sum_over :: "(PerThreadStats \<Rightarrow> 64 word) \<Rightarrow> Statistics \<Rightarrow> 64 word" where
  "sum_over f st = fold (\<lambda>i total. total + f (pt_stat st i)) [0..<NUM_THREADS] 0"

record stat_report =
  entered :: int
  left :: int
  skipped :: int
  lca_calls :: int
  lca_height :: int
  lca_height_per_call :: int
  nodes_created :: int
  buckets :: int

text \<open>The quotient is that of C++, rounded to zero; the divisor is positive.\<close>

definition display :: "Statistics \<Rightarrow> stat_report" where
  "display st =
     (let enter_sum = sum_over m_enter_instrument_mem st; exit_sum = sum_over m_exit_instrument_mem st;
          calls_sum = sum_over m_lca_calls st; height_sum = sum_over m_lca_height st;
          height = sint height_sum; calls = sint calls_sum in
      \<lparr>entered = sint enter_sum, left = sint exit_sum, skipped = sint (enter_sum - exit_sum),
       lca_calls = calls, lca_height = height,
       lca_height_per_call = (if calls > 0 then sgn height * (\<bar>height\<bar> div calls) else 0),
       nodes_created = sint (m_ospg_nodes_created st), buckets = sint (sum_over m_shadow_mem_buckets st)\<rparr>)"

text \<open>The end of \<open>m_print_violations\<close>.\<close>

definition display_at_end :: "'a detector_scheme \<Rightarrow> Statistics \<Rightarrow> stat_report" where
  "display_at_end s st =
     display (st\<lparr>m_ospg_nodes_created := m_ospg_nodes_created st + of_nat (m_last_allocated_node s)\<rparr>)"

section \<open>Counting in m_isparallel\<close>

partial_function (option) climb_height :: "(nat \<Rightarrow> Node) \<Rightarrow> nat \<Rightarrow> nat \<Rightarrow> nat \<Rightarrow> (nat \<times> nat) option" where
  "climb_height g depth task h =
     (if m_depth (g task) \<noteq> depth then climb_height g depth (m_parent (g task)) (h + 1) else Some (task, h))"

partial_function (option) meet_height :: "(nat \<Rightarrow> Node) \<Rightarrow> nat \<Rightarrow> nat \<Rightarrow> nat \<Rightarrow> nat option" where
  "meet_height g cur remote h =
     (if remote \<noteq> cur then meet_height g (m_parent (g cur)) (m_parent (g remote)) (h + 2) else Some h)"

text \<open>The counter as a natural number while the loops run; it is added to the \<open>long\<close> at the end.\<close>

definition count_isparallel ::
  "nat \<Rightarrow> 'a detector_scheme \<Rightarrow> nat \<Rightarrow> nat \<Rightarrow> Statistics \<Rightarrow> Statistics result" where
  "count_isparallel tid s curr_step meta_access st =
     (let g = m_tgraph_nodes s in
      if curr_step = 0 then Inl Assertion_failed
      else if meta_access = 0 \<or> meta_access = curr_step then Inr st
      else and_then (count_at tid (\<lambda>p. p\<lparr>m_lca_cache_miss := m_lca_cache_miss p + 1,
                                         m_lca_calls := m_lca_calls p + 1\<rparr>) st) (\<lambda>st.
        let curr_depth = m_depth (g curr_step); meta_depth = m_depth (g meta_access) in
        and_then
          (if curr_depth > meta_depth
           then and_then (returned (climb_height g meta_depth curr_step 0)) (\<lambda>(c, h). Inr (c, meta_access, h))
           else if meta_depth > curr_depth
           then and_then (returned (climb_height g curr_depth meta_access 0)) (\<lambda>(r, h). Inr (curr_step, r, h))
           else Inr (curr_step, meta_access, 0))
          (\<lambda>(c, r, h). and_then (returned (meet_height g c r h))
             (\<lambda>h. count_at tid (\<lambda>p. p\<lparr>m_lca_height := m_lca_height p + of_nat h\<rparr>) st))))"

section \<open>What is counted\<close>

lemma climb_height_ends:
  assumes "node_of g n i" and "d \<le> m_depth (g i)"
  shows "climb_height g d i h = Some (at_depth g i d, h + (m_depth (g i) - d))"
  using assms
proof (induction "m_depth (g i) - d" arbitrary: i h)
  case 0
  then show ?case by (subst climb_height.simps) (auto simp: at_depth_def)
next
  case (Suc k)
  then obtain e where e: "m_depth (g i) = Suc e" by (cases "m_depth (g i)") auto
  note q = depth_par [OF Suc.prems(1) e]
  have "climb_height g d (par g i) (h + 1) = Some (at_depth g (par g i) d, h + 1 + (m_depth (g (par g i)) - d))"
    using Suc.hyps(1) [of "par g i" "h + 1"] Suc.hyps(2) q e by simp
  moreover have "at_depth g (par g i) d = at_depth g i d"
    using at_depth_par [OF Suc.prems(1) e] Suc.hyps(2) e by simp
  ultimately show ?case using Suc.hyps(2) q e by (subst climb_height.simps) auto
qed

lemma meet_height_ends:
  assumes "node_of g n c" "node_of g n r" and "m_depth (g c) = m_depth (g r)" "d \<le> m_depth (g c)"
    and "at_depth g c d = at_depth g r d"
    and "\<And>e. d < e \<Longrightarrow> e \<le> m_depth (g c) \<Longrightarrow> at_depth g c e \<noteq> at_depth g r e"
  shows "meet_height g c r h = Some (h + 2 * (m_depth (g c) - d))"
  using assms
proof (induction "m_depth (g c) - d" arbitrary: c r h)
  case 0
  then have d: "m_depth (g c) = d" "m_depth (g r) = d" by auto
  then have "c = r" using 0 at_depth_self [of g c] at_depth_self [of g r] by metis
  then show ?case using d by (subst meet_height.simps) auto
next
  case (Suc k)
  obtain e where e: "m_depth (g c) = Suc e" using Suc.hyps(2) by (cases "m_depth (g c)") auto
  then have f: "m_depth (g r) = Suc e" using Suc.prems(3) by simp
  note qc = depth_par [OF Suc.prems(1) e] and qr = depth_par [OF Suc.prems(2) f]
  note upc = at_depth_par [OF Suc.prems(1) e] and upr = at_depth_par [OF Suc.prems(2) f]
  have "d < Suc e" using Suc.hyps(2) e by linarith
  then have ne: "c \<noteq> r" using Suc.prems(6) [of "Suc e"] e by auto
  have "meet_height g (par g c) (par g r) (h + 2) = Some (h + 2 + 2 * (m_depth (g (par g c)) - d))"
    using Suc.hyps(1) [of "par g c" "par g r" "h + 2"] Suc.hyps(2) Suc.prems(5,6) qc qr e f upc upr by auto
  then show ?case using Suc.hyps(2) ne e qc by (subst meet_height.simps) auto
qed

lemma count_isparallel_split:
  assumes nodes: "node_of (m_tgraph_nodes s) n a" "node_of (m_tgraph_nodes s) n b"
    and sp: "splits (m_tgraph_nodes s) a b d"
  shows "count_isparallel tid s a b st =
    count_at tid (\<lambda>p. p\<lparr>m_lca_cache_miss := m_lca_cache_miss p + 1, m_lca_calls := m_lca_calls p + 1,
      m_lca_height := m_lca_height p + of_nat (m_depth (m_tgraph_nodes s a) + m_depth (m_tgraph_nodes s b) - 2 * d)\<rparr>) st"
proof -
  let ?g = "m_tgraph_nodes s"
  let ?m = "min (m_depth (?g a)) (m_depth (?g b))"
  let ?c = "at_depth ?g a ?m" and ?r = "at_depth ?g b ?m"
  have dm: "d < ?m" using sp by (simp add: splits_def)
  have ne: "a \<noteq> 0" "b \<noteq> 0" "b \<noteq> a" using nodes sp by (auto simp: node_of_def splits_def)
  have c: "node_of ?g n ?c" "m_depth (?g ?c) = ?m" and r: "node_of ?g n ?r" "m_depth (?g ?r) = ?m"
    using at_depth_node [OF nodes(1), of ?m] at_depth_node [OF nodes(2), of ?m] by auto
  have ca: "at_depth ?g ?c e = at_depth ?g a e" "at_depth ?g ?r e = at_depth ?g b e" if "e \<le> ?m" for e
    using at_depth_at_depth [OF nodes(1) that] at_depth_at_depth [OF nodes(2) that] by simp_all
  have apart: "at_depth ?g a e \<noteq> at_depth ?g b e" if "d < e" "e \<le> ?m" for e
    using at_depth_eq_mono [OF nodes, of "Suc d" e] sp that by (auto simp: splits_def)
  have meet: "meet_height ?g ?c ?r h = Some (h + 2 * (?m - d))" for h
    using meet_height_ends [OF c(1) r(1), of d h] c(2) r(2) ca apart dm sp by (simp add: splits_def)
  have "(if m_depth (?g a) > m_depth (?g b)
      then and_then (returned (climb_height ?g (m_depth (?g b)) a 0)) (\<lambda>(c, h). Inr (c, b, h))
      else if m_depth (?g b) > m_depth (?g a)
      then and_then (returned (climb_height ?g (m_depth (?g a)) b 0)) (\<lambda>(r, h). Inr (a, r, h))
      else Inr (a, b, 0)) =
      Inr (?c, ?r, m_depth (?g a) + m_depth (?g b) - 2 * ?m)"
    (is "?first = _")
  proof (cases "m_depth (?g a) = m_depth (?g b)")
    case True
    then have "at_depth ?g b (m_depth (?g a)) = b" using at_depth_self [of ?g b] by simp
    then show ?thesis using True at_depth_self [of ?g a] by (simp add: min_def)
  next
    case False
    then show ?thesis
    using climb_height_ends [OF nodes(1), of "m_depth (?g b)" 0] climb_height_ends [OF nodes(2), of "m_depth (?g a)" 0]
      at_depth_self [of ?g a] at_depth_self [of ?g b]
    by (auto simp: min_def)
  qed
  moreover have "m_depth (?g a) + m_depth (?g b) - 2 * ?m + 2 * (?m - d) = m_depth (?g a) + m_depth (?g b) - 2 * d"
    using dm by auto
  ultimately show ?thesis using ne meet
    by (simp add: count_isparallel_def Let_def count_at_def)
qed

text \<open>C26: The counters of one query are exact: for two steps whose paths from the root part at depth
  \<open>d\<close>, the query counts one call, and as its height the links from both steps to their least
  common ancestor, on its own thread and on no other.\<close>

theorem lca_height_counted:
  assumes "reachable md nc s" and "is_node s a" "is_node s b" and "splits (m_tgraph_nodes s) a b d"
  shows "count_isparallel tid s a b st =
    count_at tid (\<lambda>p. p\<lparr>m_lca_cache_miss := m_lca_cache_miss p + 1, m_lca_calls := m_lca_calls p + 1,
      m_lca_height := m_lca_height p + of_nat (m_depth (m_tgraph_nodes s a) + m_depth (m_tgraph_nodes s b) - 2 * d)\<rparr>) st"
  using count_isparallel_split is_node_node_of [OF reachable_wf [OF assms(1)]] assms(2-4) by blast

theorem lca_height_counted_witness:
  "\<exists>st. count_isparallel 0 (run_state Fast team_run) 6 8 stat_count = Inr st \<and>
     m_lca_calls (pt_stat st 0) = 1 \<and> m_lca_height (pt_stat st 0) = 4"
proof -
  let ?s = "run_state Fast team_run"
  have "is_node ?s 6" "is_node ?s 8" "splits (m_tgraph_nodes ?s) 6 8 2"
    "m_depth (m_tgraph_nodes ?s 6) = 4" "m_depth (m_tgraph_nodes ?s 8) = 4"
    by (simp_all add: run_eval is_node_def splits_def at_depth_def up_numeral cong: and_then_weak_cong)
  then show ?thesis
    using lca_height_counted [OF team_state_reachable [of Fast], where a = 6 and b = 8 and d = 2 and tid = 0 and st = stat_count]
    by (simp add: count_at_def stat_count_def zero_stats_def NUM_THREADS_def)
qed

text \<open>The number of created nodes in the report is one too large: the first free index is 1.\<close>

lemma nodes_created_off_by_one:
  assumes "wf_state s" and "m_last_allocated_node s < 2 ^ 62"
  shows "nodes_created (display_at_end s stat_count) = int (card {i. is_node s i}) + 1"
proof -
  have "1 < m_last_allocated_node s" by (rule wf_graphD(1) [OF wf_stateD(1) [OF assms(1)]])
  moreover have "{i. is_node s i} = {1..<m_last_allocated_node s}" by (auto simp: is_node_def)
  moreover have "sint (of_nat (m_last_allocated_node s) :: 64 word) = int (m_last_allocated_node s)"
    using assms(2) by (simp add: signed_of_nat signed_take_bit_int_eq_self)
  ultimately show ?thesis by (simp add: display_at_end_def display_def stat_count_def Let_def)
qed

end
